(* ===== verification/Prelude.thy ===== *)
theory Prelude
  imports Main "HOL-Library.Word"
begin

text \<open>
  Shared vocabulary of the development: the machine types of the C sources, the outcome of a
  call that may block, the scan idiom \<^verbatim>\<open>for (i = 0; i < N; i++) if (P(i)) return i\<close>, and the
  generic facts on lists, words and C strings that the component theories rest on. The
  collections \<open>c_layout\<close> (array sizes and other constants of the sources), \<open>ring_simps\<close>,
  \<open>table_simps\<close> and \<open>kernel_simps\<close> gather the rewrite rules that carry the component proofs.
\<close>

named_theorems c_layout \<open>sizes and constants of the C sources\<close>
named_theorems ring_simps \<open>rules about the log ring buffer\<close>
named_theorems table_simps \<open>rules about the container table\<close>
named_theorems kernel_simps \<open>rules about the kernel monitor\<close>


section \<open>Machine types\<close>

text \<open>
  The platform is the one the build targets (x86-64 Linux): \<open>int\<close> and \<open>pid_t\<close> have 32 bits in
  two's complement (read with \<^const>\<open>sint\<close>), \<open>unsigned long\<close> and \<open>size_t\<close> have 64 bits.
\<close>

type_synonym i32 = "32 word"
type_synonym u32 = "32 word"
type_synonym u64 = "64 word"
type_synonym pid_t = i32
type_synonym fd = int
type_synonym addr = nat

text \<open>The implicit conversion of an \<open>int\<close> to \<open>unsigned long\<close>: sign extension.\<close>

definition ulong_of_int :: "i32 \<Rightarrow> u64" where
  "ulong_of_int w = word_of_int (sint w)"

lemma sint_i32_range: "- (2 ^ 31) \<le> sint (w :: i32)" "sint (w :: i32) < 2 ^ 31"
  using sint_greater_eq [of w] sint_less [of w] by simp_all

lemma uint_ulong_of_int: "uint (ulong_of_int w) = sint w mod 2 ^ 64"
  unfolding ulong_of_int_def by (subst uint_word_of_int) simp

lemma uint_ulong_of_int_nonneg:
  assumes "0 \<le> sint w"
  shows "uint (ulong_of_int w) = sint w"
proof -
  have "sint w < 2 ^ 64"
    using sint_i32_range(2) [of w] by simp
  with assms show ?thesis
    by (simp add: uint_ulong_of_int)
qed

lemma uint_ulong_of_int_neg:
  assumes "sint w < 0"
  shows "uint (ulong_of_int w) = 2 ^ 64 + sint w"
proof -
  have lo: "- (2 ^ 31) \<le> sint w"
    by (rule sint_i32_range(1))
  have "sint w mod 2 ^ 64 = (2 ^ 64 + sint w) mod 2 ^ 64"
    by simp
  also have "\<dots> = 2 ^ 64 + sint w"
    using assms lo by (intro mod_pos_pos_trivial) simp_all
  finally show ?thesis
    by (simp add: uint_ulong_of_int)
qed

lemma ulong_of_int_eq_0_iff [simp]: "ulong_of_int w = 0 \<longleftrightarrow> w = 0"
proof
  assume h: "ulong_of_int w = 0"
  show "w = 0"
  proof (cases "0 \<le> sint w")
    case True
    with h have "sint w = 0"
      using uint_ulong_of_int_nonneg [of w] by simp
    then show ?thesis
      by (simp add: signed_eq_0_iff)
  next
    case False
    with h have "2 ^ 64 + sint w = 0"
      using uint_ulong_of_int_neg [of w] by simp
    with sint_i32_range(1) [of w] show ?thesis
      by simp
  qed
next
  assume "w = 0"
  then show "ulong_of_int w = 0"
    by (simp add: ulong_of_int_def)
qed

text \<open>Comparison with a rounded-down quotient.\<close>

lemma less_div_iff_int:
  assumes "0 < (c :: int)"
  shows "h < k div c \<longleftrightarrow> (h + 1) * c \<le> k"
proof
  assume "h < k div c"
  then have "(h + 1) * c \<le> k div c * c"
    using assms by (intro mult_right_mono) simp_all
  also have "\<dots> \<le> k"
    using assms div_mult_mod_eq [of k c] pos_mod_sign [of c k] by linarith
  finally show "(h + 1) * c \<le> k" .
next
  assume "(h + 1) * c \<le> k"
  then have "(h + 1) * c div c \<le> k div c"
    using assms by (rule zdiv_mono1)
  with assms show "h < k div c"
    by simp
qed


section \<open>Calls that may block\<close>

text \<open>
  A call that waits on a condition variable either returns with a value and a new state, or is
  put to sleep by the state it finds. The second outcome is a value of its own, so that a
  theorem about a result cannot be satisfied by a call that never returns.
\<close>

datatype 'a blocking = Blocks | Returns (result: 'a)


section \<open>First match in an array\<close>

fun first_index :: "('a \<Rightarrow> bool) \<Rightarrow> 'a list \<Rightarrow> nat option" where
  "first_index P [] = None"
| "first_index P (x # xs) = (if P x then Some 0 else map_option Suc (first_index P xs))"

lemma first_index_None: "first_index P xs = None \<longleftrightarrow> (\<forall>x \<in> set xs. \<not> P x)"
  by (induction xs) auto

lemma first_index_Some:
  "first_index P xs = Some i \<longleftrightarrow> i < length xs \<and> P (xs ! i) \<and> (\<forall>j < i. \<not> P (xs ! j))"
proof (induction xs arbitrary: i)
  case Nil
  then show ?case by simp
next
  case (Cons x xs)
  show ?case
    by (cases i) (auto simp: Cons.IH less_Suc_eq_0_disj)
qed

lemma first_index_SomeD:
  assumes "first_index P xs = Some i"
  shows "i < length xs" "P (xs ! i)" "xs ! i \<in> set xs"
  using assms by (auto simp: first_index_Some)

lemma first_index_cong:
  "(\<And>x. x \<in> set xs \<Longrightarrow> P x = Q x) \<Longrightarrow> first_index P xs = first_index Q xs"
  by (induction xs) auto

lemma first_index_unique:
  assumes "i < length xs" "P (xs ! i)" "\<And>j. j < length xs \<Longrightarrow> P (xs ! j) \<Longrightarrow> j = i"
  shows "first_index P xs = Some i"
  unfolding first_index_Some
proof (intro conjI allI impI notI)
  fix j
  assume "j < i" "P (xs ! j)"
  with assms(1) assms(3) [of j] show False by simp
qed (use assms(1,2) in simp_all)


section \<open>Lists\<close>

lemma nth_list_update_cases:
  "i < length xs \<Longrightarrow> xs[i := x] ! j = (if j = i then x else xs ! j)"
  by (auto simp: nth_list_update)

lemma set_update_subset_cases:
  "y \<in> set (xs[i := x]) \<Longrightarrow> y = x \<or> y \<in> set xs"
  using set_update_subset_insert [of xs i x] by blast

lemma list_all_update:
  "list_all P xs \<Longrightarrow> P x \<Longrightarrow> list_all P (xs[i := x])"
  by (auto simp: list_all_iff dest: set_update_subset_cases)

lemma length_filter_update:
  assumes "i < length xs"
  shows "length (filter P (xs[i := x])) + (if P (xs ! i) then 1 else 0)
    = length (filter P xs) + (if P x then 1 else 0)"
proof -
  have xs: "xs = take i xs @ xs ! i # drop (Suc i) xs"
    using assms by (simp add: id_take_nth_drop)
  have "xs[i := x] = take i xs @ x # drop (Suc i) xs"
    using assms by (simp add: upd_conv_take_nth_drop)
  then show ?thesis
    by (subst (2) xs) simp
qed


section \<open>C strings\<close>

text \<open>
  A \<open>char\<close> array is modelled by the C string it holds: the characters before the first NUL.
  \<open>cstr\<close> reads the string out of raw bytes; a string that an array of \<open>n\<close> bytes can hold has
  fewer than \<open>n\<close> characters and no NUL.
\<close>

abbreviation NUL :: char where "NUL \<equiv> CHR 0x00"

definition cstr :: "char list \<Rightarrow> string" where
  "cstr bs = takeWhile (\<lambda>c. c \<noteq> NUL) bs"

definition fits :: "nat \<Rightarrow> string \<Rightarrow> bool" where
  "fits n s \<longleftrightarrow> length s < n \<and> NUL \<notin> set s"

lemma cstr_append_NUL: "NUL \<notin> set s \<Longrightarrow> cstr (s @ NUL # rest) = s"
  unfolding cstr_def by (induction s) auto

lemma cstr_id: "NUL \<notin> set s \<Longrightarrow> cstr s = s"
  unfolding cstr_def by (intro takeWhile_eq_all_conv [THEN iffD2]) auto

lemma NUL_notin_cstr [simp]: "NUL \<notin> set (cstr bs)"
  unfolding cstr_def by (metis (mono_tags, lifting) set_takeWhileD)

lemma length_cstr_le: "length (cstr bs) \<le> length bs"
  unfolding cstr_def by (rule length_takeWhile_le)

lemma fits_take [simp]: "0 < n \<Longrightarrow> NUL \<notin> set s \<Longrightarrow> fits n (take (n - 1) s)"
  unfolding fits_def by (auto dest: in_set_takeD)

lemma fits_take_id: "fits n s \<Longrightarrow> take (n - 1) s = s"
  unfolding fits_def by (intro take_all) linarith

lemma fits_Nil [simp]: "fits n [] \<longleftrightarrow> 0 < n"
  unfolding fits_def by simp

end
