(* ===== verification/C_Text.thy ===== *)
theory C_Text
  imports Prelude
begin

text \<open>
  Text handling: \<^verbatim>\<open>safe_strcpy\<close> of \<^verbatim>\<open>src/engine.c\<close> and the parts of the C library that the
  sources use on strings, \<^verbatim>\<open>snprintf\<close> with \<^verbatim>\<open>%s\<close>, \<^verbatim>\<open>%d\<close> and \<^verbatim>\<open>%u\<close>, \<^verbatim>\<open>atoi\<close>,
  \<^verbatim>\<open>strtol\<close> and \<^verbatim>\<open>strtoul\<close> in base 10. Printing and parsing are inverse to each other on the
  values of an \<open>int\<close> (\<open>atoi_int_dec\<close>), and the printed forms have bounded length.
\<close>


section \<open>Bounded copies\<close>

text \<open>
  \<open>dst\<close> is the string the destination holds before the call, which a zero size leaves alone;
  \<open>None\<close> is a null source pointer. Every caller passes an array as destination, so the
  pointer itself is never null.
\<close>

definition safe_strcpy :: "string \<Rightarrow> string option \<Rightarrow> nat \<Rightarrow> string" where
  "safe_strcpy dst src dst_size =
     (if dst_size = 0 then dst
      else (case src of None \<Rightarrow> [] | Some s \<Rightarrow> take (dst_size - 1) s))"

text \<open>What \<^verbatim>\<open>snprintf\<close> leaves in a buffer of \<open>n\<close> bytes, and what it returns.\<close>

definition snprintf_text :: "nat \<Rightarrow> string \<Rightarrow> string" where
  "snprintf_text n s = take (n - 1) s"

definition snprintf_ret :: "string \<Rightarrow> nat" where
  "snprintf_ret s = length s"

lemma safe_strcpy_fits:
  "0 < n \<Longrightarrow> NUL \<notin> set s \<Longrightarrow> fits n (safe_strcpy dst (Some s) n)"
  using fits_take [of n s] by (simp add: safe_strcpy_def)

lemma safe_strcpy_id: "fits n s \<Longrightarrow> safe_strcpy dst (Some s) n = s"
  by (auto simp: safe_strcpy_def fits_take_id fits_def)

lemma length_safe_strcpy: "0 < n \<Longrightarrow> length (safe_strcpy dst (Some s) n) < n"
  by (auto simp: safe_strcpy_def)


section \<open>Decimal printing\<close>

definition digit :: "nat \<Rightarrow> char" where
  "digit d = char_of (48 + d)"

fun nat_dec :: "nat \<Rightarrow> string" where
  "nat_dec n = (if n < 10 then [digit n] else nat_dec (n div 10) @ [digit (n mod 10)])"

declare nat_dec.simps [simp del]

definition int_dec :: "int \<Rightarrow> string" where
  "int_dec i = (if i < 0 then CHR ''-'' # nat_dec (nat (- i)) else nat_dec (nat i))"

lemma length_nat_dec: "0 < k \<Longrightarrow> n < 10 ^ k \<Longrightarrow> length (nat_dec n) \<le> k"
proof (induction n arbitrary: k rule: nat_dec.induct)
  case (1 n)
  show ?case
  proof (cases "n < 10")
    case True
    with 1 show ?thesis by (subst nat_dec.simps) simp
  next
    case False
    with 1 obtain j where j: "k = Suc j" "0 < j"
      by (cases k; cases "k = 1") auto
    have "n div 10 < 10 ^ j"
      using "1.prems"(2) j(1) by (simp add: less_mult_imp_div_less mult.commute)
    with 1 False j have "length (nat_dec (n div 10)) \<le> j"
      by blast
    with False j show ?thesis
      by (subst nat_dec.simps) simp
  qed
qed

lemma length_int_dec_i32: "length (int_dec (sint (w :: i32))) \<le> 11"
proof -
  have "nat (sint w) < 10 ^ 10" "nat (- sint w) < 10 ^ 10"
    using sint_i32_range [of w] by simp_all
  then have "length (nat_dec (nat (sint w))) \<le> 10" "length (nat_dec (nat (- sint w))) \<le> 10"
    by (simp_all only: length_nat_dec zero_less_numeral)
  then show ?thesis
    by (simp add: int_dec_def)
qed


section \<open>Parsing of numbers\<close>

definition is_space :: "char \<Rightarrow> bool" where
  "is_space c \<longleftrightarrow> of_char c = (32::nat) \<or> (9 \<le> (of_char c :: nat) \<and> of_char c \<le> (13::nat))"

definition is_digit :: "char \<Rightarrow> bool" where
  "is_digit c \<longleftrightarrow> 48 \<le> (of_char c :: nat) \<and> of_char c \<le> (57::nat)"

definition digit_val :: "char \<Rightarrow> nat" where
  "digit_val c = of_char c - 48"

definition dec_val :: "string \<Rightarrow> nat" where
  "dec_val ds = foldl (\<lambda>a c. 10 * a + digit_val c) 0 ds"

text \<open>
  The common part of \<^verbatim>\<open>strtol\<close> and \<^verbatim>\<open>strtoul\<close>: white space, an optional sign, the longest run
  of digits. The result is the sign, the digits and what follows them.
\<close>

definition number_prefix :: "string \<Rightarrow> bool \<times> string \<times> string" where
  "number_prefix s =
     (let t = dropWhile is_space s;
          neg = (t \<noteq> [] \<and> hd t = CHR ''-'');
          u = (if t \<noteq> [] \<and> (hd t = CHR ''-'' \<or> hd t = CHR ''+'') then tl t else t)
      in (neg, takeWhile is_digit u, dropWhile is_digit u))"

text \<open>
  Both functions return the value, the text at the end pointer (the whole argument when there
  was no digit) and whether \<open>errno\<close> became \<open>ERANGE\<close>.
\<close>

definition strtol :: "string \<Rightarrow> int \<times> string \<times> bool" where
  "strtol s =
     (case number_prefix s of (neg, ds, rest) \<Rightarrow>
        let v = (if neg then - int (dec_val ds) else int (dec_val ds))
        in if ds = [] then (0, s, False)
           else if v < - (2 ^ 63) then (- (2 ^ 63), rest, True)
           else if 2 ^ 63 \<le> v then (2 ^ 63 - 1, rest, True)
           else (v, rest, False))"

definition strtoul :: "string \<Rightarrow> u64 \<times> string \<times> bool" where
  "strtoul s =
     (case number_prefix s of (neg, ds, rest) \<Rightarrow>
        if ds = [] then (0, s, False)
        else if 2 ^ 64 \<le> dec_val ds then (- 1, rest, True)
        else (if neg then - of_nat (dec_val ds) else of_nat (dec_val ds), rest, False))"

text \<open>\<^verbatim>\<open>atoi\<close> of glibc is \<^verbatim>\<open>(int) strtol(s, NULL, 10)\<close>.\<close>

definition atoi :: "string \<Rightarrow> i32" where
  "atoi s = word_of_int (fst (strtol s))"

lemma of_char_digit: "d < 10 \<Longrightarrow> of_char (digit d) = (48 + d :: nat)"
  by (simp add: digit_def)

lemma is_digit_digit: "d < 10 \<Longrightarrow> is_digit (digit d)"
  by (simp add: is_digit_def of_char_digit)

lemma digit_val_digit: "d < 10 \<Longrightarrow> digit_val (digit d) = d"
  by (simp add: digit_val_def of_char_digit)

lemma nat_dec_digits: "\<forall>c \<in> set (nat_dec n). is_digit c"
proof (induction n rule: nat_dec.induct)
  case (1 n)
  then show ?case
    by (subst nat_dec.simps) (auto simp: is_digit_digit)
qed

lemma nat_dec_neq_Nil [simp]: "nat_dec n \<noteq> []"
  by (subst nat_dec.simps) simp

lemma dec_val_nat_dec: "dec_val (nat_dec n) = n"
proof (induction n rule: nat_dec.induct)
  case (1 n)
  then show ?case
    by (subst nat_dec.simps) (simp add: dec_val_def digit_val_digit)
qed

lemma digit_not_sign: "is_digit c \<Longrightarrow> \<not> is_space c \<and> c \<noteq> CHR ''-'' \<and> c \<noteq> CHR ''+'' \<and> c \<noteq> NUL"
  by (auto simp: is_digit_def is_space_def)

lemma number_prefix_digits:
  assumes "\<forall>c \<in> set ds. is_digit c" "ds \<noteq> []"
  shows "number_prefix ds = (False, ds, [])"
    and "number_prefix (CHR ''-'' # ds) = (True, ds, [])"
proof -
  obtain c cs where ds: "ds = c # cs"
    using assms(2) by (cases ds) auto
  have c: "is_digit c" "\<not> is_space c" "c \<noteq> CHR ''-''" "c \<noteq> CHR ''+''"
    using assms(1) ds digit_not_sign by auto
  show "number_prefix ds = (False, ds, [])"
    using assms c ds by (simp add: number_prefix_def)
  show "number_prefix (CHR ''-'' # ds) = (True, ds, [])"
    using assms by (simp add: number_prefix_def is_space_def)
qed

lemma strtol_int_dec:
  assumes "- (2 ^ 63) \<le> i" "i < 2 ^ 63"
  shows "strtol (int_dec i) = (i, [], False)"
proof (cases "i < 0")
  case True
  with assms show ?thesis
    using number_prefix_digits(2) [OF nat_dec_digits nat_dec_neq_Nil, of "nat (- i)"]
    by (simp add: strtol_def int_dec_def dec_val_nat_dec)
next
  case False
  with assms show ?thesis
    using number_prefix_digits(1) [OF nat_dec_digits nat_dec_neq_Nil, of "nat i"]
    by (simp add: strtol_def int_dec_def dec_val_nat_dec)
qed

lemma strtoul_nat_dec:
  assumes "n < 2 ^ 64"
  shows "strtoul (nat_dec n) = (of_nat n, [], False)"
  using assms number_prefix_digits(1) [OF nat_dec_digits nat_dec_neq_Nil, of n]
  by (simp add: strtoul_def dec_val_nat_dec)

lemma NUL_notin_int_dec [simp]: "NUL \<notin> set (int_dec i)"
  using nat_dec_digits digit_not_sign by (auto simp: int_dec_def)

lemma atoi_int_dec: "atoi (int_dec (sint w)) = w"
proof -
  have "strtol (int_dec (sint w)) = (sint w, [], False)"
    using sint_i32_range [of w] by (intro strtol_int_dec) simp_all
  then show ?thesis
    by (simp add: atoi_def)
qed

end
