(* ===== verification/Container_Table.thy ===== *)
theory Container_Table
  imports C_Text
begin

text \<open>
  The container table of the supervisor: \<^verbatim>\<open>container_t\<close>, the array \<^verbatim>\<open>containers\<close> of
  \<^verbatim>\<open>MAX_CONTAINERS\<close> slots and the lookups that run under \<^verbatim>\<open>containers_mutex\<close>. A state is the
  string the code stores; \<open>int\<close> flags that only hold 0 and 1 are booleans. The thread handle
  and the condition variable of a slot carry no data and are left out of the record. The
  invariant \<open>table_ok\<close> says what the critical sections keep: container ids are unique, no two
  live containers share a root file system, and every string fits its array.
\<close>


section \<open>Data\<close>

definition MAX_CONTAINERS :: nat where "MAX_CONTAINERS = 10"
definition MAX_ID_LEN :: nat where "MAX_ID_LEN = 32"
definition MAX_PATH_LEN :: nat where "MAX_PATH_LEN = 256"
definition MAX_CMD_LEN :: nat where "MAX_CMD_LEN = 256"
definition MAX_STATE_LEN :: nat where "MAX_STATE_LEN = 24"
definition RESPONSE_MSG_LEN :: nat where "RESPONSE_MSG_LEN = 8192"

lemmas [c_layout] = MAX_CONTAINERS_def MAX_ID_LEN_def MAX_PATH_LEN_def MAX_CMD_LEN_def
  MAX_STATE_LEN_def RESPONSE_MSG_LEN_def

record container =
  used :: bool
  cid :: string
  pid :: pid_t
  state :: string
  rootfs :: string
  command :: string
  log_file :: string
  soft_mib :: i32
  hard_mib :: i32
  nice_value :: i32
  exit_code :: i32
  stop_requested :: bool
  start_time :: int
  child_stack :: "addr option"

definition zero_container :: container where
  "zero_container = \<lparr>used = False, cid = [], pid = 0, state = [], rootfs = [], command = [],
     log_file = [], soft_mib = 0, hard_mib = 0, nice_value = 0, exit_code = 0,
     stop_requested = False, start_time = 0, child_stack = None\<rparr>"


section \<open>Operations\<close>

definition init_containers :: "container list" where
  "init_containers = replicate MAX_CONTAINERS zero_container"

definition is_live_state :: "string \<Rightarrow> bool" where
  "is_live_state s \<longleftrightarrow> s = ''STARTING'' \<or> s = ''RUNNING''"

definition find_free_container_slot_locked :: "container list \<Rightarrow> nat option" where
  "find_free_container_slot_locked cs = first_index (\<lambda>c. \<not> used c) cs"

definition find_container_by_id_locked :: "container list \<Rightarrow> string \<Rightarrow> nat option" where
  "find_container_by_id_locked cs i = first_index (\<lambda>c. used c \<and> cid c = i) cs"

definition rootfs_in_use_locked :: "container list \<Rightarrow> string \<Rightarrow> bool" where
  "rootfs_in_use_locked cs r \<longleftrightarrow>
     list_ex (\<lambda>c. used c \<and> is_live_state (state c) \<and> rootfs c = r) cs"


section \<open>The invariant of the table\<close>

definition live :: "container \<Rightarrow> bool" where
  "live c \<longleftrightarrow> used c \<and> is_live_state (state c)"

definition container_states :: "string set" where
  "container_states = {''STARTING'', ''RUNNING'', ''STOPPED'', ''EXITED'', ''KILLED''}"

definition slot_ok :: "container \<Rightarrow> bool" where
  "slot_ok c \<longleftrightarrow> (used c \<longrightarrow>
     fits MAX_ID_LEN (cid c) \<and> fits MAX_PATH_LEN (rootfs c) \<and> fits MAX_CMD_LEN (command c)
     \<and> log_file c = ''logs/'' @ cid c @ ''.log'' \<and> state c \<in> container_states)"

definition table_ok :: "container list \<Rightarrow> bool" where
  "table_ok cs \<longleftrightarrow> length cs = MAX_CONTAINERS \<and> (\<forall>c \<in> set cs. slot_ok c)
     \<and> (\<forall>i < length cs. \<forall>j < length cs.
          used (cs ! i) \<longrightarrow> used (cs ! j) \<longrightarrow> cid (cs ! i) = cid (cs ! j) \<longrightarrow> i = j)
     \<and> (\<forall>i < length cs. \<forall>j < length cs.
          live (cs ! i) \<longrightarrow> live (cs ! j) \<longrightarrow> rootfs (cs ! i) = rootfs (cs ! j) \<longrightarrow> i = j)"

lemma table_okD:
  assumes "table_ok cs"
  shows "length cs = MAX_CONTAINERS" "\<And>c. c \<in> set cs \<Longrightarrow> slot_ok c"
    "\<And>i j. i < length cs \<Longrightarrow> j < length cs \<Longrightarrow> used (cs ! i) \<Longrightarrow> used (cs ! j) \<Longrightarrow>
       cid (cs ! i) = cid (cs ! j) \<Longrightarrow> i = j"
    "\<And>i j. i < length cs \<Longrightarrow> j < length cs \<Longrightarrow> live (cs ! i) \<Longrightarrow> live (cs ! j) \<Longrightarrow>
       rootfs (cs ! i) = rootfs (cs ! j) \<Longrightarrow> i = j"
  using assms unfolding table_ok_def by auto

lemma live_used: "live c \<Longrightarrow> used c"
  by (simp add: live_def)

lemma is_live_state_simps [simp]:
  "is_live_state ''STARTING''" "is_live_state ''RUNNING''" "\<not> is_live_state ''STOPPED''"
  "\<not> is_live_state ''EXITED''" "\<not> is_live_state ''KILLED''"
  by (simp_all add: is_live_state_def)

lemma container_states_simps [simp]:
  "''STARTING'' \<in> container_states" "''RUNNING'' \<in> container_states"
  "''STOPPED'' \<in> container_states" "''EXITED'' \<in> container_states" "''KILLED'' \<in> container_states"
  by (simp_all add: container_states_def)

lemma init_containers_ok: "table_ok init_containers"
  by (simp add: table_ok_def init_containers_def slot_ok_def zero_container_def live_def)

text \<open>
  Replacing one slot: the three obligations that keep \<^const>\<open>table_ok\<close>. Every operation of the
  supervisor writes one slot, so its invariant proof is an instance of this lemma.
\<close>

lemma table_ok_update:
  assumes ok: "table_ok cs" and i: "i < length cs"
    and slot: "slot_ok c"
    and ids: "\<And>j. j < length cs \<Longrightarrow> j \<noteq> i \<Longrightarrow> used c \<Longrightarrow> used (cs ! j) \<Longrightarrow> cid (cs ! j) \<noteq> cid c"
    and roots: "\<And>j. j < length cs \<Longrightarrow> j \<noteq> i \<Longrightarrow> live c \<Longrightarrow> live (cs ! j) \<Longrightarrow>
      rootfs (cs ! j) \<noteq> rootfs c"
  shows "table_ok (cs[i := c])"
proof -
  have "slot_ok d" if "d \<in> set (cs[i := c])" for d
    using that slot table_okD(2) [OF ok] by (auto dest: set_update_subset_cases)
  moreover have "a = b"
    if "a < length cs" "b < length cs" "used (cs[i := c] ! a)" "used (cs[i := c] ! b)"
      "cid (cs[i := c] ! a) = cid (cs[i := c] ! b)" for a b
    using that i ids [of a] ids [of b] table_okD(3) [OF ok, of a b]
    by (auto simp: nth_list_update_cases split: if_splits)
  moreover have "a = b"
    if "a < length cs" "b < length cs" "live (cs[i := c] ! a)" "live (cs[i := c] ! b)"
      "rootfs (cs[i := c] ! a) = rootfs (cs[i := c] ! b)" for a b
    using that i roots [of a] roots [of b] table_okD(4) [OF ok, of a b]
    by (auto simp: nth_list_update_cases split: if_splits)
  ultimately show ?thesis
    using table_okD(1) [OF ok] by (simp add: table_ok_def)
qed

text \<open>A rewrite of a slot that keeps its identity and does not revive it.\<close>

lemma table_ok_modify:
  assumes ok: "table_ok cs" and i: "i < length cs"
    and same: "used c \<Longrightarrow> used (cs ! i)" "cid c = cid (cs ! i)" "rootfs c = rootfs (cs ! i)"
      "command c = command (cs ! i)" "log_file c = log_file (cs ! i)"
    and st: "used c \<Longrightarrow> state c \<in> container_states" "live c \<Longrightarrow> live (cs ! i)"
  shows "table_ok (cs[i := c])"
proof (rule table_ok_update [OF ok i])
  have "slot_ok (cs ! i)"
    using table_okD(2) [OF ok] i by simp
  then show "slot_ok c"
    using same st by (auto simp: slot_ok_def)
next
  fix j
  assume j: "j < length cs" "j \<noteq> i" "used c" "used (cs ! j)"
  then show "cid (cs ! j) \<noteq> cid c"
    using table_okD(3) [OF ok, of j i] i same by auto
next
  fix j
  assume j: "j < length cs" "j \<noteq> i" "live c" "live (cs ! j)"
  then show "rootfs (cs ! j) \<noteq> rootfs c"
    using table_okD(4) [OF ok, of j i] i same st by auto
qed

lemma find_container_by_id_SomeD:
  assumes "find_container_by_id_locked cs x = Some i"
  shows "i < length cs" "used (cs ! i)" "cid (cs ! i) = x"
  using assms by (auto simp: find_container_by_id_locked_def first_index_Some)

lemma find_container_by_id_NoneD:
  "find_container_by_id_locked cs x = None \<Longrightarrow> j < length cs \<Longrightarrow> used (cs ! j) \<Longrightarrow> cid (cs ! j) \<noteq> x"
  by (auto simp: find_container_by_id_locked_def first_index_None)

lemma find_container_by_id_eq:
  assumes "table_ok cs" "i < length cs" "used (cs ! i)"
  shows "find_container_by_id_locked cs (cid (cs ! i)) = Some i"
  unfolding find_container_by_id_locked_def
  using assms table_okD(3) [OF assms(1)] by (intro first_index_unique) auto

lemma find_free_slot_SomeD:
  assumes "find_free_container_slot_locked cs = Some i"
  shows "i < length cs" "\<not> used (cs ! i)"
  using assms by (auto simp: find_free_container_slot_locked_def first_index_Some)

lemma find_free_slot_None_iff:
  "find_free_container_slot_locked cs = None \<longleftrightarrow> (\<forall>c \<in> set cs. used c)"
  by (simp add: find_free_container_slot_locked_def first_index_None)

lemma rootfs_in_use_iff:
  "rootfs_in_use_locked cs r \<longleftrightarrow> (\<exists>c \<in> set cs. live c \<and> rootfs c = r)"
  by (auto simp: rootfs_in_use_locked_def list_ex_iff live_def)

lemma rootfs_not_in_useD:
  "\<not> rootfs_in_use_locked cs r \<Longrightarrow> j < length cs \<Longrightarrow> live (cs ! j) \<Longrightarrow> rootfs (cs ! j) \<noteq> r"
  by (auto simp: rootfs_in_use_iff)

end
