(* ===== verification/Wire.thy ===== *)
theory Wire
  imports Container_Table
begin

text \<open>
  The control channel between the command line client and the supervisor: \<^verbatim>\<open>request_t\<close> and
  \<^verbatim>\<open>response_t\<close>, the helpers that fill them, and \<^verbatim>\<open>send_all\<close> and \<^verbatim>\<open>recv_all\<close>. A structure
  travels as its memory image: little-endian 32-bit integers and \<open>char\<close> arrays, which need no
  padding in either structure. The locale \<open>codec\<close> states what makes a value survive the trip
  over a stream that the kernel may cut at any place; \<open>req_codec\<close> and \<open>resp_codec\<close> interpret
  it for the two structures.
\<close>


section \<open>Requests and responses\<close>

datatype request_type = REQ_START | REQ_RUN | REQ_PS | REQ_LOGS | REQ_STOP

fun request_type_code :: "request_type \<Rightarrow> i32" where
  "request_type_code REQ_START = 1"
| "request_type_code REQ_RUN = 2"
| "request_type_code REQ_PS = 3"
| "request_type_code REQ_LOGS = 4"
| "request_type_code REQ_STOP = 5"

record request =
  req_type :: i32
  req_id :: string
  req_rootfs :: string
  req_command :: string
  req_soft_mib :: i32
  req_hard_mib :: i32
  req_nice_value :: i32

record response =
  ok :: i32
  resp_exit_code :: i32
  message :: string

definition DEFAULT_SOFT_MIB :: i32 where "DEFAULT_SOFT_MIB = 40"
definition DEFAULT_HARD_MIB :: i32 where "DEFAULT_HARD_MIB = 64"
definition DEFAULT_NICE :: i32 where "DEFAULT_NICE = 0"

lemmas [c_layout] = DEFAULT_SOFT_MIB_def DEFAULT_HARD_MIB_def DEFAULT_NICE_def

definition init_response :: response where
  "init_response = \<lparr>ok = 0, resp_exit_code = -1, message = []\<rparr>"

text \<open>The variadic format of \<^verbatim>\<open>set_response\<close> is expanded by the caller.\<close>

definition set_response :: "response \<Rightarrow> i32 \<Rightarrow> i32 \<Rightarrow> string \<Rightarrow> response" where
  "set_response resp okv code text =
     resp\<lparr>ok := okv, resp_exit_code := code, message := snprintf_text RESPONSE_MSG_LEN text\<rparr>"

definition init_request_defaults :: request where
  "init_request_defaults = \<lparr>req_type = 0, req_id = [], req_rootfs = [], req_command = [],
     req_soft_mib = DEFAULT_SOFT_MIB, req_hard_mib = DEFAULT_HARD_MIB,
     req_nice_value = DEFAULT_NICE\<rparr>"

definition request_ok :: "request \<Rightarrow> bool" where
  "request_ok r \<longleftrightarrow> fits MAX_ID_LEN (req_id r) \<and> fits MAX_PATH_LEN (req_rootfs r)
     \<and> fits MAX_CMD_LEN (req_command r)"

definition response_ok :: "response \<Rightarrow> bool" where
  "response_ok r \<longleftrightarrow> fits RESPONSE_MSG_LEN (message r)"

lemma set_response_simps [simp]:
  "ok (set_response r a b t) = a" "resp_exit_code (set_response r a b t) = b"
  "message (set_response r a b t) = take (RESPONSE_MSG_LEN - 1) t"
  by (simp_all add: set_response_def snprintf_text_def)

lemma set_response_ok: "NUL \<notin> set t \<Longrightarrow> response_ok (set_response r a b t)"
  using fits_take [of RESPONSE_MSG_LEN t] by (simp add: response_ok_def c_layout)


section \<open>Sending and receiving\<close>

text \<open>
  The answers of the kernel to the successive \<^verbatim>\<open>send\<close> and \<^verbatim>\<open>recv\<close> calls are an argument. The
  result is the status code with the bytes that went through, or \<^const>\<open>None\<close> when the answers
  end while the loop still runs. \<^verbatim>\<open>recv\<close> returning 0 bytes is \<open>Recv_data []\<close>.
\<close>

datatype send_result = Sent nat | Send_EINTR | Send_error

datatype recv_result = Recv_data "char list" | Recv_EINTR | Recv_error

fun send_all :: "send_result list \<Rightarrow> char list \<Rightarrow> (int \<times> char list) option" where
  "send_all rs [] = Some (0, [])"
| "send_all [] buf = None"
| "send_all (Send_EINTR # rs) buf = send_all rs buf"
| "send_all (Send_error # rs) buf = Some (-1, [])"
| "send_all (Sent n # rs) buf =
     map_option (\<lambda>(rc, tx). (rc, take n buf @ tx)) (send_all rs (drop n buf))"

fun recv_all :: "recv_result list \<Rightarrow> nat \<Rightarrow> (int \<times> char list) option" where
  "recv_all rs 0 = Some (0, [])"
| "recv_all [] (Suc k) = None"
| "recv_all (Recv_EINTR # rs) (Suc k) = recv_all rs (Suc k)"
| "recv_all (Recv_error # rs) (Suc k) = Some (-1, [])"
| "recv_all (Recv_data bs # rs) (Suc k) =
     (if bs = [] then Some (-1, [])
      else map_option (\<lambda>(rc, got). (rc, bs @ got)) (recv_all rs (Suc k - length bs)))"

lemma send_all_complete: "send_all rs buf = Some (0, tx) \<Longrightarrow> tx = buf"
  by (induction rs buf arbitrary: tx rule: send_all.induct) auto

lemma send_all_prefix: "send_all rs buf = Some (rc, tx) \<Longrightarrow> \<exists>rest. buf = tx @ rest"
proof (induction rs buf arbitrary: tx rule: send_all.induct)
  case (5 n rs b bs)
  from "5.prems" obtain tx' where tx': "send_all rs (drop n (b # bs)) = Some (rc, tx')"
    "tx = take n (b # bs) @ tx'"
    by auto
  then show ?case
    by (metis "5.IH" append.assoc append_take_drop_id)
qed auto

text \<open>
  Enough answers: if each \<^verbatim>\<open>send\<close> makes progress, as many answers as there are bytes finish the
  loop, so it returns.
\<close>

lemma send_all_returns:
  "list_all (\<lambda>r. \<exists>n. r = Sent (Suc n)) rs \<Longrightarrow> length buf \<le> length rs \<Longrightarrow>
     send_all rs buf = Some (0, buf)"
proof (induction rs arbitrary: buf)
  case Nil
  then show ?case by simp
next
  case (Cons r rs)
  show ?case
  proof (cases buf)
    case (Cons b bs)
    obtain n where r: "r = Sent (Suc n)"
      using Cons.prems by auto
    have "length (drop (Suc n) buf) \<le> length rs"
      using Cons.prems(2) Cons by simp
    then have "send_all rs (drop (Suc n) buf) = Some (0, drop (Suc n) buf)"
      using Cons.IH Cons.prems(1) by simp
    then show ?thesis
      using Cons r by simp
  qed simp
qed

text \<open>The bytes that a sequence of \<^verbatim>\<open>recv\<close> answers delivers.\<close>

fun recv_bytes :: "recv_result list \<Rightarrow> char list" where
  "recv_bytes [] = []"
| "recv_bytes (Recv_data bs # rs) = bs @ recv_bytes rs"
| "recv_bytes (Recv_EINTR # rs) = recv_bytes rs"
| "recv_bytes (Recv_error # rs) = recv_bytes rs"

definition no_failure :: "recv_result list \<Rightarrow> bool" where
  "no_failure rs \<longleftrightarrow> Recv_error \<notin> set rs \<and> Recv_data [] \<notin> set rs"

lemma recv_all_complete:
  "no_failure rs \<Longrightarrow> length (recv_bytes rs) = k \<Longrightarrow> recv_all rs k = Some (0, recv_bytes rs)"
proof (induction rs k rule: recv_all.induct)
  case (1 rs)
  then show ?case by simp
next
  case (5 bs rs k)
  then have "no_failure rs" "bs \<noteq> []" "length (recv_bytes rs) = Suc k - length bs"
    by (auto simp: no_failure_def)
  with 5 show ?case by simp
qed (auto simp: no_failure_def)


section \<open>Memory images\<close>

fun le_bytes :: "nat \<Rightarrow> nat \<Rightarrow> char list" where
  "le_bytes 0 v = []"
| "le_bytes (Suc k) v = char_of v # le_bytes k (v div 256)"

fun le_val :: "char list \<Rightarrow> nat" where
  "le_val [] = 0"
| "le_val (b # bs) = of_char b + 256 * le_val bs"

lemma length_le_bytes [simp]: "length (le_bytes k v) = k"
  by (induction k arbitrary: v) auto

lemma le_val_le_bytes: "le_val (le_bytes k v) = v mod 256 ^ k"
proof (induction k arbitrary: v)
  case 0
  then show ?case by simp
next
  case (Suc k)
  have "v mod (256 * 256 ^ k) = 256 * (v div 256 mod 256 ^ k) + v mod 256"
    by (rule mod_mult2_eq)
  with Suc show ?case by simp
qed

definition i32_image :: "i32 \<Rightarrow> char list" where
  "i32_image w = le_bytes 4 (unat w)"

definition i32_of_image :: "char list \<Rightarrow> i32" where
  "i32_of_image bs = of_nat (le_val bs)"

lemma length_i32_image [simp]: "length (i32_image w) = 4"
  by (simp add: i32_image_def)

lemma i32_of_image_image [simp]: "i32_of_image (i32_image w) = w"
proof -
  have "unat w < 256 ^ 4"
    by (rule order_less_le_trans [OF unsigned_less]) simp
  then show ?thesis
    by (simp add: i32_of_image_def i32_image_def le_val_le_bytes)
qed

text \<open>A \<open>char\<close> array of \<open>n\<close> bytes that holds \<open>s\<close>; \<open>stale\<close> gives the bytes after the NUL.\<close>

definition array_image :: "(nat \<Rightarrow> char) \<Rightarrow> nat \<Rightarrow> string \<Rightarrow> char list" where
  "array_image stale n s = s @ NUL # map stale [Suc (length s)..<n]"

lemma length_array_image [simp]: "fits n s \<Longrightarrow> length (array_image stale n s) = n"
  by (simp add: array_image_def fits_def)

lemma cstr_array_image [simp]: "fits n s \<Longrightarrow> cstr (array_image stale n s) = s"
  by (simp add: array_image_def fits_def cstr_append_NUL)

text \<open>\<^verbatim>\<open>init_request_defaults\<close> clears the whole request, so its arrays are filled with zeros.\<close>

definition request_image :: "request \<Rightarrow> char list" where
  "request_image r = i32_image (req_type r)
     @ array_image (\<lambda>_. NUL) MAX_ID_LEN (req_id r)
     @ array_image (\<lambda>_. NUL) MAX_PATH_LEN (req_rootfs r)
     @ array_image (\<lambda>_. NUL) MAX_CMD_LEN (req_command r)
     @ i32_image (req_soft_mib r) @ i32_image (req_hard_mib r) @ i32_image (req_nice_value r)"

definition sizeof_request :: nat where
  "sizeof_request = 4 + MAX_ID_LEN + MAX_PATH_LEN + MAX_CMD_LEN + 4 + 4 + 4"

definition request_of_image :: "char list \<Rightarrow> request" where
  "request_of_image bs =
     (let b1 = drop 4 bs; b2 = drop MAX_ID_LEN b1; b3 = drop MAX_PATH_LEN b2;
          b4 = drop MAX_CMD_LEN b3; b5 = drop 4 b4; b6 = drop 4 b5
      in \<lparr>req_type = i32_of_image (take 4 bs), req_id = cstr (take MAX_ID_LEN b1),
          req_rootfs = cstr (take MAX_PATH_LEN b2), req_command = cstr (take MAX_CMD_LEN b3),
          req_soft_mib = i32_of_image (take 4 b4), req_hard_mib = i32_of_image (take 4 b5),
          req_nice_value = i32_of_image (take 4 b6)\<rparr>)"

text \<open>The message of a response is written more than once for \<open>REQ_RUN\<close>; old text may remain.\<close>

definition response_image :: "(nat \<Rightarrow> char) \<Rightarrow> response \<Rightarrow> char list" where
  "response_image stale r = i32_image (ok r) @ i32_image (resp_exit_code r)
     @ array_image stale RESPONSE_MSG_LEN (message r)"

definition sizeof_response :: nat where
  "sizeof_response = 4 + 4 + RESPONSE_MSG_LEN"

definition response_of_image :: "char list \<Rightarrow> response" where
  "response_of_image bs =
     \<lparr>ok = i32_of_image (take 4 bs), resp_exit_code = i32_of_image (take 4 (drop 4 bs)),
      message = cstr (take RESPONSE_MSG_LEN (drop 8 bs))\<rparr>"


section \<open>The contract of a structure on the stream\<close>

locale codec =
  fixes image :: "'a \<Rightarrow> char list"
    and decode :: "char list \<Rightarrow> 'a"
    and valid :: "'a \<Rightarrow> bool"
    and width :: nat
  assumes image_width: "valid a \<Longrightarrow> length (image a) = width"
    and decode_image: "valid a \<Longrightarrow> decode (image a) = a"
begin

lemma image_inj: "valid a \<Longrightarrow> valid b \<Longrightarrow> image a = image b \<Longrightarrow> a = b"
  by (metis decode_image)

lemma transfer:
  assumes "valid a" "send_all ss (image a) = Some (0, tx)" "no_failure rs" "recv_bytes rs = tx"
  shows "\<exists>bs. recv_all rs width = Some (0, bs) \<and> decode bs = a"
proof -
  have tx: "tx = image a"
    using assms(2) by (rule send_all_complete)
  then have "recv_all rs width = Some (0, recv_bytes rs)"
    using assms image_width by (intro recv_all_complete) auto
  with assms tx decode_image show ?thesis by simp
qed

end

interpretation req_codec: codec request_image request_of_image request_ok sizeof_request
proof unfold_locales
  fix r
  assume r: "request_ok r"
  then show "length (request_image r) = sizeof_request"
    by (simp add: request_ok_def request_image_def sizeof_request_def)
  show "request_of_image (request_image r) = r"
    using r by (simp add: request_ok_def request_image_def request_of_image_def Let_def)
qed

interpretation resp_codec: codec "response_image stale" response_of_image response_ok
  sizeof_response for stale
proof unfold_locales
  fix r
  assume r: "response_ok r"
  then show "length (response_image stale r) = sizeof_response"
    by (simp add: response_ok_def response_image_def sizeof_response_def)
  have drop8: "drop 8 (i32_image a @ i32_image b @ xs) = xs" for a b xs
    by simp
  show "response_of_image (response_image stale r) = r"
    using r by (simp add: response_ok_def response_image_def response_of_image_def drop8)
qed

end
