(* ===== verification/Monitor.thy ===== *)
theory Monitor
  imports Prelude
begin

text \<open>
  The kernel module \<^verbatim>\<open>src/monitor.c\<close>: the list of monitored processes, the \<^verbatim>\<open>ioctl\<close> handler
  that registers and unregisters them, the periodic pass of the monitor thread, and module
  start and exit. Each \<^verbatim>\<open>ioctl\<close> and each pass holds \<^verbatim>\<open>monitor_lock\<close> throughout, so a history
  of the module is a list of such critical sections (\<open>monitor_op\<close>). What the process table
  answers is an argument: one \<open>kview\<close> for each of the lookups by pid that a pass performs for
  an entry. Kernel log lines and the signals sent are recorded as \<open>kevent\<close>s.
\<close>


section \<open>Data\<close>

record monitor_request =
  mr_pid :: pid_t
  mr_soft_limit :: u64
  mr_hard_limit :: u64

record monitor_entry =
  me_pid :: pid_t
  soft_limit :: u64
  hard_limit :: u64
  soft_warned :: bool

text \<open>
  The argument of a command is what \<^verbatim>\<open>copy_from_user\<close> delivers: \<open>None\<close> when the copy faults.
\<close>

datatype monitor_cmd =
    REGISTER_CONTAINER "monitor_request option"
  | UNREGISTER_CONTAINER "pid_t option"
  | OTHER_CMD

definition ENOENT :: int where "ENOENT = 2"
definition ESRCH :: int where "ESRCH = 3"
definition ENOMEM :: int where "ENOMEM = 12"
definition EFAULT :: int where "EFAULT = 14"
definition EINVAL :: int where "EINVAL = 22"

lemmas errno_defs [kernel_simps] = ENOENT_def ESRCH_def ENOMEM_def EFAULT_def EINVAL_def

datatype kevent =
    K_updated pid_t u64 u64
  | K_registered pid_t u64 u64
  | K_unregistered pid_t
  | K_stale pid_t
  | K_rss_failed pid_t
  | K_soft pid_t u64 u64
  | K_hard pid_t u64 u64
  | K_sigkill pid_t

text \<open>
  What the process table holds for a pid at one lookup: no \<^verbatim>\<open>struct pid\<close>, a pid without a task,
  a task without an address space, or the resident pages of its address space.
\<close>

datatype kview = No_pid | No_task | No_mm | Mm_rss u64

definition PAGE_SIZE :: u64 where "PAGE_SIZE = 4096"


section \<open>Helpers\<close>

definition find_entry_locked :: "monitor_entry list \<Rightarrow> pid_t \<Rightarrow> nat option" where
  "find_entry_locked es p = first_index (\<lambda>e. me_pid e = p) es"

fun remove_entry_locked :: "monitor_entry list \<Rightarrow> pid_t \<Rightarrow> int \<times> monitor_entry list" where
  "remove_entry_locked [] p = (- ENOENT, [])"
| "remove_entry_locked (e # es) p =
     (if me_pid e = p then (0, es)
      else (case remove_entry_locked es p of (ret, es') \<Rightarrow> (ret, e # es')))"

fun process_exists :: "kview \<Rightarrow> int" where
  "process_exists No_pid = 0"
| "process_exists No_task = 0"
| "process_exists No_mm = 1"
| "process_exists (Mm_rss pages) = 1"

text \<open>The second argument says whether the output pointer is valid; the result is what it holds.\<close>

fun get_process_rss_mib :: "kview \<Rightarrow> bool \<Rightarrow> int \<times> u64 option" where
  "get_process_rss_mib v False = (- EINVAL, None)"
| "get_process_rss_mib No_pid True = (- ESRCH, Some 0)"
| "get_process_rss_mib No_task True = (- ESRCH, Some 0)"
| "get_process_rss_mib No_mm True = (- ESRCH, Some 0)"
| "get_process_rss_mib (Mm_rss pages) True = (0, Some (pages * PAGE_SIZE div (1024 * 1024)))"

text \<open>\<open>ret\<close> is what \<^verbatim>\<open>kill_pid\<close> returns.\<close>

fun kill_process_by_pid :: "kview \<Rightarrow> int \<Rightarrow> pid_t \<Rightarrow> int \<times> kevent list" where
  "kill_process_by_pid No_pid ret p = (- ESRCH, [])"
| "kill_process_by_pid v ret p = (ret, [K_sigkill p])"


section \<open>The ioctl handler\<close>

text \<open>\<open>kmalloc_ok\<close> says whether the allocation of a new entry succeeds.\<close>

definition monitor_ioctl ::
  "bool \<Rightarrow> monitor_cmd \<Rightarrow> monitor_entry list \<Rightarrow> int \<times> monitor_entry list \<times> kevent list" where
  "monitor_ioctl kmalloc_ok cmd es =
     (case cmd of
        REGISTER_CONTAINER None \<Rightarrow> (- EFAULT, es, [])
      | REGISTER_CONTAINER (Some req) \<Rightarrow>
          if sint (mr_pid req) \<le> 0 then (- EINVAL, es, [])
          else if mr_hard_limit req = 0 then (- EINVAL, es, [])
          else (case find_entry_locked es (mr_pid req) of
                  Some i \<Rightarrow>
                    (0, es[i := (es ! i)\<lparr>soft_limit := mr_soft_limit req,
                                        hard_limit := mr_hard_limit req,
                                        soft_warned := False\<rparr>],
                     [K_updated (mr_pid req) (mr_soft_limit req) (mr_hard_limit req)])
                | None \<Rightarrow>
                    if \<not> kmalloc_ok then (- ENOMEM, es, [])
                    else (0, es @ [\<lparr>me_pid = mr_pid req, soft_limit = mr_soft_limit req,
                                    hard_limit = mr_hard_limit req, soft_warned = False\<rparr>],
                          [K_registered (mr_pid req) (mr_soft_limit req) (mr_hard_limit req)]))
      | UNREGISTER_CONTAINER None \<Rightarrow> (- EFAULT, es, [])
      | UNREGISTER_CONTAINER (Some p) \<Rightarrow>
          (case remove_entry_locked es p of
             (ret, es') \<Rightarrow> if ret = 0 then (0, es', [K_unregistered p]) else (- ENOENT, es', []))
      | OTHER_CMD \<Rightarrow> (- EINVAL, es, []))"


section \<open>The monitor thread\<close>

text \<open>
  One entry of a pass. The three views are the answers to the lookups of \<^verbatim>\<open>process_exists\<close>,
  \<^verbatim>\<open>get_process_rss_mib\<close> and \<^verbatim>\<open>kill_process_by_pid\<close>, which are separate and may differ when the
  process ends in between. The result is the entry that stays, if it does.
\<close>

definition monitor_visit ::
  "kview \<times> kview \<times> kview \<Rightarrow> monitor_entry \<Rightarrow> monitor_entry option \<times> kevent list" where
  "monitor_visit views e =
     (case views of (v1, v2, v3) \<Rightarrow>
        if process_exists v1 = 0 then (None, [K_stale (me_pid e)])
        else (case get_process_rss_mib v2 True of
          (ret, out) \<Rightarrow>
            if ret \<noteq> 0 then (None, [K_rss_failed (me_pid e)])
            else
              let rss = (case out of None \<Rightarrow> 0 | Some r \<Rightarrow> r);
                  warn = (\<not> soft_warned e \<and> soft_limit e < rss);
                  e' = (if warn then e\<lparr>soft_warned := True\<rparr> else e);
                  soft_ev = (if warn then [K_soft (me_pid e) rss (soft_limit e)] else []);
                  hard_ev = (if hard_limit e < rss
                             then K_hard (me_pid e) rss (hard_limit e)
                                    # snd (kill_process_by_pid v3 0 (me_pid e))
                             else [])
              in (Some e', soft_ev @ hard_ev)))"

fun monitor_pass ::
  "(pid_t \<Rightarrow> kview \<times> kview \<times> kview) \<Rightarrow> monitor_entry list \<Rightarrow> monitor_entry list \<times> kevent list" where
  "monitor_pass views [] = ([], [])"
| "monitor_pass views (e # es) =
     (case monitor_visit (views (me_pid e)) e of
        (kept, ev) \<Rightarrow>
          (case monitor_pass views es of
             (es', evs) \<Rightarrow> ((case kept of None \<Rightarrow> es' | Some e' \<Rightarrow> e' # es'), ev @ evs)))"

text \<open>
  \<^verbatim>\<open>monitor_thread_fn\<close> runs one pass per element of its argument and then sees
  \<^verbatim>\<open>kthread_should_stop\<close>.
\<close>

fun monitor_thread_fn ::
  "(pid_t \<Rightarrow> kview \<times> kview \<times> kview) list \<Rightarrow> monitor_entry list \<Rightarrow> monitor_entry list \<times> kevent list" where
  "monitor_thread_fn [] es = (es, [])"
| "monitor_thread_fn (views # vs) es =
     (case monitor_pass views es of
        (es', ev) \<Rightarrow> (case monitor_thread_fn vs es' of (es'', evs) \<Rightarrow> (es'', ev @ evs)))"


section \<open>Histories of the module\<close>

datatype monitor_op = Ioctl bool monitor_cmd | Pass "pid_t \<Rightarrow> kview \<times> kview \<times> kview"

fun monitor_do :: "monitor_op \<Rightarrow> monitor_entry list \<Rightarrow> monitor_entry list \<times> kevent list" where
  "monitor_do (Ioctl kmalloc_ok cmd) es = snd (monitor_ioctl kmalloc_ok cmd es)"
| "monitor_do (Pass views) es = monitor_pass views es"

fun monitor_run :: "monitor_op list \<Rightarrow> monitor_entry list \<Rightarrow> monitor_entry list \<times> kevent list" where
  "monitor_run [] es = (es, [])"
| "monitor_run (x # xs) es =
     (case monitor_do x es of
        (es', ev) \<Rightarrow> (case monitor_run xs es' of (es'', evs) \<Rightarrow> (es'', ev @ evs)))"


section \<open>Loading and unloading\<close>

datatype kres = Chrdev_region | Cdev | Dev_class | Dev_node | Monitor_thread

text \<open>
  The arguments are the return values of \<^verbatim>\<open>alloc_chrdev_region\<close>, \<^verbatim>\<open>cdev_add\<close> and, as error
  codes, of \<^verbatim>\<open>class_create\<close>, \<^verbatim>\<open>device_create\<close> and \<^verbatim>\<open>kthread_run\<close> (negative when
  \<^verbatim>\<open>IS_ERR\<close>). The second result lists what the module holds afterwards.
\<close>

definition monitor_init :: "int \<Rightarrow> int \<Rightarrow> int \<Rightarrow> int \<Rightarrow> int \<Rightarrow> int \<times> kres list" where
  "monitor_init region_ret cdev_ret class_ret device_ret thread_ret =
     (if region_ret < 0 then (region_ret, [])
      else let r1 = [Chrdev_region] in
      if cdev_ret < 0 then (cdev_ret, removeAll Chrdev_region r1)
      else let r2 = Cdev # r1 in
      if class_ret < 0 then (class_ret, removeAll Chrdev_region (removeAll Cdev r2))
      else let r3 = Dev_class # r2 in
      if device_ret < 0
      then (device_ret, removeAll Chrdev_region (removeAll Cdev (removeAll Dev_class r3)))
      else let r4 = Dev_node # r3 in
      if thread_ret < 0
      then (thread_ret,
            removeAll Chrdev_region (removeAll Cdev (removeAll Dev_class (removeAll Dev_node r4))))
      else (0, Monitor_thread # r4))"

fun free_entries :: "monitor_entry list \<Rightarrow> monitor_entry list" where
  "free_entries [] = []"
| "free_entries (e # es) = free_entries es"

definition monitor_exit :: "kres list \<Rightarrow> monitor_entry list \<Rightarrow> kres list \<times> monitor_entry list" where
  "monitor_exit held es =
     (let h1 = (if Monitor_thread \<in> set held then removeAll Monitor_thread held else held);
          es' = free_entries es
      in (removeAll Chrdev_region (removeAll Cdev (removeAll Dev_class (removeAll Dev_node h1))), es'))"


section \<open>The invariant and the map it represents\<close>

definition monitor_ok :: "monitor_entry list \<Rightarrow> bool" where
  "monitor_ok es \<longleftrightarrow> distinct (map me_pid es)
     \<and> (\<forall>e \<in> set es. 0 < sint (me_pid e) \<and> hard_limit e \<noteq> 0)"

definition monitor_map :: "monitor_entry list \<Rightarrow> pid_t \<Rightarrow> (u64 \<times> u64 \<times> bool) option" where
  "monitor_map es = map_of (map (\<lambda>e. (me_pid e, soft_limit e, hard_limit e, soft_warned e)) es)"

lemma monitor_map_simps [kernel_simps]:
  "monitor_map [] = Map.empty"
  "monitor_map (e # es) =
     (monitor_map es)(me_pid e \<mapsto> (soft_limit e, hard_limit e, soft_warned e))"
  by (simp_all add: monitor_map_def)

lemma dom_monitor_map: "dom (monitor_map es) = me_pid ` set es"
  by (simp add: monitor_map_def dom_map_of_conv_image_fst image_image)

lemma monitor_map_None_iff: "monitor_map es p = None \<longleftrightarrow> p \<notin> me_pid ` set es"
  using dom_monitor_map [of es] by (metis domIff)

lemma monitor_map_append:
  "p \<notin> me_pid ` set es \<Longrightarrow> monitor_map (es @ [e]) = (monitor_map es)(me_pid e \<mapsto>
     (soft_limit e, hard_limit e, soft_warned e))" if "me_pid e = p"
  using that by (induction es) (auto simp: kernel_simps fun_upd_twist)

lemma monitor_map_eq_Some:
  "monitor_ok es \<Longrightarrow> monitor_map es p = Some (s, h, w) \<longleftrightarrow>
     (\<exists>e \<in> set es. me_pid e = p \<and> soft_limit e = s \<and> hard_limit e = h \<and> soft_warned e = w)"
  unfolding monitor_ok_def monitor_map_def by (subst map_of_eq_Some_iff) (auto simp: comp_def)

lemma monitor_map_update:
  assumes "distinct (map me_pid es)" "i < length es" "me_pid e = me_pid (es ! i)"
  shows "monitor_map (es[i := e])
    = (monitor_map es)(me_pid e \<mapsto> (soft_limit e, hard_limit e, soft_warned e))"
  using assms
proof (induction es arbitrary: i)
  case Nil
  then show ?case by simp
next
  case (Cons a es)
  show ?case
  proof (cases i)
    case 0
    with Cons.prems show ?thesis by (simp add: kernel_simps fun_eq_iff)
  next
    case (Suc j)
    with Cons.prems have "me_pid a \<noteq> me_pid e"
      by (metis distinct.simps(2) length_map list.map(2) nth_map nth_mem length_Cons Suc_less_eq
          nth_Cons_Suc)
    with Suc Cons show ?thesis by (auto simp: kernel_simps fun_eq_iff)
  qed
qed

lemma filter_other_pids: "p \<notin> me_pid ` set es \<Longrightarrow> filter (\<lambda>e. me_pid e \<noteq> p) es = es"
  by (induction es) auto

lemma remove_entry_locked_eq:
  "distinct (map me_pid es) \<Longrightarrow> remove_entry_locked es p =
     (if p \<in> me_pid ` set es then 0 else - ENOENT, filter (\<lambda>e. me_pid e \<noteq> p) es)"
proof (induction es)
  case (Cons e es)
  then have "me_pid e = p \<Longrightarrow> filter (\<lambda>e. me_pid e \<noteq> p) es = es"
    by (intro filter_other_pids) auto
  with Cons show ?case by auto
qed simp

lemma monitor_map_filter: "monitor_map (filter (\<lambda>e. me_pid e \<noteq> p) es) = (monitor_map es)(p := None)"
  by (induction es) (auto simp: kernel_simps fun_eq_iff)


section \<open>Every critical section keeps the invariant\<close>

lemma monitor_ok_Nil [simp]: "monitor_ok []"
  by (simp add: monitor_ok_def)

lemma monitor_ok_append:
  "monitor_ok es \<Longrightarrow> me_pid e \<notin> me_pid ` set es \<Longrightarrow> 0 < sint (me_pid e) \<Longrightarrow> hard_limit e \<noteq> 0 \<Longrightarrow>
     monitor_ok (es @ [e])"
  by (auto simp: monitor_ok_def)

lemma map_me_pid_update:
  "i < length es \<Longrightarrow> me_pid e = me_pid (es ! i) \<Longrightarrow> map me_pid (es[i := e]) = map me_pid es"
  by (metis list_update_id map_update)

lemma monitor_ok_update:
  assumes "monitor_ok es" "i < length es" "me_pid e = me_pid (es ! i)" "hard_limit e \<noteq> 0"
  shows "monitor_ok (es[i := e])"
  using assms map_me_pid_update [of i es e]
  by (auto simp: monitor_ok_def dest: set_update_subset_cases)

lemma find_entry_SomeD:
  assumes "find_entry_locked es p = Some i"
  shows "i < length es" "me_pid (es ! i) = p"
  using assms by (auto simp: find_entry_locked_def first_index_Some)

lemma find_entry_None_iff: "find_entry_locked es p = None \<longleftrightarrow> p \<notin> me_pid ` set es"
  by (auto simp: find_entry_locked_def first_index_None)

lemma register_effect:
  assumes ok: "monitor_ok es" and p: "0 < sint (mr_pid req)" and h: "mr_hard_limit req \<noteq> 0"
    and room: "kmalloc_ok \<or> mr_pid req \<in> me_pid ` set es"
  shows "\<exists>es' ev. monitor_ioctl kmalloc_ok (REGISTER_CONTAINER (Some req)) es = (0, es', ev)
    \<and> monitor_ok es' \<and> monitor_map es'
      = (monitor_map es)(mr_pid req \<mapsto> (mr_soft_limit req, mr_hard_limit req, False))"
proof (cases "find_entry_locked es (mr_pid req)")
  case None
  then have new: "mr_pid req \<notin> me_pid ` set es"
    by (simp add: find_entry_None_iff)
  let ?e = "\<lparr>me_pid = mr_pid req, soft_limit = mr_soft_limit req,
    hard_limit = mr_hard_limit req, soft_warned = False\<rparr>"
  have "monitor_ok (es @ [?e])"
    using ok p h new by (intro monitor_ok_append) simp_all
  moreover have "monitor_map (es @ [?e])
      = (monitor_map es)(mr_pid req \<mapsto> (mr_soft_limit req, mr_hard_limit req, False))"
    using monitor_map_append [of ?e "mr_pid req" es] new by simp
  ultimately show ?thesis
    using None p h room new by (auto simp: monitor_ioctl_def)
next
  case (Some i)
  let ?e = "(es ! i)\<lparr>soft_limit := mr_soft_limit req, hard_limit := mr_hard_limit req,
    soft_warned := False\<rparr>"
  note i = find_entry_SomeD [OF Some]
  have "monitor_ok (es[i := ?e])"
    using ok i h by (intro monitor_ok_update) simp_all
  moreover have "monitor_map (es[i := ?e])
      = (monitor_map es)(mr_pid req \<mapsto> (mr_soft_limit req, mr_hard_limit req, False))"
    using monitor_map_update [of es i ?e] ok i by (simp add: monitor_ok_def)
  ultimately show ?thesis
    using Some p h by (auto simp: monitor_ioctl_def)
qed

lemma unregister_effect:
  assumes "monitor_ok es"
  shows "\<exists>es' ev. monitor_ioctl kmalloc_ok (UNREGISTER_CONTAINER (Some p)) es
      = (if p \<in> dom (monitor_map es) then 0 else - ENOENT, es', ev)
    \<and> monitor_ok es' \<and> monitor_map es' = (monitor_map es)(p := None)"
  using assms
  by (auto simp: monitor_ioctl_def remove_entry_locked_eq monitor_ok_def monitor_map_filter
      dom_monitor_map errno_defs distinct_map_filter)

lemma monitor_ioctl_error:
  assumes "monitor_ioctl kmalloc_ok cmd es = (ret, es', ev)" "ret \<noteq> 0" "monitor_ok es"
  shows "es' = es" "ev = []" "ret < 0"
  using assms
  by (auto simp: monitor_ioctl_def remove_entry_locked_eq monitor_ok_def filter_other_pids errno_defs
      split: monitor_cmd.splits option.splits if_splits prod.splits)

lemma register_0D:
  assumes "monitor_ioctl kmalloc_ok (REGISTER_CONTAINER r) es = (0, es', ev)"
  obtains req where "r = Some req" "0 < sint (mr_pid req)" "mr_hard_limit req \<noteq> 0"
    "kmalloc_ok \<or> mr_pid req \<in> me_pid ` set es"
proof (cases r)
  case None
  with assms show ?thesis by (simp add: monitor_ioctl_def errno_defs)
next
  case (Some req)
  with assms have "0 < sint (mr_pid req)" "mr_hard_limit req \<noteq> 0"
    "kmalloc_ok \<or> find_entry_locked es (mr_pid req) \<noteq> None"
    by (auto simp: monitor_ioctl_def errno_defs split: if_splits option.splits)
  with Some that show ?thesis
    by (simp add: find_entry_None_iff)
qed

lemma monitor_ioctl_ok:
  assumes "monitor_ok es"
  shows "monitor_ok (fst (snd (monitor_ioctl kmalloc_ok cmd es)))"
proof (cases "monitor_ioctl kmalloc_ok cmd es")
  case (fields ret es' ev)
  show ?thesis
  proof (cases "ret = 0")
    case False
    with fields assms monitor_ioctl_error(1) [OF fields False assms] show ?thesis by simp
  next
    case True
    show ?thesis
    proof (cases cmd)
      case (REGISTER_CONTAINER r)
      with True fields obtain req where r: "r = Some req" "0 < sint (mr_pid req)"
          "mr_hard_limit req \<noteq> 0" "kmalloc_ok \<or> mr_pid req \<in> me_pid ` set es"
        using register_0D by blast
      then show ?thesis
        using register_effect [OF assms r(2,3,4)] REGISTER_CONTAINER by auto
    next
      case (UNREGISTER_CONTAINER q)
      then show ?thesis
        using assms unregister_effect [OF assms]
        by (cases q) (auto simp: monitor_ioctl_def, metis fst_conv snd_conv)
    qed (use assms in \<open>simp add: monitor_ioctl_def\<close>)
  qed
qed

lemma monitor_visit_keeps:
  assumes "monitor_visit views e = (Some e', ev)"
  shows "me_pid e' = me_pid e" "hard_limit e' = hard_limit e" "soft_limit e' = soft_limit e"
    "soft_warned e \<Longrightarrow> soft_warned e'"
  using assms by (auto simp: monitor_visit_def Let_def split: prod.splits if_splits)

lemma fst_monitor_pass [kernel_simps]:
  "fst (monitor_pass views []) = []"
  "fst (monitor_pass views (e # es)) =
     (case fst (monitor_visit (views (me_pid e)) e) of
        None \<Rightarrow> fst (monitor_pass views es) | Some e' \<Rightarrow> e' # fst (monitor_pass views es))"
  by (simp_all add: case_prod_beta)

lemma snd_monitor_pass [kernel_simps]:
  "snd (monitor_pass views []) = []"
  "snd (monitor_pass views (e # es)) =
     snd (monitor_visit (views (me_pid e)) e) @ snd (monitor_pass views es)"
  by (simp_all split: prod.splits)

declare monitor_pass.simps [simp del]

lemma fst_monitor_visitD:
  assumes "fst (monitor_visit views e) = Some e'"
  shows "me_pid e' = me_pid e" "hard_limit e' = hard_limit e" "soft_limit e' = soft_limit e"
    "soft_warned e \<Longrightarrow> soft_warned e'"
  using monitor_visit_keeps [of views e e' "snd (monitor_visit views e)"] assms
  by (metis prod.collapse)+

lemma monitor_pass_pids: "me_pid ` set (fst (monitor_pass views es)) \<subseteq> me_pid ` set es"
proof (induction es)
  case (Cons e es)
  show ?case
  proof (cases "fst (monitor_visit (views (me_pid e)) e)")
    case None
    with Cons show ?thesis by (auto simp: kernel_simps)
  next
    case (Some e')
    with Cons fst_monitor_visitD(1) [OF Some] show ?thesis by (auto simp: kernel_simps)
  qed
qed (simp add: kernel_simps)

lemma monitor_pass_ok: "monitor_ok es \<Longrightarrow> monitor_ok (fst (monitor_pass views es))"
proof (induction es)
  case Nil
  then show ?case by (simp add: kernel_simps)
next
  case (Cons e es)
  have "monitor_ok es"
    using Cons.prems by (simp add: monitor_ok_def)
  then have es: "monitor_ok (fst (monitor_pass views es))"
    by (rule Cons.IH)
  show ?case
  proof (cases "fst (monitor_visit (views (me_pid e)) e)")
    case None
    with es show ?thesis by (simp add: kernel_simps)
  next
    case (Some e')
    note e' = fst_monitor_visitD(1,2) [OF Some]
    have "me_pid e \<notin> me_pid ` set (fst (monitor_pass views es))"
      using Cons.prems monitor_pass_pids [of views es] by (auto simp: monitor_ok_def)
    then have "monitor_ok (e' # fst (monitor_pass views es))"
      using es Cons.prems e' by (simp add: monitor_ok_def)
    with Some show ?thesis
      by (simp add: kernel_simps)
  qed
qed

lemma fst_monitor_run [kernel_simps]:
  "fst (monitor_run [] es) = es"
  "fst (monitor_run (x # xs) es) = fst (monitor_run xs (fst (monitor_do x es)))"
  by (simp_all split: prod.splits)

lemma snd_monitor_run [kernel_simps]:
  "snd (monitor_run [] es) = []"
  "snd (monitor_run (x # xs) es) =
     snd (monitor_do x es) @ snd (monitor_run xs (fst (monitor_do x es)))"
  by (simp_all split: prod.splits)

declare monitor_run.simps [simp del]

lemma monitor_do_ok: "monitor_ok es \<Longrightarrow> monitor_ok (fst (monitor_do x es))"
  by (cases x) (simp_all add: monitor_ioctl_ok monitor_pass_ok)

lemma monitor_run_ok: "monitor_ok es \<Longrightarrow> monitor_ok (fst (monitor_run xs es))"
  by (induction xs arbitrary: es) (simp_all add: kernel_simps monitor_do_ok)


section \<open>A pass treats every entry on its own\<close>

fun event_pid :: "kevent \<Rightarrow> pid_t" where
  "event_pid (K_updated p s h) = p"
| "event_pid (K_registered p s h) = p"
| "event_pid (K_unregistered p) = p"
| "event_pid (K_stale p) = p"
| "event_pid (K_rss_failed p) = p"
| "event_pid (K_soft p r s) = p"
| "event_pid (K_hard p r h) = p"
| "event_pid (K_sigkill p) = p"

definition events_of :: "pid_t \<Rightarrow> kevent list \<Rightarrow> kevent list" where
  "events_of p evs = filter (\<lambda>ev. event_pid ev = p) evs"

definition entry_triple :: "monitor_entry \<Rightarrow> u64 \<times> u64 \<times> bool" where
  "entry_triple e = (soft_limit e, hard_limit e, soft_warned e)"

lemma events_of_append [simp]: "events_of p (xs @ ys) = events_of p xs @ events_of p ys"
  by (simp add: events_of_def)

lemma event_pid_kill: "ev \<in> set (snd (kill_process_by_pid v r p)) \<Longrightarrow> event_pid ev = p"
  by (cases v) auto

lemma event_pid_visit:
  assumes "ev \<in> set (snd (monitor_visit views e))"
  shows "event_pid ev = me_pid e"
  using assms event_pid_kill
  by (auto simp: monitor_visit_def Let_def split: prod.splits if_splits)

lemma events_of_visit:
  "events_of p (snd (monitor_visit views e)) =
     (if me_pid e = p then snd (monitor_visit views e) else [])"
  using event_pid_visit [of _ views e]
  by (auto simp: events_of_def filter_True filter_empty_conv)

lemma monitor_pass_other:
  assumes "p \<notin> me_pid ` set es"
  shows "monitor_map (fst (monitor_pass views es)) p = None"
    and "events_of p (snd (monitor_pass views es)) = []"
proof -
  show "monitor_map (fst (monitor_pass views es)) p = None"
    using assms monitor_pass_pids [of views es] by (auto simp: monitor_map_None_iff)
  show "events_of p (snd (monitor_pass views es)) = []"
    using assms
    by (induction es) (auto simp: kernel_simps events_of_visit, simp add: events_of_def)
qed

lemma monitor_pass_entry:
  assumes "monitor_ok es" "e \<in> set es"
  shows "monitor_map (fst (monitor_pass views es)) (me_pid e)
      = map_option entry_triple (fst (monitor_visit (views (me_pid e)) e))"
    and "events_of (me_pid e) (snd (monitor_pass views es))
      = snd (monitor_visit (views (me_pid e)) e)"
proof -
  have "monitor_map (fst (monitor_pass views es)) (me_pid e)
        = map_option entry_triple (fst (monitor_visit (views (me_pid e)) e))
      \<and> events_of (me_pid e) (snd (monitor_pass views es))
        = snd (monitor_visit (views (me_pid e)) e)"
    using assms
  proof (induction es)
    case Nil
    then show ?case by simp
  next
    case (Cons a es)
    have es: "monitor_ok es"
      using Cons.prems by (simp add: monitor_ok_def)
    show ?case
    proof (cases "e = a")
      case True
      then have "me_pid a \<notin> me_pid ` set es"
        using Cons.prems by (simp add: monitor_ok_def)
      note other = monitor_pass_other [OF this, of views]
      show ?thesis
      proof (cases "fst (monitor_visit (views (me_pid a)) a)")
        case None
        with True other show ?thesis by (simp add: kernel_simps events_of_visit)
      next
        case (Some a')
        with True other fst_monitor_visitD(1) [OF Some] show ?thesis
          by (simp add: kernel_simps events_of_visit entry_triple_def)
      qed
    next
      case False
      then have e: "e \<in> set es" "me_pid a \<noteq> me_pid e"
        using Cons.prems by (auto simp: monitor_ok_def)
      note IH = Cons.IH [OF es e(1)]
      show ?thesis
      proof (cases "fst (monitor_visit (views (me_pid a)) a)")
        case None
        with e IH show ?thesis by (simp add: kernel_simps events_of_visit)
      next
        case (Some a')
        with e IH fst_monitor_visitD(1) [OF Some] show ?thesis
          by (simp add: kernel_simps events_of_visit)
      qed
    qed
  qed
  then show "monitor_map (fst (monitor_pass views es)) (me_pid e)
      = map_option entry_triple (fst (monitor_visit (views (me_pid e)) e))"
    "events_of (me_pid e) (snd (monitor_pass views es))
      = snd (monitor_visit (views (me_pid e)) e)"
    by simp_all
qed


section \<open>The contract of the registry\<close>

text \<open>
  What the supervisor relies on when it registers and unregisters a container: the module
  behaves as a finite map from pids to limits. The locale proves once that any sequence of
  calls has the effect of the corresponding map updates.
\<close>

datatype registry_op = Reg pid_t u64 u64 | Unreg pid_t

fun registry_run ::
  "(pid_t \<Rightarrow> u64 \<Rightarrow> u64 \<Rightarrow> 'm \<Rightarrow> int \<times> 'm) \<Rightarrow> (pid_t \<Rightarrow> 'm \<Rightarrow> int \<times> 'm) \<Rightarrow> registry_op list
   \<Rightarrow> 'm \<Rightarrow> int list \<times> 'm" where
  "registry_run reg unreg [] m = ([], m)"
| "registry_run reg unreg (Reg p s h # xs) m =
     (case reg p s h m of (r, m') \<Rightarrow>
        (case registry_run reg unreg xs m' of (rs, m'') \<Rightarrow> (r # rs, m'')))"
| "registry_run reg unreg (Unreg p # xs) m =
     (case unreg p m of (r, m') \<Rightarrow>
        (case registry_run reg unreg xs m' of (rs, m'') \<Rightarrow> (r # rs, m'')))"

fun registry_spec ::
  "registry_op list \<Rightarrow> (pid_t \<Rightarrow> (u64 \<times> u64 \<times> bool) option) \<Rightarrow>
     bool list \<times> (pid_t \<Rightarrow> (u64 \<times> u64 \<times> bool) option)" where
  "registry_spec [] f = ([], f)"
| "registry_spec (Reg p s h # xs) f =
     (if 0 < sint p \<and> h \<noteq> 0
      then (case registry_spec xs (f(p \<mapsto> (s, h, False))) of (oks, g) \<Rightarrow> (True # oks, g))
      else (case registry_spec xs f of (oks, g) \<Rightarrow> (False # oks, g)))"
| "registry_spec (Unreg p # xs) f =
     (case registry_spec xs (f(p := None)) of (oks, g) \<Rightarrow> ((p \<in> dom f) # oks, g))"

locale limit_registry =
  fixes reg :: "pid_t \<Rightarrow> u64 \<Rightarrow> u64 \<Rightarrow> 'm \<Rightarrow> int \<times> 'm"
    and unreg :: "pid_t \<Rightarrow> 'm \<Rightarrow> int \<times> 'm"
    and limits :: "'m \<Rightarrow> pid_t \<Rightarrow> (u64 \<times> u64 \<times> bool) option"
    and invar :: "'m \<Rightarrow> bool"
  assumes reg_valid: "invar m \<Longrightarrow> 0 < sint p \<Longrightarrow> h \<noteq> 0 \<Longrightarrow>
      \<exists>m'. reg p s h m = (0, m') \<and> invar m' \<and> limits m' = (limits m)(p \<mapsto> (s, h, False))"
    and reg_invalid: "invar m \<Longrightarrow> \<not> (0 < sint p \<and> h \<noteq> 0) \<Longrightarrow> \<exists>r < 0. reg p s h m = (r, m)"
    and unreg_known: "invar m \<Longrightarrow> p \<in> dom (limits m) \<Longrightarrow>
      \<exists>m'. unreg p m = (0, m') \<and> invar m' \<and> limits m' = (limits m)(p := None)"
    and unreg_unknown: "invar m \<Longrightarrow> p \<notin> dom (limits m) \<Longrightarrow> \<exists>r < 0. unreg p m = (r, m)"
begin

lemma unreg_map:
  assumes "invar m"
  shows "\<exists>r m'. unreg p m = (r, m') \<and> invar m' \<and> limits m' = (limits m)(p := None)
    \<and> (r = 0) = (p \<in> dom (limits m))"
proof (cases "p \<in> dom (limits m)")
  case True
  with unreg_known [OF assms True] show ?thesis by auto
next
  case False
  then have "limits m = (limits m)(p := None)"
    by (simp add: domIff fun_upd_idem)
  with unreg_unknown [OF assms False] assms False show ?thesis by fastforce
qed

lemma run_refines:
  assumes "invar m"
  shows "(case registry_run reg unreg xs m of (rs, m') \<Rightarrow>
     (map (\<lambda>r. r = 0) rs, limits m') = registry_spec xs (limits m) \<and> invar m')"
  using assms
proof (induction xs arbitrary: m)
  case Nil
  then show ?case by simp
next
  case (Cons x xs)
  show ?case
  proof (cases x)
    case (Reg p s h)
    show ?thesis
    proof (cases "0 < sint p \<and> h \<noteq> 0")
      case True
      then obtain m' where "reg p s h m = (0, m')" "invar m'"
          "limits m' = (limits m)(p \<mapsto> (s, h, False))"
        using reg_valid [OF Cons.prems] by blast
      with Reg True Cons.IH [of m'] show ?thesis
        by (simp add: case_prod_beta prod_eq_iff fun_upd_def)
    next
      case False
      then obtain r where "r < 0" "reg p s h m = (r, m)"
        using reg_invalid [OF Cons.prems] by blast
      with Reg False Cons.IH [OF Cons.prems] show ?thesis
        by (auto simp add: case_prod_beta prod_eq_iff)
    qed
  next
    case (Unreg p)
    obtain r m' where "unreg p m = (r, m')" "invar m'" "limits m' = (limits m)(p := None)"
        "(r = 0) = (p \<in> dom (limits m))"
      using unreg_map [OF Cons.prems] by blast
    with Unreg Cons.IH [of m'] show ?thesis
      by (simp add: case_prod_beta prod_eq_iff fun_upd_def)
  qed
qed

lemma reg_then_unreg:
  assumes "invar m" "0 < sint p" "h \<noteq> 0" "p \<notin> dom (limits m)"
  shows "case registry_run reg unreg [Reg p s h, Unreg p] m of (rs, m') \<Rightarrow>
    rs = [0, 0] \<and> limits m' = limits m"
proof -
  obtain m1 where m1: "reg p s h m = (0, m1)" "invar m1" "limits m1 = (limits m)(p \<mapsto> (s, h, False))"
    using reg_valid [OF assms(1,2,3)] by blast
  then obtain m2 where "unreg p m1 = (0, m2)" "limits m2 = (limits m1)(p := None)"
    using unreg_known [of m1 p] by auto
  moreover have "(limits m)(p := None) = limits m"
    using assms(4) by (simp add: domIff fun_upd_idem)
  ultimately show ?thesis
    using m1 by simp
qed

end

definition mon_register :: "pid_t \<Rightarrow> u64 \<Rightarrow> u64 \<Rightarrow> monitor_entry list \<Rightarrow> int \<times> monitor_entry list" where
  "mon_register p s h es =
     (case monitor_ioctl True (REGISTER_CONTAINER
         (Some \<lparr>mr_pid = p, mr_soft_limit = s, mr_hard_limit = h\<rparr>)) es of (r, es', ev) \<Rightarrow> (r, es'))"

definition mon_unregister :: "pid_t \<Rightarrow> monitor_entry list \<Rightarrow> int \<times> monitor_entry list" where
  "mon_unregister p es =
     (case monitor_ioctl True (UNREGISTER_CONTAINER (Some p)) es of (r, es', ev) \<Rightarrow> (r, es'))"

interpretation kmon: limit_registry mon_register mon_unregister monitor_map monitor_ok
proof (unfold_locales, goal_cases)
  case (1 m p h s)
  then show ?case
    using register_effect [of m "\<lparr>mr_pid = p, mr_soft_limit = s, mr_hard_limit = h\<rparr>" True]
    by (auto simp: mon_register_def)
next
  case (2 m p h s)
  then show ?case
    by (auto simp: mon_register_def monitor_ioctl_def errno_defs)
next
  case (3 m p)
  then show ?case
    using unregister_effect [of m True p] by (auto simp: mon_unregister_def)
next
  case (4 m p)
  then have "p \<notin> me_pid ` set m"
    by (simp add: dom_monitor_map)
  with 4 show ?case
    by (auto simp: mon_unregister_def monitor_ioctl_def monitor_ok_def remove_entry_locked_eq
        filter_other_pids errno_defs)
qed


section \<open>Properties of the module\<close>

text \<open>
  Claim C16. Whatever sequence of ioctl calls and monitor passes the loaded module performs, its
  list never holds two entries for one process, never an entry whose pid is not positive, and
  never an entry with a hard limit of zero.
\<close>

theorem monitor_list_invariant: "monitor_ok (fst (monitor_run xs []))"
  by (rule monitor_run_ok) simp

text \<open>
  Claim C17. The module implements a map from pids to limits: after any sequence of register and
  unregister calls on the empty list (with memory available), the calls that returned 0 and
  the limits now in force are the ones the abstract map gives. Registering again replaces the
  limits and re-arms the warning; a bad pid or a zero hard limit is refused without effect.
\<close>

theorem monitor_registry_refinement:
  "case registry_run mon_register mon_unregister xs [] of (rs, es) \<Rightarrow>
     (map (\<lambda>r. r = 0) rs, monitor_map es) = registry_spec xs Map.empty"
  using kmon.run_refines [of "[]" xs] by (simp add: kernel_simps case_prod_beta)

text \<open>
  Claim C21. A failing ioctl returns a negative error code, leaves the list as it was and logs
  nothing.
\<close>

theorem monitor_ioctl_error_atomic:
  assumes "monitor_ioctl kmalloc_ok cmd es = (ret, es', ev)" "ret \<noteq> 0" "monitor_ok es"
  shows "es' = es \<and> ev = [] \<and> ret < 0"
  using monitor_ioctl_error [OF assms] by simp

theorem monitor_ioctl_error_atomic_witness:
  "monitor_ioctl True (UNREGISTER_CONTAINER (Some 7)) [] = (- ENOENT, [], [])
     \<and> [] = ([] :: monitor_entry list) \<and> [] = ([] :: kevent list) \<and> - ENOENT < 0"
proof -
  have run: "monitor_ioctl True (UNREGISTER_CONTAINER (Some 7)) [] = (- ENOENT, [], [])"
    by (simp add: monitor_ioctl_def errno_defs)
  show ?thesis
    using run monitor_ioctl_error_atomic [OF run] by (simp add: errno_defs)
qed

definition rss_mib :: "u64 \<Rightarrow> u64" where
  "rss_mib pages = pages * PAGE_SIZE div (1024 * 1024)"

lemma uint_rss_mib:
  assumes "uint pages < 2 ^ 52"
  shows "uint (rss_mib pages) = uint pages * 4096 div 2 ^ 20"
proof -
  have "uint (pages * PAGE_SIZE) = uint pages * 4096"
    using assms by (simp add: PAGE_SIZE_def uint_word_ariths)
  then show ?thesis
    by (simp add: rss_mib_def uint_div_distrib)
qed

lemma kill_visit_iff:
  "K_sigkill p \<in> set (snd (monitor_visit (v1, v2, v3) e)) \<longleftrightarrow>
     p = me_pid e \<and> process_exists v1 \<noteq> 0 \<and> v3 \<noteq> No_pid
     \<and> (\<exists>pages. v2 = Mm_rss pages \<and> hard_limit e < rss_mib pages)"
  by (cases v2; cases v3) (auto simp: monitor_visit_def Let_def errno_defs rss_mib_def)

lemma kill_pass_iff:
  assumes "monitor_ok es"
  shows "K_sigkill p \<in> set (snd (monitor_pass views es)) \<longleftrightarrow>
    (\<exists>e \<in> set es. me_pid e = p \<and> K_sigkill p \<in> set (snd (monitor_visit (views p) e)))"
proof -
  have mem: "K_sigkill p \<in> set evs \<longleftrightarrow> K_sigkill p \<in> set (events_of p evs)" for evs
    by (simp add: events_of_def)
  show ?thesis
  proof (cases "p \<in> me_pid ` set es")
    case True
    then obtain e where e: "e \<in> set es" "p = me_pid e"
      by blast
    have "me_pid e' = p \<Longrightarrow> e' \<in> set es \<Longrightarrow> e' = e" for e'
      using assms e by (auto simp: monitor_ok_def distinct_map inj_on_def)
    moreover have "K_sigkill p \<in> set (snd (monitor_pass views es))
        \<longleftrightarrow> K_sigkill p \<in> set (snd (monitor_visit (views p) e))"
      using monitor_pass_entry(2) [OF assms e(1), of views] mem [of "snd (monitor_pass views es)"] e(2)
      by simp
    ultimately show ?thesis
      using e by blast
  next
    case False
    then show ?thesis
      using monitor_pass_other(2) [OF False, of views] mem [of "snd (monitor_pass views es)"]
      by auto
  qed
qed

text \<open>
  Claim C18. Hard limits are enforced exactly. A pass of the monitor thread sends SIGKILL to a
  process if and only if it is registered, it exists at the first lookup, its resident memory
  at the second has reached one MiB more than the hard limit (the RSS in bytes is rounded down
  to MiB before the comparison), and its pid is still there at the third. The page count is
  below two to the power 52, so that the byte count does not wrap.
\<close>

theorem hard_limit_enforced:
  assumes "monitor_ok es" "\<And>n. fst (snd (views p)) = Mm_rss n \<Longrightarrow> uint n < 2 ^ 52"
  shows "K_sigkill p \<in> set (snd (monitor_pass views es)) \<longleftrightarrow>
    (\<exists>e \<in> set es. me_pid e = p \<and> process_exists (fst (views p)) \<noteq> 0
       \<and> (\<exists>n. fst (snd (views p)) = Mm_rss n \<and> (uint (hard_limit e) + 1) * 2 ^ 20 \<le> uint n * 4096)
       \<and> snd (snd (views p)) \<noteq> No_pid)"
proof -
  obtain v1 v2 v3 where v: "views p = (v1, v2, v3)"
    by (cases "views p")
  have "hard_limit e < rss_mib n \<longleftrightarrow> (uint (hard_limit e) + 1) * 2 ^ 20 \<le> uint n * 4096"
    if "v2 = Mm_rss n" for e n
    unfolding word_less_def using that v assms(2)
    by (subst uint_rss_mib) (auto intro: less_div_iff_int)
  then show ?thesis
    unfolding kill_pass_iff [OF assms(1)] v kill_visit_iff by auto
qed

definition example_entry :: monitor_entry where
  "example_entry = \<lparr>me_pid = 7, soft_limit = 40, hard_limit = 64, soft_warned = False\<rparr>"

definition example_views :: "u64 \<Rightarrow> pid_t \<Rightarrow> kview \<times> kview \<times> kview" where
  "example_views n p = (Mm_rss n, Mm_rss n, Mm_rss n)"

lemma example_entry_ok: "monitor_ok [example_entry]"
  by (simp add: monitor_ok_def example_entry_def)

theorem hard_limit_enforced_witness:
  "K_sigkill 7 \<in> set (snd (monitor_pass (example_views 16640) [example_entry]))"
proof -
  have b: "\<And>n. fst (snd (example_views 16640 7)) = Mm_rss n \<Longrightarrow> uint n < 2 ^ 52"
    by (auto simp: example_views_def)
  show ?thesis
    using hard_limit_enforced [of _ "example_views 16640" 7, OF example_entry_ok b]
    by (simp add: example_entry_def example_views_def)
qed

fun is_soft_warning :: "pid_t \<Rightarrow> kevent \<Rightarrow> bool" where
  "is_soft_warning p (K_soft q r s) = (p = q)"
| "is_soft_warning p _ = False"

fun registers :: "pid_t \<Rightarrow> monitor_op \<Rightarrow> bool" where
  "registers p (Ioctl k (REGISTER_CONTAINER (Some r))) = (mr_pid r = p)"
| "registers p _ = False"

definition soft_count :: "pid_t \<Rightarrow> kevent list \<Rightarrow> nat" where
  "soft_count p evs = length (filter (is_soft_warning p) evs)"

text \<open>The number of warnings a registered process may still cause.\<close>

definition unwarned :: "pid_t \<Rightarrow> monitor_entry list \<Rightarrow> nat" where
  "unwarned p es = (case monitor_map es p of Some (s, h, w) \<Rightarrow> if w then 0 else 1 | None \<Rightarrow> 0)"

lemma soft_count_simps [simp]:
  "soft_count p [] = 0"
  "soft_count p (ev # evs) = (if is_soft_warning p ev then 1 else 0) + soft_count p evs"
  by (simp_all add: soft_count_def)

lemma soft_count_append [simp]: "soft_count p (xs @ ys) = soft_count p xs + soft_count p ys"
  by (simp add: soft_count_def)

lemma soft_count_events_of: "soft_count p evs = soft_count p (events_of p evs)"
proof -
  have "is_soft_warning p ev \<Longrightarrow> event_pid ev = p" for ev
    by (cases ev) auto
  then show ?thesis
    unfolding soft_count_def events_of_def by (metis (mono_tags, lifting) filter_cong filter_filter)
qed

lemma soft_count_kill [simp]: "soft_count p (snd (kill_process_by_pid v r q)) = 0"
  by (cases v) (simp_all add: soft_count_def)

lemma visit_warns:
  "soft_count (me_pid e) (snd (monitor_visit views e))
     + (case fst (monitor_visit views e) of Some e' \<Rightarrow> if soft_warned e' then 0 else 1 | None \<Rightarrow> 0)
   \<le> (if soft_warned e then 0 else 1)"
proof (cases views)
  case (fields v1 v2 v3)
  then show ?thesis
    by (cases v2) (auto simp: monitor_visit_def Let_def errno_defs)
qed

lemma pass_warns:
  assumes "monitor_ok es"
  shows "soft_count p (snd (monitor_pass views es)) + unwarned p (fst (monitor_pass views es))
    \<le> unwarned p es"
proof (cases "p \<in> me_pid ` set es")
  case False
  then show ?thesis
    using monitor_pass_other [OF False, of views]
    by (simp add: soft_count_events_of [of p "snd (monitor_pass views es)"] unwarned_def)
next
  case True
  then obtain e where e: "e \<in> set es" "p = me_pid e"
    by blast
  have m: "monitor_map es p = Some (entry_triple e)"
    using e monitor_map_eq_Some [OF assms] by (auto simp: entry_triple_def)
  show ?thesis
    using monitor_pass_entry [OF assms e(1), of views] visit_warns [of e "views p"] e(2) m
    by (subst soft_count_events_of) (auto simp: unwarned_def entry_triple_def split: option.splits)
qed


lemma ioctl_warns:
  assumes "monitor_ok es" "\<not> registers p (Ioctl k cmd)"
  shows "soft_count p (snd (monitor_do (Ioctl k cmd) es))
    + unwarned p (fst (monitor_do (Ioctl k cmd) es)) \<le> unwarned p es"
proof (cases "fst (monitor_ioctl k cmd es) = 0")
  case False
  obtain ret es' ev where run: "monitor_ioctl k cmd es = (ret, es', ev)"
    by (cases "monitor_ioctl k cmd es")
  with False monitor_ioctl_error(1,2) [OF run _ assms(1)] show ?thesis
    by simp
next
  case True
  show ?thesis
  proof (cases cmd)
    case (REGISTER_CONTAINER r)
    with True obtain req where r: "r = Some req" "0 < sint (mr_pid req)" "mr_hard_limit req \<noteq> 0"
        "k \<or> mr_pid req \<in> me_pid ` set es"
      using register_0D by (metis prod.collapse)
    obtain es' ev where run: "monitor_ioctl k cmd es = (0, es', ev)" "monitor_map es'
        = (monitor_map es)(mr_pid req \<mapsto> (mr_soft_limit req, mr_hard_limit req, False))"
      using register_effect [OF assms(1) r(2,3,4)] REGISTER_CONTAINER r(1) by blast
    moreover have "soft_count p ev = 0"
      using run REGISTER_CONTAINER r(1)
      by (auto simp: monitor_ioctl_def split: if_splits option.splits)
    ultimately show ?thesis
      using assms(2) REGISTER_CONTAINER r(1) by (simp add: unwarned_def)
  next
    case (UNREGISTER_CONTAINER q)
    with True obtain x where q: "q = Some x"
      by (cases q) (simp_all add: monitor_ioctl_def errno_defs)
    obtain r es' ev where run: "monitor_ioctl k cmd es = (r, es', ev)"
        "monitor_map es' = (monitor_map es)(x := None)"
      using unregister_effect [OF assms(1), of k x] UNREGISTER_CONTAINER q by auto
    moreover have "soft_count p ev = 0"
      using run UNREGISTER_CONTAINER q
      by (auto simp: monitor_ioctl_def split: if_splits prod.splits)
    ultimately show ?thesis
      by (simp add: unwarned_def)
  qed (use True in \<open>simp add: monitor_ioctl_def errno_defs\<close>)
qed

lemma run_warns:
  assumes "monitor_ok es" "\<forall>x \<in> set xs. \<not> registers p x"
  shows "soft_count p (snd (monitor_run xs es)) \<le> unwarned p es"
  using assms
proof (induction xs arbitrary: es)
  case Nil
  then show ?case by (simp add: kernel_simps)
next
  case (Cons x xs)
  have "soft_count p (snd (monitor_do x es)) + unwarned p (fst (monitor_do x es)) \<le> unwarned p es"
    using Cons.prems ioctl_warns [of es p] pass_warns [of es p] by (cases x) auto
  moreover have "soft_count p (snd (monitor_run xs (fst (monitor_do x es))))
      \<le> unwarned p (fst (monitor_do x es))"
    using Cons monitor_do_ok by simp
  ultimately show ?case
    by (simp add: kernel_simps)
qed

text \<open>
  Claim C19. The soft limit is advisory and warns once: however many passes and other ioctl calls
  follow, a process that is not registered again causes at most one soft-limit warning, and
  none at all if it was warned about before.
\<close>

theorem soft_warning_at_most_once:
  assumes "monitor_ok es" "\<forall>x \<in> set xs. \<not> registers p x"
  shows "soft_count p (snd (monitor_run xs es)) \<le>
    (case monitor_map es p of Some (s, h, warned) \<Rightarrow> if warned then 0 else 1 | None \<Rightarrow> 0)"
  using run_warns [OF assms] by (simp add: unwarned_def)

theorem soft_warning_at_most_once_witness:
  "soft_count 7 (snd (monitor_run [Pass (example_views 12000), Pass (example_views 13000)]
     [example_entry])) \<le> 1
   \<and> soft_count 7 (snd (monitor_run [Pass (example_views 12000)] [example_entry])) = 1"
proof -
  have "soft_count 7 (snd (monitor_run [Pass (example_views 12000), Pass (example_views 13000)]
     [example_entry])) \<le> (case monitor_map [example_entry] 7 of
       Some (s, h, warned) \<Rightarrow> if warned then 0 else 1 | None \<Rightarrow> 0)"
    by (rule soft_warning_at_most_once [OF example_entry_ok]) simp
  moreover have "soft_count 7 (snd (monitor_run [Pass (example_views 12000)] [example_entry])) = 1"
    by (simp add: kernel_simps monitor_visit_def example_views_def example_entry_def PAGE_SIZE_def)
  ultimately show ?thesis
    by (simp add: kernel_simps example_entry_def)
qed

text \<open>
  Claim C20. A warning is given on the first crossing: a pass that finds a registered process,
  not warned about so far, with more whole MiB resident than its soft limit warns about it
  and keeps the entry, now marked as warned; no signal is sent unless the hard limit is
  crossed as well.
\<close>

theorem soft_limit_first_crossing:
  assumes "monitor_ok es" "e \<in> set es" "views (me_pid e) = (Mm_rss a, Mm_rss n, v3)"
    "\<not> soft_warned e" "soft_limit e < n * PAGE_SIZE div (1024 * 1024)"
  shows "K_soft (me_pid e) (n * PAGE_SIZE div (1024 * 1024)) (soft_limit e)
      \<in> set (snd (monitor_pass views es))
    \<and> monitor_map (fst (monitor_pass views es)) (me_pid e) = Some (soft_limit e, hard_limit e, True)
    \<and> (n * PAGE_SIZE div (1024 * 1024) \<le> hard_limit e \<longrightarrow>
         K_sigkill (me_pid e) \<notin> set (snd (monitor_pass views es)))"
proof -
  let ?r = "n * PAGE_SIZE div (1024 * 1024)"
  have visit: "K_soft (me_pid e) ?r (soft_limit e) \<in> set (snd (monitor_visit (views (me_pid e)) e))"
    "fst (monitor_visit (views (me_pid e)) e) = Some (e\<lparr>soft_warned := True\<rparr>)"
    using assms(3-5) by (simp_all add: monitor_visit_def Let_def)
  have evs: "events_of (me_pid e) (snd (monitor_pass views es))
      = snd (monitor_visit (views (me_pid e)) e)"
    by (rule monitor_pass_entry(2) [OF assms(1,2)])
  have "K_soft (me_pid e) ?r (soft_limit e) \<in> set (snd (monitor_pass views es))"
    using visit(1) unfolding evs [symmetric] by (simp add: events_of_def)
  moreover have "monitor_map (fst (monitor_pass views es)) (me_pid e)
      = Some (soft_limit e, hard_limit e, True)"
    unfolding monitor_pass_entry(1) [OF assms(1,2)] visit(2) by (simp add: entry_triple_def)
  moreover have "K_sigkill (me_pid e) \<notin> set (snd (monitor_pass views es))" if "?r \<le> hard_limit e"
  proof
    assume "K_sigkill (me_pid e) \<in> set (snd (monitor_pass views es))"
    then have "K_sigkill (me_pid e) \<in> set (snd (monitor_visit (views (me_pid e)) e))"
      unfolding evs [symmetric] by (simp add: events_of_def)
    with that assms(3) show False
      by (auto simp: kill_visit_iff rss_mib_def dest: leD)
  qed
  ultimately show ?thesis
    by blast
qed

theorem soft_limit_first_crossing_witness:
  "K_soft 7 46 40 \<in> set (snd (monitor_pass (example_views 12000) [example_entry]))
   \<and> monitor_map (fst (monitor_pass (example_views 12000) [example_entry])) 7 = Some (40, 64, True)
   \<and> K_sigkill 7 \<notin> set (snd (monitor_pass (example_views 12000) [example_entry]))"
  using soft_limit_first_crossing [OF example_entry_ok, of example_entry "example_views 12000"
      12000 12000 "Mm_rss 12000"]
  by (simp add: example_views_def example_entry_def PAGE_SIZE_def)

text \<open>
  Claim C22. Loading unwinds completely: a failed \<^verbatim>\<open>monitor_init\<close> returns a negative code and holds
  no kernel resource, a successful one holds all five, and \<^verbatim>\<open>monitor_exit\<close> then releases all of
  them and frees every entry of the list.
\<close>

theorem module_load_unload:
  "case monitor_init a b c d t of (ret, held) \<Rightarrow>
     (if a < 0 \<or> b < 0 \<or> c < 0 \<or> d < 0 \<or> t < 0 then ret < 0 \<and> held = []
      else ret = 0
        \<and> set held = {Chrdev_region, Cdev, Dev_class, Dev_node, Monitor_thread} \<and> distinct held
        \<and> monitor_exit held es = ([], []))"
proof -
  have "free_entries es = []"
    by (induction es) simp_all
  then show ?thesis
    by (auto simp: monitor_init_def monitor_exit_def Let_def)
qed

end
