(* ===== verification/Lifecycle.thy ===== *)
theory Lifecycle
  imports Wire Monitor
begin

unbundle bit_operations_syntax

text \<open>
  The life of a container in \<^verbatim>\<open>src/engine.c\<close>: \<^verbatim>\<open>start_container_internal\<close> with every failure
  branch, \<^verbatim>\<open>child_main\<close>, \<^verbatim>\<open>stop_container_by_id\<close>, the reaper and
  \<^verbatim>\<open>stop_all_live_containers\<close>, and the two calls that link the supervisor to the kernel module.
  The state \<open>world\<close> holds the container table and what the supervisor owns or has done outside
  of it: open descriptors, heap blocks, unreaped children, signals sent, producer threads and
  the kernel module's list. The results of system calls are arguments (\<open>start_env\<close>).
  \<open>start_reserve\<close>, \<open>start_publish\<close> and \<open>release_slot\<close> are the critical sections of
  \<^verbatim>\<open>containers_mutex\<close> inside a start.
\<close>


section \<open>Link to the kernel module\<close>

text \<open>
  Whether \<^verbatim>\<open>/dev/container_monitor\<close> opens, whether the kernel can copy the argument, and whether
  it can allocate an entry.
\<close>

record device_env =
  dev_open :: bool
  dev_copy :: bool
  dev_kmalloc :: bool

definition register_container_with_kernel ::
  "device_env \<Rightarrow> pid_t \<Rightarrow> i32 \<Rightarrow> i32 \<Rightarrow> monitor_entry list \<Rightarrow> int \<times> monitor_entry list" where
  "register_container_with_kernel env p soft hard es =
     (if \<not> dev_open env then (-1, es)
      else
        let req = \<lparr>mr_pid = p, mr_soft_limit = ulong_of_int soft, mr_hard_limit = ulong_of_int hard\<rparr>
        in case monitor_ioctl (dev_kmalloc env)
                  (REGISTER_CONTAINER (if dev_copy env then Some req else None)) es of
             (ret, es', ev) \<Rightarrow> (if ret \<noteq> 0 then -1 else 0, es'))"

definition unregister_container_from_kernel ::
  "device_env \<Rightarrow> pid_t \<Rightarrow> monitor_entry list \<Rightarrow> int \<times> monitor_entry list" where
  "unregister_container_from_kernel env p es =
     (if \<not> dev_open env then (-1, es)
      else case monitor_ioctl (dev_kmalloc env)
                  (UNREGISTER_CONTAINER (if dev_copy env then Some p else None)) es of
             (ret, es', ev) \<Rightarrow> (if ret \<noteq> 0 then -1 else 0, es'))"


section \<open>The state of the supervisor\<close>

datatype signal = SIGTERM | SIGKILL

record child_arg =
  ch_id :: string
  ch_rootfs :: string
  ch_command :: string
  ch_nice_value :: i32
  ch_write_fd :: fd

record producer_arg =
  pa_container_index :: nat
  pa_read_fd :: fd
  pa_block :: addr

record world =
  containers :: "container list"
  open_fds :: "fd set"
  heap :: "addr set"
  children :: "pid_t \<Rightarrow> child_arg option"
  signals :: "(pid_t \<times> signal) list"
  producers :: "producer_arg list"
  monitor :: "monitor_entry list"

definition close_fd :: "fd \<Rightarrow> world \<Rightarrow> world" where
  "close_fd f w = w\<lparr>open_fds := open_fds w - {f}\<rparr>"

definition open_fd :: "fd \<Rightarrow> world \<Rightarrow> world" where
  "open_fd f w = w\<lparr>open_fds := insert f (open_fds w)\<rparr>"

definition free_block :: "addr \<Rightarrow> world \<Rightarrow> world" where
  "free_block a w = w\<lparr>heap := heap w - {a}\<rparr>"

definition alloc_block :: "addr \<Rightarrow> world \<Rightarrow> world" where
  "alloc_block a w = w\<lparr>heap := insert a (heap w)\<rparr>"

definition send_signal :: "pid_t \<Rightarrow> signal \<Rightarrow> world \<Rightarrow> world" where
  "send_signal p s w = w\<lparr>signals := signals w @ [(p, s)]\<rparr>"

lemmas world_ops [table_simps] = close_fd_def open_fd_def free_block_def alloc_block_def
  send_signal_def


section \<open>Starting a container\<close>

definition squote :: string where
  "squote = [CHR 0x27]"

definition reserved_slot :: "request \<Rightarrow> int \<Rightarrow> container \<Rightarrow> container" where
  "reserved_slot req now c = c\<lparr>used := True,
     cid := safe_strcpy (cid c) (Some (req_id req)) MAX_ID_LEN,
     rootfs := safe_strcpy (rootfs c) (Some (req_rootfs req)) MAX_PATH_LEN,
     command := safe_strcpy (command c) (Some (req_command req)) MAX_CMD_LEN,
     log_file := snprintf_text MAX_PATH_LEN (''logs/'' @ req_id req @ ''.log''),
     state := safe_strcpy (state c) (Some ''STARTING'') MAX_STATE_LEN,
     soft_mib := req_soft_mib req, hard_mib := req_hard_mib req,
     nice_value := req_nice_value req, exit_code := -1, stop_requested := False,
     start_time := now, pid := -1, child_stack := None\<rparr>"

definition start_reserve :: "request \<Rightarrow> int \<Rightarrow> container list \<Rightarrow> string + nat \<times> container list" where
  "start_reserve req now cs =
     (if find_container_by_id_locked cs (req_id req) \<noteq> None
      then Inl (''Container ID '' @ squote @ req_id req @ squote @ '' already exists'')
      else if rootfs_in_use_locked cs (req_rootfs req)
      then Inl (''Rootfs '' @ squote @ req_rootfs req @ squote
                @ '' is already used by a live container'')
      else (case find_free_container_slot_locked cs of
              None \<Rightarrow> Inl ''Max containers reached''
            | Some idx \<Rightarrow> Inr (idx, cs[idx := reserved_slot req now (cs ! idx)])))"

definition release_slot :: "nat \<Rightarrow> container list \<Rightarrow> container list" where
  "release_slot idx cs = cs[idx := (cs ! idx)\<lparr>used := False\<rparr>]"

definition start_publish :: "nat \<Rightarrow> pid_t \<Rightarrow> addr \<Rightarrow> container list \<Rightarrow> container list" where
  "start_publish idx p stack cs =
     cs[idx := (cs ! idx)\<lparr>pid := p, child_stack := Some stack,
                 state := safe_strcpy (state (cs ! idx)) (Some ''RUNNING'') MAX_STATE_LEN\<rparr>]"

record start_env =
  now :: int
  pipe_res :: "string + fd \<times> fd"
  stack_res :: "addr option"
  child_res :: "addr option"
  clone_res :: "string + pid_t"
  parg_res :: "addr option"
  thread_ok :: bool
  device :: device_env

definition child_arg_of :: "request \<Rightarrow> fd \<Rightarrow> child_arg" where
  "child_arg_of req wfd = \<lparr>ch_id = safe_strcpy [] (Some (req_id req)) MAX_ID_LEN,
     ch_rootfs = safe_strcpy [] (Some (req_rootfs req)) MAX_PATH_LEN,
     ch_command = safe_strcpy [] (Some (req_command req)) MAX_CMD_LEN,
     ch_nice_value = req_nice_value req, ch_write_fd = wfd\<rparr>"

text \<open>A failed start: the slot is released and the response carries the message.\<close>

definition start_failed :: "nat \<Rightarrow> string \<Rightarrow> response \<Rightarrow> world \<Rightarrow> int \<times> nat option \<times> response \<times> world" where
  "start_failed idx msg resp w =
     (-1, None, set_response resp 0 (-1) msg, w\<lparr>containers := release_slot idx (containers w)\<rparr>)"

text \<open>From line 554 on: publish the pid, start the producer thread, register the process.\<close>

definition start_finish ::
  "start_env \<Rightarrow> request \<Rightarrow> response \<Rightarrow> nat \<Rightarrow> pid_t \<Rightarrow> addr \<Rightarrow> addr \<Rightarrow> fd \<Rightarrow> world
   \<Rightarrow> int \<times> nat option \<times> response \<times> world" where
  "start_finish env req resp idx p stack parg rfd w =
     (let w1 = w\<lparr>containers := start_publish idx p stack (containers w)\<rparr>;
          w2 = (if thread_ok env
                then w1\<lparr>producers := producers w1
                       @ [\<lparr>pa_container_index = idx, pa_read_fd = rfd, pa_block = parg\<rparr>]\<rparr>
                else w1);
          w3 = w2\<lparr>monitor := snd (register_container_with_kernel (device env) p
                     (req_soft_mib req) (req_hard_mib req) (monitor w2))\<rparr>
      in (0, Some idx,
          set_response resp 1 0
            (''Container '' @ req_id req @ '' started (PID '' @ int_dec (sint p) @ '')''), w3))"

definition start_container_internal ::
  "start_env \<Rightarrow> request \<Rightarrow> response \<Rightarrow> world \<Rightarrow> int \<times> nat option \<times> response \<times> world" where
  "start_container_internal env req resp w =
     (case start_reserve req (now env) (containers w) of
        Inl msg \<Rightarrow> (-1, None, set_response resp 0 (-1) msg, w)
      | Inr (idx, cs) \<Rightarrow>
          let w1 = w\<lparr>containers := cs\<rparr> in
          (case pipe_res env of
             Inl err \<Rightarrow> start_failed idx (''pipe failed: '' @ err) resp w1
           | Inr (rfd, wfd) \<Rightarrow>
               let w2 = open_fd wfd (open_fd rfd w1) in
               (case stack_res env of
                  None \<Rightarrow> start_failed idx ''malloc failed'' resp (close_fd wfd (close_fd rfd w2))
                | Some stack \<Rightarrow>
                    let w3 = alloc_block stack w2 in
                    (case child_res env of
                       None \<Rightarrow> start_failed idx ''malloc failed'' resp
                                (close_fd wfd (close_fd rfd (free_block stack w3)))
                     | Some child \<Rightarrow>
                         let w4 = alloc_block child w3 in
                         (case clone_res env of
                            Inl err \<Rightarrow> start_failed idx (''clone failed: '' @ err) resp
                              (close_fd wfd (close_fd rfd (free_block stack (free_block child w4))))
                          | Inr p \<Rightarrow>
                              let w5 = close_fd wfd (free_block child
                                    (w4\<lparr>children := (children w4)(p \<mapsto> child_arg_of req wfd)\<rparr>)) in
                              (case parg_res env of
                                 None \<Rightarrow> start_failed idx ''malloc failed'' resp
                                   (free_block stack (close_fd rfd (send_signal p SIGKILL w5)))
                               | Some parg \<Rightarrow>
                                   start_finish env req resp idx p stack parg rfd
                                     (alloc_block parg w5)))))))"


section \<open>Stopping a container\<close>

text \<open>The first argument is the result of \<^verbatim>\<open>kill\<close>: the text of the error, if it fails.\<close>

definition stop_container_by_id ::
  "string option \<Rightarrow> string \<Rightarrow> response \<Rightarrow> world \<Rightarrow> int \<times> response \<times> world" where
  "stop_container_by_id kill_err i resp w =
     (case find_container_by_id_locked (containers w) i of
        None \<Rightarrow> (-1, set_response resp 0 (-1) (''No such container: '' @ i), w)
      | Some idx \<Rightarrow>
          if \<not> is_live_state (state (containers w ! idx))
          then (-1, set_response resp 0 (-1) (''Container '' @ i @ '' is not running''), w)
          else
            let p = pid (containers w ! idx);
                w1 = w\<lparr>containers := (containers w)[idx :=
                         (containers w ! idx)\<lparr>stop_requested := True\<rparr>]\<rparr>;
                w2 = send_signal p SIGTERM w1
            in (case kill_err of
                  Some err \<Rightarrow>
                    (-1, set_response resp 0 (-1) (''Failed to stop '' @ i @ '': '' @ err), w2)
                | None \<Rightarrow>
                    (0, set_response resp 1 0 (''Stop requested for '' @ i @ '' (PID ''
                        @ int_dec (sint p) @ '')''), w2)))"

fun stop_live_slots :: "container list \<Rightarrow> container list \<times> (pid_t \<times> signal) list" where
  "stop_live_slots [] = ([], [])"
| "stop_live_slots (c # cs) =
     (case stop_live_slots cs of (cs', sigs) \<Rightarrow>
        if \<not> used c then (c # cs', sigs)
        else if \<not> is_live_state (state c) then (c # cs', sigs)
        else (c\<lparr>stop_requested := True\<rparr> # cs', (pid c, SIGTERM) # sigs))"

definition stop_all_live_containers :: "world \<Rightarrow> world" where
  "stop_all_live_containers w =
     (case stop_live_slots (containers w) of
        (cs, sigs) \<Rightarrow> w\<lparr>containers := cs, signals := signals w @ sigs\<rparr>)"


section \<open>Reaping a container\<close>

text \<open>The macros of \<^verbatim>\<open>sys/wait.h\<close> on a wait status.\<close>

definition WTERMSIG :: "i32 \<Rightarrow> i32" where
  "WTERMSIG st = st AND 0x7F"

definition WIFEXITED :: "i32 \<Rightarrow> bool" where
  "WIFEXITED st \<longleftrightarrow> WTERMSIG st = 0"

definition WEXITSTATUS :: "i32 \<Rightarrow> i32" where
  "WEXITSTATUS st = drop_bit 8 (st AND 0xFF00)"

definition WIFSIGNALED :: "i32 \<Rightarrow> bool" where
  "WIFSIGNALED st \<longleftrightarrow> 0 < sint (signed_drop_bit 1 (ucast ((st AND 0x7F) + 1) :: 8 word))"

text \<open>The state and exit code that the reaper records for a slot.\<close>

definition SIGKILL_number :: i32 where "SIGKILL_number = 9"

definition reaped_slot :: "i32 \<Rightarrow> container \<Rightarrow> container" where
  "reaped_slot st c =
     (if WIFEXITED st then
        (if stop_requested c
         then c\<lparr>state := safe_strcpy (state c) (Some ''STOPPED'') MAX_STATE_LEN\<rparr>
         else c\<lparr>state := safe_strcpy (state c) (Some ''EXITED'') MAX_STATE_LEN\<rparr>)
          \<lparr>exit_code := WEXITSTATUS st\<rparr>
      else if WIFSIGNALED st then
        (if stop_requested c
         then c\<lparr>state := safe_strcpy (state c) (Some ''STOPPED'') MAX_STATE_LEN\<rparr>
         else if WTERMSIG st = SIGKILL_number
         then c\<lparr>state := safe_strcpy (state c) (Some ''KILLED'') MAX_STATE_LEN\<rparr>
         else c\<lparr>state := safe_strcpy (state c) (Some ''KILLED'') MAX_STATE_LEN\<rparr>)
          \<lparr>exit_code := 128 + WTERMSIG st\<rparr>
      else c\<lparr>state := safe_strcpy (state c) (Some ''STOPPED'') MAX_STATE_LEN, exit_code := -1\<rparr>)"

text \<open>
  One turn of the reaper after \<^verbatim>\<open>waitpid\<close> returned \<open>p\<close>: the first used slot with that pid, if
  there is one, is updated, its registration is removed and its stack is freed.
\<close>

definition reap_child :: "device_env \<Rightarrow> pid_t \<Rightarrow> i32 \<Rightarrow> world \<Rightarrow> world" where
  "reap_child env p st w =
     (let w0 = w\<lparr>children := (children w)(p := None)\<rparr> in
      case first_index (\<lambda>c. used c \<and> pid c = p) (containers w0) of
        None \<Rightarrow> w0
      | Some i \<Rightarrow>
          let c = reaped_slot st (containers w0 ! i);
              w1 = w0\<lparr>monitor := snd (unregister_container_from_kernel env p (monitor w0))\<rparr>
          in (case child_stack c of
                None \<Rightarrow> w1\<lparr>containers := (containers w1)[i := c]\<rparr>
              | Some a \<Rightarrow>
                  free_block a (w1\<lparr>containers := (containers w1)[i := c\<lparr>child_stack := None\<rparr>]\<rparr>)))"

text \<open>
  \<^verbatim>\<open>reaper_main\<close> over the results of \<^verbatim>\<open>waitpid\<close>; \<open>Wait_ECHILD r\<close> carries the value of
  \<^verbatim>\<open>supervisor_running\<close> read at that moment. The flag of the result tells whether the loop was
  left or still runs when the results end.
\<close>

datatype wait_result = Reaped pid_t i32 | Wait_EINTR | Wait_ECHILD bool | Wait_error

fun reaper_main :: "device_env \<Rightarrow> wait_result list \<Rightarrow> world \<Rightarrow> bool \<times> world" where
  "reaper_main env [] w = (False, w)"
| "reaper_main env (Wait_EINTR # rs) w = reaper_main env rs w"
| "reaper_main env (Wait_ECHILD running # rs) w =
     (if \<not> running then (True, w) else reaper_main env rs w)"
| "reaper_main env (Wait_error # rs) w = reaper_main env rs w"
| "reaper_main env (Reaped p st # rs) w = reaper_main env rs (reap_child env p st w)"


section \<open>The child\<close>

datatype child_action =
    Dup2 fd fd
  | Close_fd fd
  | Open_devnull
  | Unbuffer_output
  | Sethostname string
  | Mount_private
  | Chroot string
  | Chdir_root
  | Mkdir_proc
  | Mount_proc
  | Setpriority i32
  | Print string
  | Exec_shell string
  | Perror string

text \<open>The results of the calls of the child that it looks at; \<open>devnull_fd\<close> is negative on failure.\<close>

record child_env =
  devnull_fd :: fd
  chroot_ok :: bool
  chdir_ok :: bool
  mount_ok :: bool
  exec_ok :: bool

text \<open>
  The actions of the child in order and its exit status, \<open>None\<close> when \<^verbatim>\<open>execl\<close> succeeded and the
  command runs.
\<close>

definition child_main :: "child_env \<Rightarrow> child_arg \<Rightarrow> child_action list \<times> int option" where
  "child_main env child =
     (let a1 = (if 0 \<le> ch_write_fd child
                then [Dup2 (ch_write_fd child) 1, Dup2 (ch_write_fd child) 2,
                      Close_fd (ch_write_fd child)]
                else []);
          a2 = Open_devnull # (if 0 \<le> devnull_fd env
                then [Dup2 (devnull_fd env) 0, Close_fd (devnull_fd env)] else []);
          a3 = a1 @ a2 @ [Unbuffer_output, Sethostname (ch_id child), Mount_private,
                          Chroot (ch_rootfs child)]
      in if \<not> chroot_ok env then (a3 @ [Perror ''chroot failed''], Some 1)
      else let a4 = a3 @ [Chdir_root]
      in if \<not> chdir_ok env then (a4 @ [Perror ''chdir failed''], Some 1)
      else let a5 = a4 @ [Mkdir_proc, Mount_proc]
                    @ (if mount_ok env then [] else [Perror ''mount /proc failed''])
                    @ (if ch_nice_value child \<noteq> 0 then [Setpriority (ch_nice_value child)] else [])
                    @ [Print (''Container '' @ ch_id child @ '' started inside isolated rootfs''
                              @ [CHR 0x0A]),
                       Exec_shell (ch_command child)]
      in if exec_ok env then (a5, None) else (a5 @ [Perror ''exec failed''], Some 127))"



section \<open>The critical sections keep the table well formed\<close>

lemma safe_strcpy_state [table_simps]:
  "safe_strcpy d (Some ''STARTING'') MAX_STATE_LEN = ''STARTING''"
  "safe_strcpy d (Some ''RUNNING'') MAX_STATE_LEN = ''RUNNING''"
  "safe_strcpy d (Some ''STOPPED'') MAX_STATE_LEN = ''STOPPED''"
  "safe_strcpy d (Some ''EXITED'') MAX_STATE_LEN = ''EXITED''"
  "safe_strcpy d (Some ''KILLED'') MAX_STATE_LEN = ''KILLED''"
  by (simp_all add: safe_strcpy_def c_layout)

lemma log_path_fits:
  assumes "fits MAX_ID_LEN i"
  shows "snprintf_text MAX_PATH_LEN (''logs/'' @ i @ ''.log'') = ''logs/'' @ i @ ''.log''"
  unfolding snprintf_text_def using assms by (intro take_all) (simp add: fits_def c_layout)

lemma reserved_slot_simps:
  assumes "request_ok req"
  shows "used (reserved_slot req t c)" "cid (reserved_slot req t c) = req_id req"
    "rootfs (reserved_slot req t c) = req_rootfs req"
    "command (reserved_slot req t c) = req_command req"
    "log_file (reserved_slot req t c) = ''logs/'' @ req_id req @ ''.log''"
    "state (reserved_slot req t c) = ''STARTING''" "pid (reserved_slot req t c) = -1"
    "stop_requested (reserved_slot req t c) = False"
    "child_stack (reserved_slot req t c) = None" "exit_code (reserved_slot req t c) = -1"
    "soft_mib (reserved_slot req t c) = req_soft_mib req"
    "hard_mib (reserved_slot req t c) = req_hard_mib req"
    "nice_value (reserved_slot req t c) = req_nice_value req"
    "start_time (reserved_slot req t c) = t"
  using assms
  by (simp_all add: reserved_slot_def request_ok_def safe_strcpy_id table_simps
      log_path_fits [simplified])

lemma reserved_slot_ok: "request_ok req \<Longrightarrow> slot_ok (reserved_slot req t c)"
  by (simp add: slot_ok_def reserved_slot_simps) (simp add: request_ok_def)

lemma start_reserve_Inr:
  assumes "start_reserve req t cs = Inr (i, cs')"
  shows "i < length cs" "\<not> used (cs ! i)" "cs' = cs[i := reserved_slot req t (cs ! i)]"
    "find_container_by_id_locked cs (req_id req) = None"
    "\<not> rootfs_in_use_locked cs (req_rootfs req)"
  using assms find_free_slot_SomeD
  by (auto simp: start_reserve_def split: if_splits option.splits)

lemma start_reserve_ok:
  assumes ok: "table_ok cs" and req: "request_ok req" and run: "start_reserve req t cs = Inr (i, cs')"
  shows "table_ok cs'"
proof -
  note r = start_reserve_Inr [OF run]
  note slot = reserved_slot_simps [OF req, of t "cs ! i"]
  show ?thesis
    unfolding r(3)
  proof (rule table_ok_update [OF ok r(1) reserved_slot_ok [OF req]])
    fix j
    assume "j < length cs" "used (cs ! j)"
    then show "cid (cs ! j) \<noteq> cid (reserved_slot req t (cs ! i))"
      using find_container_by_id_NoneD [OF r(4)] slot by simp
  next
    fix j
    assume "j < length cs" "live (cs ! j)"
    then show "rootfs (cs ! j) \<noteq> rootfs (reserved_slot req t (cs ! i))"
      using rootfs_not_in_useD [OF r(5)] slot by simp
  qed
qed

lemma release_slot_ok: "table_ok cs \<Longrightarrow> i < length cs \<Longrightarrow> table_ok (release_slot i cs)"
  unfolding release_slot_def by (rule table_ok_modify) (simp_all add: live_def)

lemma start_publish_ok:
  "table_ok cs \<Longrightarrow> i < length cs \<Longrightarrow> live (cs ! i) \<Longrightarrow> table_ok (start_publish i p a cs)"
  unfolding start_publish_def by (rule table_ok_modify) (simp_all add: table_simps)

lemma reaped_slot_same [simp]:
  "used (reaped_slot st c) = used c" "cid (reaped_slot st c) = cid c"
  "rootfs (reaped_slot st c) = rootfs c" "command (reaped_slot st c) = command c"
  "log_file (reaped_slot st c) = log_file c" "pid (reaped_slot st c) = pid c"
  "child_stack (reaped_slot st c) = child_stack c"
  "stop_requested (reaped_slot st c) = stop_requested c"
  by (simp_all add: reaped_slot_def)

lemma reaped_slot_state:
  "state (reaped_slot st c) \<in> {''STOPPED'', ''EXITED'', ''KILLED''}"
  by (simp add: reaped_slot_def table_simps)

lemma reaped_slot_not_live [simp]: "\<not> live (reaped_slot st c)" "\<not> is_live_state (state (reaped_slot st c))"
  using reaped_slot_state [of st c] by (auto simp: live_def)

lemma reaped_slot_in_states [simp]: "state (reaped_slot st c) \<in> container_states"
  using reaped_slot_state [of st c] by auto

lemma reap_child_containers:
  "containers (reap_child env p st w) =
     (case first_index (\<lambda>c. used c \<and> pid c = p) (containers w) of
        None \<Rightarrow> containers w
      | Some i \<Rightarrow> (containers w)[i := (reaped_slot st (containers w ! i))\<lparr>child_stack := None\<rparr>])"
proof (cases "first_index (\<lambda>c. used c \<and> pid c = p) (containers w)")
  case None
  then show ?thesis by (simp add: reap_child_def)
next
  case (Some i)
  let ?c = "reaped_slot st (containers w ! i)"
  show ?thesis
  proof (cases "child_stack (containers w ! i)")
    case None
    then have "?c\<lparr>child_stack := None\<rparr> = ?c"
      by simp
    moreover have "containers (reap_child env p st w) = (containers w)[i := ?c]"
      using Some None by (simp add: reap_child_def Let_def)
    ultimately show ?thesis
      using Some by (simp only: option.simps)
  next
    case (Some a)
    with \<open>first_index _ _ = Some i\<close> show ?thesis
      by (simp add: reap_child_def Let_def world_ops)
  qed
qed

lemma reap_child_ok: "table_ok (containers w) \<Longrightarrow> table_ok (containers (reap_child env p st w))"
  unfolding reap_child_containers
  by (auto split: option.splits intro!: table_ok_modify dest: first_index_SomeD)
    (auto simp: live_def)

lemma stop_container_ok:
  assumes "table_ok (containers w)" "stop_container_by_id err i resp w = (rc, resp', w')"
  shows "table_ok (containers w')"
proof -
  have "slot_ok c" if "c \<in> set (containers w)" for c
    using assms(1) that by (rule table_okD(2))
  then show ?thesis
    using assms find_container_by_id_SomeD [of "containers w" i]
    by (auto simp: stop_container_by_id_def Let_def world_ops live_def slot_ok_def
        split: option.splits if_splits intro!: table_ok_modify)
qed

lemma stop_live_slots_fst:
  "fst (stop_live_slots cs) = map (\<lambda>c. if live c then c\<lparr>stop_requested := True\<rparr> else c) cs"
  by (induction cs) (auto simp: live_def case_prod_beta)

lemma stop_live_slots_snd:
  "snd (stop_live_slots cs) = map (\<lambda>c. (pid c, SIGTERM)) (filter live cs)"
  by (induction cs) (auto simp: live_def case_prod_beta)

lemma table_ok_map:
  assumes "table_ok cs" "\<And>c. c \<in> set cs \<Longrightarrow> used (f c) = used c \<and> cid (f c) = cid c
    \<and> rootfs (f c) = rootfs c \<and> command (f c) = command c \<and> log_file (f c) = log_file c
    \<and> state (f c) = state c"
  shows "table_ok (map f cs)"
  using assms by (auto simp: table_ok_def slot_ok_def live_def)

lemma stop_all_ok:
  "table_ok (containers w) \<Longrightarrow> table_ok (containers (stop_all_live_containers w))"
  by (simp add: stop_all_live_containers_def case_prod_beta stop_live_slots_fst table_ok_map)

end
