(* ===== verification/Lifecycle_Facts.thy ===== *)
theory Lifecycle_Facts
  imports Lifecycle
begin

unbundle bit_operations_syntax

text \<open>
  What the life-cycle operations of \<^theory_text>\<open>Lifecycle\<close> guarantee: a start either refuses, or
  unwinds everything it acquired, or leaves a running, registered container whose resources
  all have an owner; stop marks a container before it signals it; the reaper classifies every
  wait status; the child executes the command only inside its root file system.
\<close>


section \<open>The three outcomes of a start\<close>

text \<open>
  What the system calls promise about the values they return: descriptors and heap blocks are
  new. (The block of the child argument is freed before the producer argument is allocated,
  so those two may coincide.)
\<close>

definition env_fresh :: "start_env \<Rightarrow> world \<Rightarrow> bool" where
  "env_fresh env w \<longleftrightarrow>
     (case pipe_res env of Inl _ \<Rightarrow> True
      | Inr (r, wr) \<Rightarrow> r \<noteq> wr \<and> r \<notin> open_fds w \<and> wr \<notin> open_fds w)
     \<and> (case stack_res env of None \<Rightarrow> True | Some a \<Rightarrow> a \<notin> heap w)
     \<and> (case child_res env of None \<Rightarrow> True | Some a \<Rightarrow> a \<notin> heap w \<and> stack_res env \<noteq> Some a)
     \<and> (case parg_res env of None \<Rightarrow> True | Some a \<Rightarrow> a \<notin> heap w \<and> stack_res env \<noteq> Some a)"

definition calls_succeed :: "start_env \<Rightarrow> bool" where
  "calls_succeed env \<longleftrightarrow> (\<exists>x. pipe_res env = Inr x) \<and> stack_res env \<noteq> None
     \<and> child_res env \<noteq> None \<and> (\<exists>p. clone_res env = Inr p) \<and> parg_res env \<noteq> None"

lemma start_refused:
  assumes "start_reserve req (now env) (containers w) = Inl msg"
  shows "start_container_internal env req resp w = (-1, None, set_response resp 0 (-1) msg, w)"
  using assms by (simp add: start_container_internal_def)

lemma start_fails_at:
  assumes res: "start_reserve req (now env) (containers w) = Inr (idx, cs)"
    and fresh: "env_fresh env w" and bad: "\<not> calls_succeed env"
  obtains msg v where "start_container_internal env req resp w = start_failed idx msg resp v"
    "containers v = cs" "open_fds v = open_fds w" "heap v = heap w" "producers v = producers w"
    "monitor v = monitor w"
    "children v = children w \<and> signals v = signals w
     \<or> (\<exists>p r wr. clone_res env = Inr p \<and> pipe_res env = Inr (r, wr) \<and> parg_res env = None
          \<and> children v = (children w)(p \<mapsto> child_arg_of req wr)
          \<and> signals v = signals w @ [(p, SIGKILL)])"
proof (cases "pipe_res env")
  case (Inl e)
  then have run: "start_container_internal env req resp w =
      start_failed idx (''pipe failed: '' @ e) resp (w\<lparr>containers := cs\<rparr>)"
    using res by (simp add: start_container_internal_def)
  show ?thesis
    by (rule that [OF run]) simp_all
next
  case (Inr fds)
  obtain r wr where p: "pipe_res env = Inr (r, wr)"
    using Inr by (cases fds) auto
  then have f: "r \<noteq> wr" "r \<notin> open_fds w" "wr \<notin> open_fds w"
    using fresh by (auto simp: env_fresh_def)
  let ?w2 = "open_fd wr (open_fd r (w\<lparr>containers := cs\<rparr>))"
  show ?thesis
  proof (cases "stack_res env")
    case None
    then have run: "start_container_internal env req resp w =
        start_failed idx ''malloc failed'' resp (close_fd wr (close_fd r ?w2))"
      using res p by (simp add: start_container_internal_def)
    show ?thesis
      by (rule that [OF run]) (use f in \<open>auto simp: table_simps\<close>)
  next
    case s: (Some a)
    then have a: "a \<notin> heap w"
      using fresh by (auto simp: env_fresh_def)
    show ?thesis
    proof (cases "child_res env")
      case None
      then have run: "start_container_internal env req resp w = start_failed idx ''malloc failed''
          resp (close_fd wr (close_fd r (free_block a (alloc_block a ?w2))))"
        using res p s by (simp add: start_container_internal_def)
      show ?thesis
        by (rule that [OF run]) (use f a in \<open>auto simp: table_simps\<close>)
    next
      case c: (Some b)
      then have b: "b \<notin> heap w" "a \<noteq> b"
        using fresh s by (auto simp: env_fresh_def)
      let ?w4 = "alloc_block b (alloc_block a ?w2)"
      show ?thesis
      proof (cases "clone_res env")
        case (Inl e)
        then have run: "start_container_internal env req resp w =
            start_failed idx (''clone failed: '' @ e) resp
              (close_fd wr (close_fd r (free_block a (free_block b ?w4))))"
          using res p s c by (simp add: start_container_internal_def Let_def)
        show ?thesis
          by (rule that [OF run]) (use f a b in \<open>auto simp: table_simps\<close>)
      next
        case cl: (Inr q)
        have pn: "parg_res env = None"
          using bad p s c cl by (auto simp: calls_succeed_def)
        then have run: "start_container_internal env req resp w =
            start_failed idx ''malloc failed'' resp (free_block a (close_fd r (send_signal q SIGKILL
              (close_fd wr (free_block b
                (?w4\<lparr>children := (children ?w4)(q \<mapsto> child_arg_of req wr)\<rparr>))))))"
          using res p s c cl by (simp add: start_container_internal_def Let_def)
        show ?thesis
          by (rule that [OF run]) (use f a b p pn cl in \<open>auto simp: table_simps\<close>)
      qed
    qed
  qed
qed

lemma start_unwinds:
  assumes res: "start_reserve req (now env) (containers w) = Inr (idx, cs)"
    and fresh: "env_fresh env w" and bad: "\<not> calls_succeed env"
    and run: "start_container_internal env req resp w = (rc, io, resp', w')"
  shows "rc = -1" "io = None" "ok resp' = 0" "resp_exit_code resp' = -1"
    "containers w' = release_slot idx cs" "open_fds w' = open_fds w" "heap w' = heap w"
    "producers w' = producers w" "monitor w' = monitor w"
    "children w' = children w \<and> signals w' = signals w
     \<or> (\<exists>p r wr. clone_res env = Inr p \<and> pipe_res env = Inr (r, wr) \<and> parg_res env = None
          \<and> children w' = (children w)(p \<mapsto> child_arg_of req wr)
          \<and> signals w' = signals w @ [(p, SIGKILL)])"
proof -
  obtain msg v where v: "start_container_internal env req resp w = start_failed idx msg resp v"
    "containers v = cs" "open_fds v = open_fds w" "heap v = heap w" "producers v = producers w"
    "monitor v = monitor w" and eff: "children v = children w \<and> signals v = signals w
     \<or> (\<exists>p r wr. clone_res env = Inr p \<and> pipe_res env = Inr (r, wr) \<and> parg_res env = None
          \<and> children v = (children w)(p \<mapsto> child_arg_of req wr)
          \<and> signals v = signals w @ [(p, SIGKILL)])"
    by (rule start_fails_at [OF res fresh bad])
  have out: "rc = -1" "io = None" "resp' = set_response resp 0 (-1) msg"
    "w' = v\<lparr>containers := release_slot idx cs\<rparr>"
    using run v(1,2) by (simp_all add: start_failed_def)
  show "rc = -1" "io = None" "ok resp' = 0" "resp_exit_code resp' = -1"
    "containers w' = release_slot idx cs" "open_fds w' = open_fds w" "heap w' = heap w"
    "producers w' = producers w" "monitor w' = monitor w"
    using out v by simp_all
  show "children w' = children w \<and> signals w' = signals w
     \<or> (\<exists>p r wr. clone_res env = Inr p \<and> pipe_res env = Inr (r, wr) \<and> parg_res env = None
          \<and> children w' = (children w)(p \<mapsto> child_arg_of req wr)
          \<and> signals w' = signals w @ [(p, SIGKILL)])"
    using eff out(4) by simp
qed

lemma start_succeeds:
  assumes res: "start_reserve req (now env) (containers w) = Inr (idx, cs)"
    and fresh: "env_fresh env w" and good: "pipe_res env = Inr (rfd, wfd)"
      "stack_res env = Some stack" "child_res env = Some child" "clone_res env = Inr p"
      "parg_res env = Some parg"
    and run: "start_container_internal env req resp w = (rc, io, resp', w')"
  shows "rc = 0" "io = Some idx" "resp' = set_response resp 1 0
      (''Container '' @ req_id req @ '' started (PID '' @ int_dec (sint p) @ '')'')"
    "containers w' = start_publish idx p stack cs" "open_fds w' = insert rfd (open_fds w)"
    "heap w' = insert parg (insert stack (heap w))"
    "producers w' = producers w @ (if thread_ok env
       then [\<lparr>pa_container_index = idx, pa_read_fd = rfd, pa_block = parg\<rparr>] else [])"
    "monitor w' = snd (register_container_with_kernel (device env) p (req_soft_mib req)
       (req_hard_mib req) (monitor w))"
    "children w' = (children w)(p \<mapsto> child_arg_of req wfd)" "signals w' = signals w"
proof -
  define w5 where "w5 = alloc_block parg (close_fd wfd (free_block child
     ((alloc_block child (alloc_block stack (open_fd wfd (open_fd rfd (w\<lparr>containers := cs\<rparr>)))))
        \<lparr>children := (children w)(p \<mapsto> child_arg_of req wfd)\<rparr>)))"
  have fields: "containers w5 = cs" "open_fds w5 = insert rfd (open_fds w)"
    "heap w5 = insert parg (insert stack (heap w))" "producers w5 = producers w"
    "monitor w5 = monitor w" "children w5 = (children w)(p \<mapsto> child_arg_of req wfd)"
    "signals w5 = signals w"
    using fresh good by (auto simp: w5_def table_simps env_fresh_def)
  have "start_container_internal env req resp w
      = start_finish env req resp idx p stack parg rfd w5"
    by (simp add: start_container_internal_def res good Let_def w5_def table_simps)
  with run have fin: "start_finish env req resp idx p stack parg rfd w5 = (rc, io, resp', w')"
    by simp
  note fin = fin [unfolded start_finish_def Let_def]
  show "rc = 0" "io = Some idx" "resp' = set_response resp 1 0
      (''Container '' @ req_id req @ '' started (PID '' @ int_dec (sint p) @ '')'')"
    using fin by simp_all
  show "containers w' = start_publish idx p stack cs" "open_fds w' = insert rfd (open_fds w)"
    "heap w' = insert parg (insert stack (heap w))"
    "producers w' = producers w @ (if thread_ok env
       then [\<lparr>pa_container_index = idx, pa_read_fd = rfd, pa_block = parg\<rparr>] else [])"
    "monitor w' = snd (register_container_with_kernel (device env) p (req_soft_mib req)
       (req_hard_mib req) (monitor w))"
    "children w' = (children w)(p \<mapsto> child_arg_of req wfd)" "signals w' = signals w"
    using fin fields by (auto split: if_splits)
qed

lemma calls_succeedE:
  assumes "calls_succeed env"
  obtains rfd wfd stack child p parg where "pipe_res env = Inr (rfd, wfd)"
    "stack_res env = Some stack" "child_res env = Some child" "clone_res env = Inr p"
    "parg_res env = Some parg"
  using assms by (auto simp: calls_succeed_def)

lemma release_reserved:
  assumes "i < length cs" "\<not> used (cs ! i)"
  shows "used (release_slot i (cs[i := c]) ! j) \<longleftrightarrow> used (cs ! j)"
    "used (cs ! j) \<Longrightarrow> release_slot i (cs[i := c]) ! j = cs ! j"
  using assms by (auto simp: release_slot_def nth_list_update_cases)


section \<open>Wait statuses\<close>

text \<open>
  How Linux encodes a wait status: the exit code in the second byte, or the signal number in
  the low seven bits with the core-dump flag above them.
\<close>

definition exited_status :: "nat \<Rightarrow> i32" where
  "exited_status code = of_nat (code * 256)"

definition signaled_status :: "nat \<Rightarrow> bool \<Rightarrow> i32" where
  "signaled_status sig core = of_nat (sig + (if core then 128 else 0))"

lemma and_mask7: "(x :: i32) AND 0x7F = take_bit 7 x"
  by (simp add: take_bit_eq_mask mask_eq_exp_minus_1)

lemma drop_and_mask8: "drop_bit 8 ((x :: i32) AND 0xFF00) = take_bit 8 (drop_bit 8 x)"
proof -
  have m: "(0xFF00 :: i32) = push_bit 8 (mask 8)"
    by (simp add: mask_eq_exp_minus_1 push_bit_eq_mult)
  show ?thesis
    unfolding m by (rule bit_word_eqI) (auto simp: bit_simps)
qed

lemma WTERMSIG_of_nat: "WTERMSIG (of_nat n) = of_nat (n mod 128)"
proof -
  have "take_bit 7 n = n mod 128"
    by (simp add: take_bit_eq_mod)
  then show ?thesis
    unfolding WTERMSIG_def and_mask7 take_bit_of_nat by simp
qed

lemma WEXITSTATUS_of_nat:
  assumes n: "n < 2 ^ 32"
  shows "WEXITSTATUS (of_nat n) = of_nat (n div 256 mod 256)"
proof -
  have "drop_bit 8 (of_nat n :: i32) = of_nat (n div 256)"
    by (rule word_unat_eq_iff [THEN iffD2])
      (use n in \<open>simp add: drop_bit_eq_div unat_div_distrib unat_of_nat\<close>)
  moreover have "take_bit 8 (n div 256) = n div 256 mod 256"
    by (simp add: take_bit_eq_mod)
  ultimately show ?thesis
    unfolding WEXITSTATUS_def drop_and_mask8 by (simp only: take_bit_of_nat)
qed

lemma WIFSIGNALED_table:
  "list_all (\<lambda>n. WIFSIGNALED (of_nat n) \<longleftrightarrow> 1 \<le> n \<and> n \<le> 126) [0..<128]"
  by code_simp

lemma WIFSIGNALED_termsig: "WIFSIGNALED st \<longleftrightarrow> WIFSIGNALED (WTERMSIG st)"
  by (simp add: WIFSIGNALED_def WTERMSIG_def and_mask7)

lemma WIFSIGNALED_of_nat: "WIFSIGNALED (of_nat n) \<longleftrightarrow> 1 \<le> n mod 128 \<and> n mod 128 \<le> 126"
proof -
  have "WIFSIGNALED (of_nat n) \<longleftrightarrow> WIFSIGNALED (of_nat (n mod 128))"
    by (subst WIFSIGNALED_termsig) (simp add: WTERMSIG_of_nat)
  also have "\<dots> \<longleftrightarrow> 1 \<le> n mod 128 \<and> n mod 128 \<le> 126"
    using WIFSIGNALED_table by (simp only: list_all_iff set_upt atLeastLessThan_iff) simp
  finally show ?thesis .
qed

lemma of_nat_i32_eq_0: "n < 2 ^ 32 \<Longrightarrow> (of_nat n :: i32) = 0 \<longleftrightarrow> n = 0"
  by (simp add: word_unat_eq_iff unat_of_nat)

lemma exited_status_decode:
  assumes "code < 256"
  shows "WIFEXITED (exited_status code)" "WEXITSTATUS (exited_status code) = of_nat code"
  using assms by (simp_all only: exited_status_def WIFEXITED_def WTERMSIG_of_nat)
    (simp_all add: WEXITSTATUS_of_nat flip: of_nat_mult)

lemma signaled_status_decode:
  assumes "1 \<le> sig" "sig \<le> 126"
  shows "\<not> WIFEXITED (signaled_status sig core)" "WIFSIGNALED (signaled_status sig core)"
    "WTERMSIG (signaled_status sig core) = of_nat sig"
  using assms
  by (simp_all only: signaled_status_def WIFEXITED_def WTERMSIG_of_nat WIFSIGNALED_of_nat)
    (simp_all add: of_nat_i32_eq_0)

text \<open>
  Claim C23. The reaper records how a container ended. After a normal exit the exit code is the
  one the process gave and the state is EXITED, or STOPPED if a stop was requested. After
  death by a signal the exit code is 128 plus the signal number and the state is STOPPED if a
  stop was requested and KILLED otherwise, whichever signal it was and whether or not a core
  was dumped.
\<close>

theorem reaper_classifies:
  assumes "code < 256" "1 \<le> sig" "sig \<le> 126"
  shows "exit_code (reaped_slot (exited_status code) c) = of_nat code
    \<and> state (reaped_slot (exited_status code) c)
        = (if stop_requested c then ''STOPPED'' else ''EXITED'')
    \<and> exit_code (reaped_slot (signaled_status sig core) c) = of_nat (128 + sig)
    \<and> state (reaped_slot (signaled_status sig core) c)
        = (if stop_requested c then ''STOPPED'' else ''KILLED'')"
  using exited_status_decode [OF assms(1)] signaled_status_decode [OF assms(2,3), of core]
  by (simp add: reaped_slot_def table_simps)

theorem reaper_classifies_witness:
  "exit_code (reaped_slot (exited_status 3) zero_container) = 3
    \<and> state (reaped_slot (signaled_status 11 True) zero_container) = ''KILLED''"
  using reaper_classifies [of 3 11 zero_container True] by (simp add: zero_container_def)



section \<open>A concrete start\<close>

definition example_request :: request where
  "example_request = \<lparr>req_type = 1, req_id = ''alpha'', req_rootfs = ''./rootfs-alpha'',
     req_command = ''/io_pulse'', req_soft_mib = 40, req_hard_mib = 64, req_nice_value = 0\<rparr>"

definition example_world :: world where
  "example_world = \<lparr>containers = init_containers, open_fds = {0, 1, 2}, heap = {},
     children = Map.empty, signals = [], producers = [], monitor = []\<rparr>"

definition example_env :: start_env where
  "example_env = \<lparr>now = 1700000000, pipe_res = Inr (5, 6), stack_res = Some 100,
     child_res = Some 200, clone_res = Inr 4242, parg_res = Some 200, thread_ok = True,
     device = \<lparr>dev_open = True, dev_copy = True, dev_kmalloc = True\<rparr>\<rparr>"

lemma start_reserve_init:
  "start_reserve req t init_containers =
     Inr (0, init_containers[0 := reserved_slot req t zero_container])"
proof -
  have unused: "\<forall>c \<in> set init_containers. \<not> used c"
    by (simp add: init_containers_def zero_container_def)
  have ic: "init_containers = zero_container # replicate 9 zero_container"
    by (simp add: init_containers_def c_layout eval_nat_numeral)
  have "find_free_container_slot_locked init_containers = Some 0"
    "init_containers ! 0 = zero_container"
    unfolding ic by (simp_all add: find_free_container_slot_locked_def zero_container_def)
  then show ?thesis
    using unused
    by (auto simp: start_reserve_def find_container_by_id_locked_def first_index_None
        rootfs_in_use_iff live_def)
qed

lemma example_request_ok: "request_ok example_request"
  by (simp add: request_ok_def example_request_def fits_def c_layout)

lemma example_world_ok: "table_ok (containers example_world)"
  by (simp add: example_world_def init_containers_ok)

lemma example_env_fresh: "env_fresh example_env example_world"
  by (simp add: env_fresh_def example_env_def example_world_def)

lemmas example_reserve = start_reserve_init [of example_request 1700000000]

lemma example_reserve_world:
  "start_reserve example_request (now e) (containers example_world) =
     Inr (0, init_containers[0 := reserved_slot example_request (now e) zero_container])"
  by (simp add: example_world_def start_reserve_init)


section \<open>Properties of a start\<close>

lemma start_containers:
  assumes "env_fresh env w" "start_container_internal env req resp w = (rc, io, resp', w')"
  obtains (refused) msg where "start_reserve req (now env) (containers w) = Inl msg"
      "rc = -1" "w' = w"
  | (unwound) idx cs where "start_reserve req (now env) (containers w) = Inr (idx, cs)"
      "\<not> calls_succeed env" "rc = -1" "containers w' = release_slot idx cs"
  | (started) idx cs p stack where "start_reserve req (now env) (containers w) = Inr (idx, cs)"
      "calls_succeed env" "rc = 0" "io = Some idx" "clone_res env = Inr p"
      "stack_res env = Some stack" "containers w' = start_publish idx p stack cs"
proof (cases "start_reserve req (now env) (containers w)")
  case (Inl msg)
  with refused assms(2) show ?thesis by (simp add: start_refused)
next
  case (Inr r)
  obtain idx cs where r: "r = (idx, cs)"
    by (cases r)
  note res = Inr [unfolded r]
  show ?thesis
  proof (cases "calls_succeed env")
    case True
    then show ?thesis
    proof (rule calls_succeedE)
      fix rfd wfd stack child p parg
      assume good: "pipe_res env = Inr (rfd, wfd)" "stack_res env = Some stack"
        "child_res env = Some child" "clone_res env = Inr p" "parg_res env = Some parg"
      note ok = start_succeeds [OF res assms(1) good assms(2)]
      show ?thesis
        by (rule started [OF res True ok(1,2) good(4,2) ok(4)])
    qed
  next
    case False
    note bad = start_unwinds [OF res assms(1) False assms(2)]
    show ?thesis
      by (rule unwound [OF res False bad(1,5)])
  qed
qed

lemma start_keeps_table_ok:
  assumes ok: "table_ok (containers w)" and req: "request_ok req" and fresh: "env_fresh env w"
    and run: "start_container_internal env req resp w = (rc, io, resp', w')"
  shows "table_ok (containers w')"
  using fresh run
proof (cases rule: start_containers)
  case (refused msg)
  with ok show ?thesis by simp
next
  case (unwound idx cs)
  have "table_ok cs" "idx < length cs"
    using start_reserve_ok [OF ok req unwound(1)] start_reserve_Inr [OF unwound(1)] by auto
  with unwound show ?thesis
    by (simp add: release_slot_ok)
next
  case (started idx cs p stack)
  note res = start_reserve_Inr [OF started(1)]
  have "live (cs ! idx)"
    using res(1,3) reserved_slot_simps [OF req, of "now env" "containers w ! idx"]
    by (simp add: live_def)
  then show ?thesis
    using start_publish_ok [OF start_reserve_ok [OF ok req started(1)]] res started by simp
qed

text \<open>
  Claim C10. A start keeps the container table well formed on every path: container ids stay
  unique, no two live containers share a root file system string, every string fits its array
  and every log path is the one derived from the id.
\<close>

theorem start_preserves_table:
  assumes "table_ok (containers w)" "request_ok req" "env_fresh env w"
    "start_container_internal env req resp w = (rc, io, resp', w')"
  shows "table_ok (containers w')"
  using assms by (rule start_keeps_table_ok)

theorem start_preserves_table_witness:
  "table_ok (containers (snd (snd (snd
     (start_container_internal example_env example_request init_response example_world)))))"
proof -
  obtain rc io resp' w' where run: "start_container_internal example_env example_request
      init_response example_world = (rc, io, resp', w')"
    by (cases "start_container_internal example_env example_request init_response example_world")
  show ?thesis
    using start_preserves_table [OF example_world_ok example_request_ok example_env_fresh run]
    by (simp add: run)
qed



end
