(* ===== verification/Lifecycle_Properties.thy ===== *)
theory Lifecycle_Properties
  imports Lifecycle_Facts
begin

text \<open>
  The properties of the life cycle beyond the table invariant: what a failed start gives back,
  who owns what after a successful one, which limits reach the kernel module, what stop and
  the reaper do to a slot, and when the child runs its command.
\<close>


section \<open>Failed and successful starts\<close>

text \<open>
  Claim C11. A failed start gives everything back: it returns -1 with an error response and no
  index, the open descriptors, the heap, the producer threads and the kernel registrations are
  as before, every slot is used or free as before and the used slots are unchanged. A child
  that had been cloned when the last allocation failed is sent SIGKILL; otherwise no process
  was created and no signal was sent.
\<close>

theorem start_failure_unwinds:
  assumes "env_fresh env w" "start_container_internal env req resp w = (rc, io, resp', w')"
    "rc \<noteq> 0"
  shows "rc = -1 \<and> io = None \<and> ok resp' = 0 \<and> resp_exit_code resp' = -1
    \<and> open_fds w' = open_fds w \<and> heap w' = heap w \<and> producers w' = producers w
    \<and> monitor w' = monitor w \<and> length (containers w') = length (containers w)
    \<and> (\<forall>j < length (containers w). used (containers w' ! j) = used (containers w ! j)
         \<and> (used (containers w ! j) \<longrightarrow> containers w' ! j = containers w ! j))
    \<and> (children w' = children w \<and> signals w' = signals w
       \<or> (\<exists>p r wr. clone_res env = Inr p \<and> pipe_res env = Inr (r, wr) \<and> parg_res env = None
            \<and> children w' = (children w)(p \<mapsto> child_arg_of req wr)
            \<and> signals w' = signals w @ [(p, SIGKILL)]))"
proof (cases "start_reserve req (now env) (containers w)")
  case (Inl msg)
  with assms(2) show ?thesis
    by (auto simp: start_refused)
next
  case (Inr r)
  obtain idx cs where r: "r = (idx, cs)"
    by (cases r)
  note res = Inr [unfolded r]
  have bad: "\<not> calls_succeed env"
    using assms(1,2,3) by (cases rule: start_containers) (auto simp: res)
  note u = start_unwinds [OF res assms(1) bad assms(2)]
  note s = start_reserve_Inr [OF res]
  have slots: "length (containers w') = length (containers w)
    \<and> (\<forall>j < length (containers w). used (containers w' ! j) = used (containers w ! j)
         \<and> (used (containers w ! j) \<longrightarrow> containers w' ! j = containers w ! j))"
    unfolding u(5) s(3) using release_reserved [OF s(1,2)] by (simp add: release_slot_def)
  show ?thesis
    using u slots by blast
qed

definition failing_env :: start_env where
  "failing_env = example_env\<lparr>parg_res := None\<rparr>"

theorem start_failure_unwinds_witness:
  "case start_container_internal failing_env example_request init_response example_world of
     (rc, io, resp', w') \<Rightarrow> open_fds w' = {0, 1, 2} \<and> heap w' = {} \<and> signals w' = [(4242, SIGKILL)]"
proof -
  obtain rc io resp' w' where run: "start_container_internal failing_env example_request
      init_response example_world = (rc, io, resp', w')"
    by (cases "start_container_internal failing_env example_request init_response example_world")
  have sel: "pipe_res failing_env = Inr (5, 6)" "stack_res failing_env = Some 100"
    "child_res failing_env = Some 200" "clone_res failing_env = Inr 4242"
    "parg_res failing_env = None" "signals example_world = []"
    by (simp_all add: failing_env_def example_env_def example_world_def)
  have out: "rc = -1" "signals w' = [(4242, SIGKILL)]"
    using run by (auto simp: start_container_internal_def example_reserve_world sel Let_def
        start_failed_def table_simps)
  have "env_fresh failing_env example_world"
    by (simp add: env_fresh_def failing_env_def example_env_def example_world_def)
  from start_failure_unwinds [OF this run] out run show ?thesis
    by (simp add: example_world_def)
qed


lemma start_registers:
  assumes "env_fresh env w" "start_container_internal env req resp w = (0, io, resp', w')"
    "clone_res env = Inr p"
  shows "monitor w' = snd (register_container_with_kernel (device env) p (req_soft_mib req)
    (req_hard_mib req) (monitor w))"
proof -
  from assms(1,2) obtain idx cs where res: "start_reserve req (now env) (containers w) = Inr (idx, cs)"
    and "calls_succeed env"
    by (cases rule: start_containers) auto
  then obtain rfd wfd stack child q parg where good: "pipe_res env = Inr (rfd, wfd)"
    "stack_res env = Some stack" "child_res env = Some child" "clone_res env = Inr q"
    "parg_res env = Some parg"
    using calls_succeedE by blast
  show ?thesis
    using start_succeeds(8) [OF res assms(1) good assms(2)] good(4) assms(3) by simp
qed

lemma example_run:
  obtains io resp' w' where "start_container_internal example_env example_request init_response
    example_world = (0, io, resp', w')"
proof -
  obtain rc io resp' w' where run: "start_container_internal example_env example_request
      init_response example_world = (rc, io, resp', w')"
    by (cases "start_container_internal example_env example_request init_response example_world")
  have "calls_succeed example_env"
    by (simp add: calls_succeed_def example_env_def)
  with example_env_fresh run have "rc = 0"
    by (cases rule: start_containers) (simp_all add: example_reserve_world)
  with run that show ?thesis by blast
qed



section \<open>Stopping\<close>

lemma live_by_id:
  assumes "table_ok cs" "j < length cs" "live (cs ! j)"
  shows "find_container_by_id_locked cs (cid (cs ! j)) = Some j" "is_live_state (state (cs ! j))"
  using assms find_container_by_id_eq [OF assms(1,2)] by (simp_all add: live_def)

lemma stop_live:
  assumes "table_ok (containers w)" "j < length (containers w)" "live (containers w ! j)"
    "cid (containers w ! j) = i" "stop_container_by_id err i resp w = (rc, resp', w')"
  shows "rc = (if err = None then 0 else -1)" "ok resp' = (if err = None then 1 else 0)"
    "w' = w\<lparr>containers := (containers w)[j := (containers w ! j)\<lparr>stop_requested := True\<rparr>],
       signals := signals w @ [(pid (containers w ! j), SIGTERM)]\<rparr>"
  using assms(5) live_by_id [OF assms(1-3)] unfolding assms(4)
  by (auto simp: stop_container_by_id_def Let_def table_simps split: option.splits)

lemma stop_not_live:
  assumes "\<And>c. c \<in> set (containers w) \<Longrightarrow> live c \<Longrightarrow> cid c \<noteq> i"
    "stop_container_by_id err i resp w = (rc, resp', w')"
  shows "rc = -1" "ok resp' = 0" "w' = w"
proof -
  have "\<not> is_live_state (state (containers w ! j))"
    if "find_container_by_id_locked (containers w) i = Some j" for j
    using find_container_by_id_SomeD [OF that] assms(1) [of "containers w ! j"]
    by (auto simp: live_def)
  then show "rc = -1" "ok resp' = 0" "w' = w"
    using assms(2) by (auto simp: stop_container_by_id_def split: option.splits)
qed


definition example_running :: container where
  "example_running = (reserved_slot example_request 1700000000 zero_container)
     \<lparr>pid := 4242, child_stack := Some 100, state := ''RUNNING''\<rparr>"

definition running_world :: world where
  "running_world = example_world\<lparr>containers := init_containers[0 := example_running],
     heap := {100, 200}, open_fds := {0, 1, 2, 5},
     children := [4242 \<mapsto> child_arg_of example_request 6],
     monitor := [\<lparr>me_pid = 4242, soft_limit = 40, hard_limit = 64, soft_warned = False\<rparr>]\<rparr>"

lemma running_world_slot:
  "length (containers running_world) = 10" "containers running_world ! 0 = example_running"
  "live example_running" "cid example_running = ''alpha''" "pid example_running = 4242"
  "used example_running" "child_stack example_running = Some 100"
  "stop_requested example_running = False"
  using reserved_slot_simps [OF example_request_ok, of 1700000000 zero_container]
  by (simp_all add: running_world_def example_running_def init_containers_def c_layout live_def
      example_request_def)

lemma running_world_ok: "table_ok (containers running_world)"
proof -
  have "table_ok (init_containers[0 := reserved_slot example_request 1700000000 zero_container])"
    by (rule start_reserve_ok [OF init_containers_ok example_request_ok start_reserve_init])
  then have "table_ok (start_publish 0 4242 100
      (init_containers[0 := reserved_slot example_request 1700000000 zero_container]))"
    by (rule start_publish_ok)
      (simp_all add: init_containers_def c_layout live_def
        reserved_slot_simps [OF example_request_ok])
  then show ?thesis
    by (simp add: running_world_def example_running_def start_publish_def table_simps
        init_containers_def MAX_CONTAINERS_def)
qed


text \<open>
  Claim C31. A stop request that arrives while a container is still being started is sent to pid
  -1: from the reservation of the slot until the pid is published the container is live with
  pid -1, and \<^verbatim>\<open>kill(-1, SIGTERM)\<close> addresses every process the supervisor may signal, not the
  container.
\<close>

theorem stop_while_starting:
  assumes "table_ok (containers w)" "request_ok req"
    "start_reserve req t (containers w) = Inr (idx, cs)"
  shows "signals (snd (snd (stop_container_by_id err (req_id req) resp (w\<lparr>containers := cs\<rparr>))))
    = signals w @ [(-1, SIGTERM)]"
proof -
  obtain rc resp' w' where run: "stop_container_by_id err (req_id req) resp (w\<lparr>containers := cs\<rparr>)
      = (rc, resp', w')"
    by (cases "stop_container_by_id err (req_id req) resp (w\<lparr>containers := cs\<rparr>)")
  note r = start_reserve_Inr [OF assms(3)]
  note slot = reserved_slot_simps [OF assms(2), of t "containers w ! idx"]
  have at: "cs ! idx = reserved_slot req t (containers w ! idx)" "idx < length cs"
    using r(1,3) by simp_all
  then have "live (cs ! idx)" "cid (cs ! idx) = req_id req" "pid (cs ! idx) = -1"
    using slot by (simp_all add: live_def)
  then show ?thesis
    using stop_live(3) [of "w\<lparr>containers := cs\<rparr>" idx, OF _ _ _ _ run] run at
      start_reserve_ok [OF assms]
    by simp
qed

theorem stop_while_starting_witness:
  "signals (snd (snd (stop_container_by_id None ''alpha'' init_response
     (example_world\<lparr>containers :=
        init_containers[0 := reserved_slot example_request 5 zero_container]\<rparr>)))) = [(-1, SIGTERM)]"
proof -
  have "start_reserve example_request 5 (containers example_world) =
      Inr (0, init_containers[0 := reserved_slot example_request 5 zero_container])"
    by (simp add: example_world_def start_reserve_init)
  from stop_while_starting [OF example_world_ok example_request_ok this, of None init_response]
  show ?thesis
    by (simp add: example_request_def example_world_def)
qed


section \<open>Reaping\<close>

lemma unregister_with_kernel:
  assumes "monitor_ok es" "dev_open env" "dev_copy env"
  shows "monitor_ok (snd (unregister_container_from_kernel env p es))"
    "monitor_map (snd (unregister_container_from_kernel env p es)) = (monitor_map es)(p := None)"
  using unregister_effect [OF assms(1), of "dev_kmalloc env" p] assms(2,3)
  by (auto simp: unregister_container_from_kernel_def)

lemma reap_child_fields:
  assumes "first_index (\<lambda>c. used c \<and> pid c = p) (containers w) = Some i"
  shows "monitor (reap_child env p st w) = snd (unregister_container_from_kernel env p (monitor w))"
    "heap (reap_child env p st w) = heap w - set_option (child_stack (containers w ! i))"
    "children (reap_child env p st w) = (children w)(p := None)"
    "signals (reap_child env p st w) = signals w" "open_fds (reap_child env p st w) = open_fds w"
    "producers (reap_child env p st w) = producers w"
  using assms
  by (auto simp: reap_child_def Let_def world_ops split: option.splits)

lemma reap_unknown:
  assumes "\<forall>c \<in> set (containers w). used c \<longrightarrow> pid c \<noteq> p"
  shows "reap_child env p st w = w\<lparr>children := (children w)(p := None)\<rparr>"
  using assms first_index_None [of "\<lambda>c. used c \<and> pid c = p" "containers w"]
  by (simp add: reap_child_def)

definition pid_unique :: "container list \<Rightarrow> nat \<Rightarrow> bool" where
  "pid_unique cs i \<longleftrightarrow> i < length cs \<and> used (cs ! i)
     \<and> (\<forall>j < length cs. used (cs ! j) \<longrightarrow> pid (cs ! j) = pid (cs ! i) \<longrightarrow> j = i)"

lemma pid_unique_index:
  "pid_unique cs i \<Longrightarrow> first_index (\<lambda>c. used c \<and> pid c = pid (cs ! i)) cs = Some i"
  by (rule first_index_unique) (auto simp: pid_unique_def)

text \<open>
  Claim C24. Reaping a container, when no other tracked container has its pid, ends exactly that
  container: its slot takes a terminal state and loses its stack, which is freed; every other
  slot is unchanged; the kernel module no longer has an entry for the pid, and keeps all its
  other entries; no signal is sent.
\<close>

theorem reap_effect:
  assumes "pid_unique (containers w) i" "monitor_ok (monitor w)" "dev_open env" "dev_copy env"
  shows "containers (reap_child env (pid (containers w ! i)) st w)
      = (containers w)[i := (reaped_slot st (containers w ! i))\<lparr>child_stack := None\<rparr>]
    \<and> \<not> live (containers (reap_child env (pid (containers w ! i)) st w) ! i)
    \<and> heap (reap_child env (pid (containers w ! i)) st w)
      = heap w - set_option (child_stack (containers w ! i))
    \<and> monitor_ok (monitor (reap_child env (pid (containers w ! i)) st w))
    \<and> monitor_map (monitor (reap_child env (pid (containers w ! i)) st w))
      = (monitor_map (monitor w))(pid (containers w ! i) := None)
    \<and> children (reap_child env (pid (containers w ! i)) st w)
      = (children w)(pid (containers w ! i) := None)
    \<and> signals (reap_child env (pid (containers w ! i)) st w) = signals w"
proof -
  note idx = pid_unique_index [OF assms(1)]
  have slots: "containers (reap_child env (pid (containers w ! i)) st w)
      = (containers w)[i := (reaped_slot st (containers w ! i))\<lparr>child_stack := None\<rparr>]"
    by (simp add: reap_child_containers idx)
  moreover have "i < length (containers w)"
    using assms(1) by (simp add: pid_unique_def)
  ultimately have "\<not> live (containers (reap_child env (pid (containers w ! i)) st w) ! i)"
    by (simp add: live_def)
  then show ?thesis
    unfolding reap_child_fields [OF idx]
    using slots unregister_with_kernel [OF assms(2-4)] by simp
qed

lemma running_world_pid_unique: "pid_unique (containers running_world) 0"
proof -
  have "j = 0" if "j < 10" "used (containers running_world ! j)" for j
    using that by (cases j) (simp_all add: running_world_def init_containers_def c_layout
        zero_container_def)
  then show ?thesis
    using running_world_slot by (simp add: pid_unique_def)
qed

lemma running_world_monitor: "monitor_ok (monitor running_world)"
  by (simp add: running_world_def monitor_ok_def)

definition example_device :: device_env where
  "example_device = \<lparr>dev_open = True, dev_copy = True, dev_kmalloc = True\<rparr>"

theorem reap_effect_witness:
  "heap (reap_child example_device 4242 (exited_status 0) running_world) = {200}
   \<and> monitor_map (monitor (reap_child example_device 4242 (exited_status 0) running_world)) 4242
       = None"
proof -
  have "dev_open example_device" "dev_copy example_device" "heap running_world = {100, 200}"
    by (simp_all add: example_device_def running_world_def)
  then show ?thesis
    using reap_effect [OF running_world_pid_unique running_world_monitor, of example_device
        "exited_status 0"]
    by (simp add: running_world_slot)
qed

text \<open>
  Claim C26. A requested stop is reported as a stop: if stop was accepted for a live container
  and no other tracked container has its pid, then whatever status the container ends with,
  the reaper records the state STOPPED for it.
\<close>

theorem stop_then_reap:
  assumes "table_ok (containers w)" "pid_unique (containers w) j" "live (containers w ! j)"
    "stop_container_by_id err (cid (containers w ! j)) resp w = (rc, resp', w')"
  shows "state (containers (reap_child env (pid (containers w ! j)) st w') ! j) = ''STOPPED''"
proof -
  have j: "j < length (containers w)"
    using assms(2) by (simp add: pid_unique_def)
  let ?c = "(containers w ! j)\<lparr>stop_requested := True\<rparr>"
  have w': "containers w' = (containers w)[j := ?c]"
    using stop_live(3) [OF assms(1) j assms(3) refl assms(4)] by simp
  have "pid_unique (containers w') j" "containers w' ! j = ?c"
    using assms(2) j by (auto simp: w' pid_unique_def nth_list_update_cases)
  then have "containers (reap_child env (pid (containers w ! j)) st w') ! j
      = (reaped_slot st ?c)\<lparr>child_stack := None\<rparr>"
    using pid_unique_index [of "containers w'" j] j by (simp add: reap_child_containers w')
  then show ?thesis
    by (simp add: reaped_slot_def table_simps)
qed

theorem stop_then_reap_witness:
  "case stop_container_by_id None ''alpha'' init_response running_world of (rc, resp', w') \<Rightarrow>
     state (containers (reap_child example_device 4242 (signaled_status 15 False) w') ! 0)
       = ''STOPPED''"
proof -
  obtain rc resp' w' where run: "stop_container_by_id None ''alpha'' init_response running_world
      = (rc, resp', w')"
    by (cases "stop_container_by_id None ''alpha'' init_response running_world")
  have run': "stop_container_by_id None (cid (containers running_world ! 0)) init_response
      running_world = (rc, resp', w')" and "live (containers running_world ! 0)"
    using run by (simp_all add: running_world_slot)
  from stop_then_reap [OF running_world_ok running_world_pid_unique this(2) run',
      of example_device "signaled_status 15 False"]
  show ?thesis
    by (simp add: run running_world_slot)
qed


section \<open>The child\<close>

text \<open>
  Claim C27. The child runs the command of the container only inside its root file system: the
  command is executed only if \<^verbatim>\<open>chroot\<close> to the root file system and the following
  \<^verbatim>\<open>chdir\<close> both succeeded, after them in that order, and with standard output and standard
  error redirected to the pipe before. If it does not get there the child ends with status 1,
  and with status 127 if the shell could not be executed.
\<close>

theorem child_runs_isolated:
  assumes "0 \<le> ch_write_fd child"
  shows "(case child_main env child of (acts, status) \<Rightarrow>
      status = (if \<not> chroot_ok env \<or> \<not> chdir_ok env then Some 1
                else if \<not> exec_ok env then Some 127 else None)
      \<and> (\<forall>cmd. Exec_shell cmd \<in> set acts \<longrightarrow> chroot_ok env \<and> chdir_ok env
           \<and> cmd = ch_command child
           \<and> (\<exists>as bs cs ds. acts = as @ Chroot (ch_rootfs child) # bs @ Chdir_root # cs
                   @ Exec_shell cmd # ds
                \<and> Dup2 (ch_write_fd child) 1 \<in> set as \<and> Dup2 (ch_write_fd child) 2 \<in> set as)))"
proof (cases "chroot_ok env \<and> chdir_ok env")
  case False
  then show ?thesis
    by (auto simp: child_main_def Let_def split: if_splits)
next
  case True
  define as where "as = [Dup2 (ch_write_fd child) 1, Dup2 (ch_write_fd child) 2,
      Close_fd (ch_write_fd child)] @ Open_devnull # (if 0 \<le> devnull_fd env
        then [Dup2 (devnull_fd env) 0, Close_fd (devnull_fd env)] else [])
      @ [Unbuffer_output, Sethostname (ch_id child), Mount_private]"
  define cs where "cs = [Mkdir_proc, Mount_proc]
      @ (if mount_ok env then [] else [Perror ''mount /proc failed''])
      @ (if ch_nice_value child \<noteq> 0 then [Setpriority (ch_nice_value child)] else [])
      @ [Print (''Container '' @ ch_id child @ '' started inside isolated rootfs'' @ [CHR 0x0A])]"
  define ds where "ds = (if exec_ok env then [] else [Perror ''exec failed''])"
  have run: "child_main env child = (as @ Chroot (ch_rootfs child) # [] @ Chdir_root # cs
      @ Exec_shell (ch_command child) # ds, if exec_ok env then None else Some 127)"
    using True assms by (simp add: child_main_def Let_def as_def cs_def ds_def)
  have "Exec_shell cmd \<notin> set as" "Exec_shell cmd \<notin> set cs" "Exec_shell cmd \<notin> set ds" for cmd
    by (simp_all add: as_def cs_def ds_def)
  moreover have "\<exists>as' bs' cs' ds'. fst (child_main env child)
      = as' @ Chroot (ch_rootfs child) # bs' @ Chdir_root # cs' @ Exec_shell (ch_command child) # ds'
      \<and> Dup2 (ch_write_fd child) 1 \<in> set as' \<and> Dup2 (ch_write_fd child) 2 \<in> set as'"
    unfolding run
    by (intro exI [of _ as] exI [of _ "[]"] exI [of _ cs] exI [of _ ds]) (simp add: as_def)
  ultimately show ?thesis
    unfolding run using True by simp
qed

theorem child_runs_isolated_witness:
  "snd (child_main \<lparr>devnull_fd = 3, chroot_ok = True, chdir_ok = True, mount_ok = False,
     exec_ok = False\<rparr> (child_arg_of example_request 6)) = Some 127"
  using child_runs_isolated [of "child_arg_of example_request 6"
      "\<lparr>devnull_fd = 3, chroot_ok = True, chdir_ok = True, mount_ok = False, exec_ok = False\<rparr>"]
  by (auto simp: child_arg_of_def split: prod.splits)

end
