(* ===== verification/Transition.thy ===== *)
theory Transition
  imports Prelude
begin

text \<open>
  Runs of a labelled transition system and the contract that makes a predicate an invariant of
  all its runs. The concurrent parts of the supervisor (logging threads, container life cycle)
  are such systems: one step is one critical section or one system call of one thread, and a
  run is an interleaving of them. \<open>allowed\<close> restricts the labels, that is, what the
  environment does.
\<close>

inductive lts_run :: "('s \<Rightarrow> 'l \<Rightarrow> 's \<Rightarrow> bool) \<Rightarrow> 's \<Rightarrow> 'l list \<Rightarrow> 's \<Rightarrow> bool" for step where
  run_Nil: "lts_run step s [] s"
| run_snoc: "lts_run step s ls t \<Longrightarrow> step t l u \<Longrightarrow> lts_run step s (ls @ [l]) u"

lemma lts_run_append:
  assumes "lts_run step s ls t" "lts_run step t ms u"
  shows "lts_run step s (ls @ ms) u"
  using assms(2,1)
proof (induction rule: lts_run.induct)
  case (run_snoc t ls' u l v)
  then show ?case
    using lts_run.run_snoc [of step s "ls @ ls'" u l v] by simp
qed simp

lemma lts_run_single: "step s l t \<Longrightarrow> lts_run step s [l] t"
  using run_snoc [OF run_Nil] by force

lemma lts_run_Cons:
  assumes "step s l t" "lts_run step t ls u"
  shows "lts_run step s (l # ls) u"
  using lts_run_append [OF lts_run_single [of step, OF assms(1)] assms(2)] by simp

locale invariant_system =
  fixes start :: "'s \<Rightarrow> bool"
    and step :: "'s \<Rightarrow> 'l \<Rightarrow> 's \<Rightarrow> bool"
    and allowed :: "'l \<Rightarrow> bool"
    and inv :: "'s \<Rightarrow> bool"
  assumes start_inv: "start s \<Longrightarrow> inv s"
    and step_inv: "inv s \<Longrightarrow> step s l t \<Longrightarrow> allowed l \<Longrightarrow> inv t"
begin

lemma run_inv:
  assumes "lts_run step s ls t" "start s" "\<forall>l \<in> set ls. allowed l"
  shows "inv t"
  using assms
  by (induction rule: lts_run.induct) (auto intro: start_inv step_inv)

end

text \<open>
  A system whose states are mapped to those of a more abstract one: a step is either invisible
  there or one of its steps. Every run then maps to a run of the abstract system, so that what
  holds of all abstract runs holds of all concrete ones.
\<close>

locale simulation = invariant_system start step allowed inv
  for start :: "'s \<Rightarrow> bool"
    and step :: "'s \<Rightarrow> 'l \<Rightarrow> 's \<Rightarrow> bool"
    and allowed :: "'l \<Rightarrow> bool"
    and inv :: "'s \<Rightarrow> bool" +
  fixes astep :: "'a \<Rightarrow> 'k \<Rightarrow> 'a \<Rightarrow> bool"
    and absf :: "'s \<Rightarrow> 'a"
  assumes abs_step: "inv s \<Longrightarrow> step s l t \<Longrightarrow> allowed l \<Longrightarrow>
    absf t = absf s \<or> (\<exists>k. astep (absf s) k (absf t))"
begin

lemma run_abs:
  assumes "lts_run step s ls t" "start s" "\<forall>l \<in> set ls. allowed l"
  shows "\<exists>ks. lts_run astep (absf s) ks (absf t) \<and> length ks \<le> length ls"
  using assms
proof (induction rule: lts_run.induct)
  case (run_Nil s)
  show ?case using lts_run.run_Nil by fastforce
next
  case (run_snoc s ls t l u)
  then obtain ks where ks: "lts_run astep (absf s) ks (absf t)" "length ks \<le> length ls"
    by auto
  have "inv t"
    using run_inv [OF run_snoc.hyps(1)] run_snoc.prems by simp
  then consider "absf u = absf t" | k where "astep (absf t) k (absf u)"
    using abs_step run_snoc.hyps(2) run_snoc.prems by (metis in_set_conv_decomp)
  then show ?case
  proof cases
    case 1
    with ks show ?thesis by (auto intro: exI [of _ ks])
  next
    case 2
    with ks show ?thesis
      using lts_run.run_snoc [OF ks(1) 2] by (auto intro!: exI [of _ "ks @ [k]"])
  qed
qed

end

end
