(* ===== verification/Supervisor.thy ===== *)
theory Supervisor
  imports Lifecycle_Properties Transition
begin

text \<open>
  The supervisor under concurrency. Client threads run \<^verbatim>\<open>start_container_internal\<close>,
  \<^verbatim>\<open>stop_container_by_id\<close> and the final \<^verbatim>\<open>stop_all_live_containers\<close> while the reaper thread
  collects children. A start is not atomic: it holds \<^verbatim>\<open>containers_mutex\<close> to reserve a slot and
  again to release it or to publish the pid, and clones the child in between. A step of the
  system is one such critical section, one \<^verbatim>\<open>clone\<close>, or one turn of the reaper; \<open>starting\<close>
  lists the starts under way.
\<close>


section \<open>Steps\<close>

datatype start_pc = Reserved nat | Cloned nat pid_t

fun pc_slot :: "start_pc \<Rightarrow> nat" where
  "pc_slot (Reserved idx) = idx"
| "pc_slot (Cloned idx p) = idx"

record sup_state =
  world_of :: world
  starting :: "start_pc list"
  registering :: "(pid_t \<times> i32 \<times> i32) list"

datatype sup_label =
    Sup_reserve request int
  | Sup_refuse request int
  | Sup_abort nat
  | Sup_clone nat pid_t child_arg
  | Sup_kill nat
  | Sup_publish nat addr i32 i32
  | Sup_register nat device_env
  | Sup_stop string "string option"
  | Sup_stop_all
  | Sup_reap pid_t i32 device_env

definition sup_init :: sup_state where
  "sup_init = \<lparr>world_of = \<lparr>containers = init_containers, open_fds = {}, heap = {},
     children = Map.empty, signals = [], producers = [], monitor = []\<rparr>, starting = [],
     registering = []\<rparr>"

definition drop_nth :: "nat \<Rightarrow> 'a list \<Rightarrow> 'a list" where
  "drop_nth k xs = take k xs @ drop (Suc k) xs"

definition with_containers :: "container list \<Rightarrow> world \<Rightarrow> world" where
  "with_containers cs w = w\<lparr>containers := cs\<rparr>"

inductive sup_step :: "sup_state \<Rightarrow> sup_label \<Rightarrow> sup_state \<Rightarrow> bool" where
  reserve: "request_ok req \<Longrightarrow> start_reserve req t (containers (world_of s)) = Inr (idx, cs) \<Longrightarrow>
    sup_step s (Sup_reserve req t) (s\<lparr>world_of := with_containers cs (world_of s),
      starting := starting s @ [Reserved idx]\<rparr>)"
| refuse: "start_reserve req t (containers (world_of s)) = Inl msg \<Longrightarrow> sup_step s (Sup_refuse req t) s"
| abort: "k < length (starting s) \<Longrightarrow> starting s ! k = Reserved idx \<Longrightarrow>
    sup_step s (Sup_abort k) (s\<lparr>world_of :=
        with_containers (release_slot idx (containers (world_of s))) (world_of s),
      starting := drop_nth k (starting s)\<rparr>)"
| clone: "k < length (starting s) \<Longrightarrow> starting s ! k = Reserved idx \<Longrightarrow> 0 < sint p \<Longrightarrow>
    children (world_of s) p = None \<Longrightarrow>
    sup_step s (Sup_clone k p ch) (s\<lparr>world_of :=
        (world_of s)\<lparr>children := (children (world_of s))(p \<mapsto> ch)\<rparr>,
      starting := (starting s)[k := Cloned idx p]\<rparr>)"
| kill: "k < length (starting s) \<Longrightarrow> starting s ! k = Cloned idx p \<Longrightarrow>
    sup_step s (Sup_kill k) (s\<lparr>world_of :=
        with_containers (release_slot idx (containers (world_of s)))
          (send_signal p SIGKILL (world_of s)),
      starting := drop_nth k (starting s)\<rparr>)"
| publish: "k < length (starting s) \<Longrightarrow> starting s ! k = Cloned idx p \<Longrightarrow>
    sup_step s (Sup_publish k stack soft hard) (s\<lparr>world_of :=
        with_containers (start_publish idx p stack (containers (world_of s))) (world_of s),
      starting := drop_nth k (starting s),
      registering := registering s @ [(p, soft, hard)]\<rparr>)"
| register: "k < length (registering s) \<Longrightarrow> registering s ! k = (p, soft, hard) \<Longrightarrow>
    sup_step s (Sup_register k env) (s\<lparr>world_of := (world_of s)
        \<lparr>monitor := snd (register_container_with_kernel env p soft hard (monitor (world_of s)))\<rparr>,
      registering := drop_nth k (registering s)\<rparr>)"
| stop: "stop_container_by_id err i resp (world_of s) = (rc, resp', w) \<Longrightarrow>
    sup_step s (Sup_stop i err) (s\<lparr>world_of := w\<rparr>)"
| stop_all: "sup_step s Sup_stop_all (s\<lparr>world_of := stop_all_live_containers (world_of s)\<rparr>)"
| reap: "children (world_of s) p \<noteq> None \<Longrightarrow> 0 < sint p \<Longrightarrow>
    sup_step s (Sup_reap p st env) (s\<lparr>world_of := reap_child env p st (world_of s)\<rparr>)"

inductive_cases sup_reapE: "sup_step s (Sup_reap p st env) s'"


section \<open>The invariant\<close>

text \<open>Each start under way owns a slot in state STARTING with pid -1, and no two own the same.\<close>

definition owns :: "container list \<Rightarrow> nat \<Rightarrow> bool" where
  "owns cs idx \<longleftrightarrow> idx < length cs \<and> used (cs ! idx) \<and> state (cs ! idx) = ''STARTING''
     \<and> pid (cs ! idx) = -1"

definition sup_inv :: "sup_state \<Rightarrow> bool" where
  "sup_inv s \<longleftrightarrow> table_ok (containers (world_of s)) \<and> distinct (map pc_slot (starting s))
     \<and> (\<forall>x \<in> set (starting s). owns (containers (world_of s)) (pc_slot x))"

lemma containers_with [simp]: "containers (with_containers cs w) = cs"
  "children (with_containers cs w) = children w" "monitor (with_containers cs w) = monitor w"
  by (simp_all add: with_containers_def)

lemma containers_send [simp]: "containers (send_signal p g w) = containers w"
  "children (send_signal p g w) = children w"
  by (simp_all add: send_signal_def)

lemma drop_nth_split:
  assumes "k < length xs"
  obtains as bs where "xs = as @ xs ! k # bs" "drop_nth k xs = as @ bs"
  using id_take_nth_drop [OF assms] that by (simp add: drop_nth_def)

lemma set_drop_nth: "set (drop_nth k xs) \<subseteq> set xs"
  unfolding drop_nth_def by (auto dest: in_set_takeD in_set_dropD)

lemma drop_nth_distinct:
  assumes "distinct (map f xs)" "k < length xs"
  shows "distinct (map f (drop_nth k xs))" "x \<in> set (drop_nth k xs) \<Longrightarrow> f x \<noteq> f (xs ! k)"
proof -
  obtain as bs where xs: "xs = as @ xs ! k # bs" "drop_nth k xs = as @ bs"
    using assms(2) by (rule drop_nth_split)
  have "distinct (map f (as @ xs ! k # bs))"
    using assms(1) xs(1) by metis
  then show "distinct (map f (drop_nth k xs))" "x \<in> set (drop_nth k xs) \<Longrightarrow> f x \<noteq> f (xs ! k)"
    unfolding xs(2) by (auto, (metis imageI)+)
qed

lemma pc_slot_clone:
  "k < length ps \<Longrightarrow> ps ! k = Reserved idx \<Longrightarrow> map pc_slot (ps[k := Cloned idx p]) = map pc_slot ps"
  by (metis list_update_id map_update pc_slot.simps)

lemma owns_other: "owns cs i \<Longrightarrow> i \<noteq> j \<Longrightarrow> owns (cs[j := c]) i"
  by (simp add: owns_def)

lemma owns_reserved: "request_ok req \<Longrightarrow> i < length cs \<Longrightarrow> owns (cs[i := reserved_slot req t (cs ! i)]) i"
  by (simp add: owns_def reserved_slot_simps)

lemma sint_minus_1: "\<not> 0 < sint (-1 :: pid_t)"
  by simp


lemma owned_release:
  assumes "sup_inv s" "k < length (starting s)" "x \<in> set (drop_nth k (starting s))"
  shows "owns (containers (world_of s)) (pc_slot x)" "pc_slot x \<noteq> pc_slot (starting s ! k)"
  using assms set_drop_nth [of k "starting s"] drop_nth_distinct(2) [of pc_slot "starting s" k x]
  by (auto simp: sup_inv_def)

lemma owned_thread:
  assumes "sup_inv s" "k < length (starting s)" "pc_slot (starting s ! k) = idx"
  shows "owns (containers (world_of s)) idx"
  using assms nth_mem [OF assms(2)] by (auto simp: sup_inv_def)

lemma sup_inv_release:
  assumes "sup_inv s" "k < length (starting s)" "pc_slot (starting s ! k) = idx"
    "containers w = release_slot idx (containers (world_of s))"
  shows "sup_inv (s\<lparr>world_of := w, starting := drop_nth k (starting s), registering := rs\<rparr>)"
proof -
  have "table_ok (containers w)"
    using assms owned_thread [OF assms(1-3)] by (auto simp: sup_inv_def owns_def release_slot_ok)
  moreover have "owns (containers w) (pc_slot x)" if "x \<in> set (drop_nth k (starting s))" for x
    using owned_release [OF assms(1,2) that] assms(3,4) by (simp add: release_slot_def owns_other)
  ultimately show ?thesis
    using assms(1,2) drop_nth_distinct(1) [of pc_slot "starting s" k] by (simp add: sup_inv_def)
qed

lemma owns_map:
  assumes "owns cs i" "length cs' = length cs"
    "used (cs' ! i) = used (cs ! i)" "state (cs' ! i) = state (cs ! i)" "pid (cs' ! i) = pid (cs ! i)"
  shows "owns cs' i"
  using assms by (simp add: owns_def)

lemma stop_slots:
  assumes "stop_container_by_id err i resp w = (rc, resp', w')"
  shows "length (containers w') = length (containers w)" "children w' = children w"
    "used (containers w' ! j) = used (containers w ! j)" "cid (containers w' ! j) = cid (containers w ! j)"
    "state (containers w' ! j) = state (containers w ! j)" "pid (containers w' ! j) = pid (containers w ! j)"
  using assms find_container_by_id_SomeD(1) [of "containers w" i]
  by (auto simp: stop_container_by_id_def Let_def table_simps nth_list_update_cases
      split: option.splits if_splits)

lemma stop_all_slots:
  shows "length (containers (stop_all_live_containers w)) = length (containers w)"
    "children (stop_all_live_containers w) = children w"
    "j < length (containers w) \<Longrightarrow> used (containers (stop_all_live_containers w) ! j) = used (containers w ! j)
     \<and> cid (containers (stop_all_live_containers w) ! j) = cid (containers w ! j)
     \<and> state (containers (stop_all_live_containers w) ! j) = state (containers w ! j)
     \<and> pid (containers (stop_all_live_containers w) ! j) = pid (containers w ! j)"
  by (simp_all add: stop_all_live_containers_def case_prod_beta stop_live_slots_fst)

lemma reap_slots:
  shows "length (containers (reap_child env p st w)) = length (containers w)"
    "children (reap_child env p st w) = (children w)(p := None)"
    "pid (containers w ! j) \<noteq> p \<Longrightarrow> containers (reap_child env p st w) ! j = containers w ! j"
    "used (containers (reap_child env p st w) ! j) = used (containers w ! j)"
    "cid (containers (reap_child env p st w) ! j) = cid (containers w ! j)"
    "pid (containers (reap_child env p st w) ! j) = pid (containers w ! j)"
proof -
  let ?i = "first_index (\<lambda>c. used c \<and> pid c = p) (containers w)"
  show "children (reap_child env p st w) = (children w)(p := None)"
    by (cases ?i) (auto simp: reap_child_fields, simp add: reap_child_def)
  show "length (containers (reap_child env p st w)) = length (containers w)"
    "pid (containers w ! j) \<noteq> p \<Longrightarrow> containers (reap_child env p st w) ! j = containers w ! j"
    "used (containers (reap_child env p st w) ! j) = used (containers w ! j)"
    "cid (containers (reap_child env p st w) ! j) = cid (containers w ! j)"
    "pid (containers (reap_child env p st w) ! j) = pid (containers w ! j)"
    by (auto simp: reap_child_containers nth_list_update first_index_Some split: option.splits)
qed


lemma sup_inv_same:
  assumes "sup_inv s" "table_ok (containers w)" "length (containers w) = length (containers (world_of s))"
    "\<And>j. owns (containers (world_of s)) j \<Longrightarrow> used (containers w ! j)
       \<and> state (containers w ! j) = ''STARTING'' \<and> pid (containers w ! j) = -1"
  shows "sup_inv (s\<lparr>world_of := w\<rparr>)"
proof -
  have "owns (containers w) j" if "owns (containers (world_of s)) j" for j
    using assms(3) assms(4) [OF that] that by (simp add: owns_def)
  with assms(1,2) show ?thesis
    by (auto simp: sup_inv_def)
qed

lemma sup_inv_step:
  assumes "sup_step s l s'" "sup_inv s"
  shows "sup_inv s'"
  using assms
proof (cases rule: sup_step.cases)
  case (reserve req t idx cs)
  note r = start_reserve_Inr [OF reserve(4)]
  have "table_ok cs"
    using assms(2) start_reserve_ok [OF _ reserve(3,4)] by (simp add: sup_inv_def)
  moreover have other: "pc_slot x \<noteq> idx" "owns (containers (world_of s)) (pc_slot x)"
    if "x \<in> set (starting s)" for x
    using that assms(2) r(2) by (auto simp: sup_inv_def owns_def)
  moreover have "owns cs (pc_slot x)" if "x \<in> set (starting s)" for x
    unfolding r(3) using other [OF that] by (simp add: owns_other)
  moreover have "owns cs idx"
    unfolding r(3) using reserve(3) r(1) by (rule owns_reserved)
  ultimately show ?thesis
    using assms(2) reserve(2) by (auto simp: sup_inv_def)
next
  case (refuse req t msg)
  with assms(2) show ?thesis by simp
next
  case (abort k idx)
  then show ?thesis
    using sup_inv_release [OF assms(2), of k idx _ "registering s"] by simp
next
  case (clone k idx p ch)
  then show ?thesis
    using assms(2) pc_slot_clone [OF clone(3,4), of p] owned_thread [OF assms(2) clone(3), of idx]
    by (auto simp: sup_inv_def dest!: set_update_subset_cases)
next
  case (kill k idx p)
  then show ?thesis
    using sup_inv_release [OF assms(2), of k idx _ "registering s"] by simp
next
  case (publish k idx p stack soft hard)
  have own: "owns (containers (world_of s)) idx"
    using owned_thread [OF assms(2) publish(3)] publish(4) by simp
  then have "table_ok (start_publish idx p stack (containers (world_of s)))"
    using assms(2) by (intro start_publish_ok) (simp_all add: sup_inv_def owns_def live_def)
  moreover have "owns (start_publish idx p stack (containers (world_of s))) (pc_slot x)"
    if "x \<in> set (drop_nth k (starting s))" for x
    using owned_release [OF assms(2) publish(3) that] publish(4)
    by (simp add: start_publish_def owns_other)
  ultimately show ?thesis
    using assms(2) publish(2) drop_nth_distinct(1) [of pc_slot "starting s" k] publish(3)
    by (simp add: sup_inv_def)
next
  case (register k p soft hard env)
  with assms(2) show ?thesis by (simp add: sup_inv_def)
next
  case (stop err i resp rc resp' w)
  have "table_ok (containers w)"
    using assms(2) stop_container_ok [OF _ stop(3)] by (simp add: sup_inv_def)
  then show ?thesis
    unfolding stop(2) using stop_slots [OF stop(3)]
    by (intro sup_inv_same [OF assms(2)]) (simp_all add: owns_def)
next
  case stop_all
  then show ?thesis
    using stop_all_ok [of "world_of s"] stop_all_slots(1,3) [where w = "world_of s"] assms(2)
    by (simp, intro sup_inv_same [OF assms(2)]) (simp_all add: owns_def sup_inv_def)
next
  case (reap p st env)
  have "table_ok (containers (reap_child env p st (world_of s)))"
    using assms(2) reap_child_ok by (simp add: sup_inv_def)
  moreover have "containers (reap_child env p st (world_of s)) ! j = containers (world_of s) ! j"
    if "owns (containers (world_of s)) j" for j
    using that reap(4) by (intro reap_slots(3)) (auto simp: owns_def)
  ultimately show ?thesis
    unfolding reap(2) using reap_slots(1)
    by (intro sup_inv_same [OF assms(2)]) (simp_all add: owns_def)
qed

lemma sup_inv_init: "sup_inv sup_init"
  by (simp add: sup_inv_def sup_init_def init_containers_ok)

interpretation sup: invariant_system "\<lambda>s. s = sup_init" sup_step "\<lambda>l. True" sup_inv
  by unfold_locales (auto simp: sup_inv_init intro: sup_inv_step)



section \<open>Properties of all interleavings\<close>

text \<open>
  Claim C1. No interleaving of client requests, failing and succeeding starts, stops and reaper
  turns breaks the container table: in every reachable state container ids are unique, no two
  live containers share a root file system, and every start under way owns a slot of its own,
  in state STARTING, that nothing else has changed.
\<close>

theorem supervisor_table_invariant:
  assumes "lts_run sup_step sup_init ls s"
  shows "table_ok (containers (world_of s)) \<and> distinct (map pc_slot (starting s))
    \<and> (\<forall>x \<in> set (starting s). owns (containers (world_of s)) (pc_slot x))"
  using sup.run_inv [OF assms] by (simp add: sup_inv_def)

definition example_child :: child_arg where
  "example_child = child_arg_of example_request 6"

text \<open>The supervisor after the steps of a start of the example container.\<close>

definition sup_after :: "container \<Rightarrow> start_pc list \<Rightarrow> (pid_t \<Rightarrow> child_arg option)
    \<Rightarrow> (pid_t \<times> i32 \<times> i32) list \<Rightarrow> sup_state" where
  "sup_after c ps ch rs = \<lparr>world_of = \<lparr>containers = init_containers[0 := c], open_fds = {},
     heap = {}, children = ch, signals = [], producers = [], monitor = []\<rparr>, starting = ps,
     registering = rs\<rparr>"

definition example_reserved :: container where
  "example_reserved = reserved_slot example_request 1700000000 zero_container"

lemma example_steps:
  "sup_step sup_init (Sup_reserve example_request 1700000000)
     (sup_after example_reserved [Reserved 0] Map.empty [])"
  "sup_step (sup_after example_reserved [Reserved 0] Map.empty []) (Sup_clone 0 4242 example_child)
     (sup_after example_reserved [Cloned 0 4242] [4242 \<mapsto> example_child] [])"
  "sup_step (sup_after example_reserved [Cloned 0 4242] ch []) (Sup_publish 0 100 40 64)
     (sup_after example_running [] ch [(4242, 40, 64)])"
proof -
  show "sup_step sup_init (Sup_reserve example_request 1700000000)
     (sup_after example_reserved [Reserved 0] Map.empty [])"
    using reserve [OF example_request_ok, of 1700000000 sup_init] start_reserve_init
    by (simp add: sup_init_def sup_after_def with_containers_def example_reserved_def)
  show "sup_step (sup_after example_reserved [Reserved 0] Map.empty [])
      (Sup_clone 0 4242 example_child)
      (sup_after example_reserved [Cloned 0 4242] [4242 \<mapsto> example_child] [])"
    using clone [of 0 "sup_after example_reserved [Reserved 0] Map.empty []" 0 4242 example_child]
    by (simp add: sup_after_def)
  have "0 < length init_containers"
    by (simp add: init_containers_def c_layout)
  then show "sup_step (sup_after example_reserved [Cloned 0 4242] ch []) (Sup_publish 0 100 40 64)
     (sup_after example_running [] ch [(4242, 40, 64)])"
    using publish [of 0 "sup_after example_reserved [Cloned 0 4242] ch []" 0 4242 100 40 64]
    by (simp add: sup_after_def with_containers_def start_publish_def drop_nth_def table_simps
        example_running_def example_reserved_def)
qed

theorem supervisor_table_invariant_witness:
  "table_ok (containers (world_of (sup_after example_reserved [Cloned 0 4242]
     [4242 \<mapsto> example_child] [])))"
  using supervisor_table_invariant [OF lts_run_Cons [of sup_step, OF example_steps(1)
      lts_run_single [of sup_step, OF example_steps(2)]]] by simp


text \<open>
  A container whose child is gone while its slot says RUNNING: no turn of the reaper can
  concern it any more, unless the kernel hands out the same pid again.
\<close>

definition orphaned :: "nat \<Rightarrow> pid_t \<Rightarrow> sup_state \<Rightarrow> bool" where
  "orphaned i p s \<longleftrightarrow> sup_inv s \<and> i < length (containers (world_of s))
     \<and> used (containers (world_of s) ! i) \<and> state (containers (world_of s) ! i) = ''RUNNING''
     \<and> pid (containers (world_of s) ! i) = p \<and> children (world_of s) p = None"

fun clones_pid :: "pid_t \<Rightarrow> sup_label \<Rightarrow> bool" where
  "clones_pid p (Sup_clone k q ch) \<longleftrightarrow> p = q"
| "clones_pid p _ \<longleftrightarrow> False"

lemma reaped_slot_not_starting: "state (reaped_slot st c) \<noteq> ''STARTING''"
  using reaped_slot_state [of st c] by auto

text \<open>A slot that no start owns keeps its identity in every step.\<close>

lemma settled_slot:
  assumes "sup_step s l s'" "sup_inv s" "i < length (containers (world_of s))"
    "used (containers (world_of s) ! i)" "state (containers (world_of s) ! i) \<noteq> ''STARTING''"
  shows "length (containers (world_of s')) = length (containers (world_of s))
    \<and> used (containers (world_of s') ! i) \<and> cid (containers (world_of s') ! i) = cid (containers (world_of s) ! i)
    \<and> pid (containers (world_of s') ! i) = pid (containers (world_of s) ! i)
    \<and> (state (containers (world_of s') ! i) = state (containers (world_of s) ! i)
       \<or> state (containers (world_of s') ! i) \<noteq> ''STARTING'' \<and> children (world_of s) (pid (containers (world_of s) ! i)) \<noteq> None)"
  using assms
proof (cases rule: sup_step.cases)
  case (reserve req t idx cs)
  note r = start_reserve_Inr [OF reserve(4)]
  have "idx \<noteq> i"
    using r(2) assms(4) by auto
  then show ?thesis
    using assms reserve(2) by (simp add: r(3))
next
  case (abort k idx)
  have "idx \<noteq> i"
    using owned_thread [OF assms(2) abort(3), of idx] abort(4) assms(5) by (auto simp: owns_def)
  then show ?thesis
    using assms abort(2) by (simp add: release_slot_def)
next
  case (kill k idx p)
  have "idx \<noteq> i"
    using owned_thread [OF assms(2) kill(3), of idx] kill(4) assms(5) by (auto simp: owns_def)
  then show ?thesis
    using assms kill(2) by (simp add: release_slot_def)
next
  case (publish k idx p stack soft hard)
  have "idx \<noteq> i"
    using owned_thread [OF assms(2) publish(3), of idx] publish(4) assms(5) by (auto simp: owns_def)
  then show ?thesis
    using assms publish(2) by (simp add: start_publish_def)
next
  case (stop err x resp rc resp' w)
  then show ?thesis
    using stop_slots [OF stop(3)] assms by simp
next
  case stop_all
  then show ?thesis
    using stop_all_slots(1) [of "world_of s"] stop_all_slots(3) [of i "world_of s"] assms by simp
next
  case (reap p st env)
  have "state (containers (reap_child env p st (world_of s)) ! i) \<noteq> ''STARTING''"
    using reaped_slot_not_starting assms(5)
    by (auto simp: reap_child_containers nth_list_update_cases first_index_Some
        split: option.splits if_splits)
  moreover have "containers (reap_child env p st (world_of s)) ! i = containers (world_of s) ! i
      \<or> children (world_of s) (pid (containers (world_of s) ! i)) \<noteq> None"
    using reap_slots(3) [of "world_of s" i p env st] reap(3)
    by (cases "pid (containers (world_of s) ! i) = p") simp_all
  ultimately show ?thesis
    unfolding reap(2) using assms(4) reap_slots(1,4-6) [of env p st "world_of s"] by auto
qed simp_all

lemma orphaned_step:
  assumes "sup_step s l s'" "orphaned i p s" "\<not> clones_pid p l"
  shows "orphaned i p s'"
proof -
  have s: "sup_inv s" "i < length (containers (world_of s))" "used (containers (world_of s) ! i)"
    "state (containers (world_of s) ! i) = ''RUNNING''" "pid (containers (world_of s) ! i) = p"
    "children (world_of s) p = None"
    using assms(2) by (simp_all add: orphaned_def)
  have "children (world_of s') p = None"
    using assms(1,3) s(6)
    by (cases rule: sup_step.cases) (auto simp: stop_slots stop_all_slots reap_slots)
  moreover have "state (containers (world_of s) ! i) \<noteq> ''STARTING''"
    using s(4) by simp
  ultimately show ?thesis
    using settled_slot [OF assms(1) s(1-3)] sup_inv_step [OF assms(1) s(1)] s
    by (auto simp: orphaned_def)
qed

interpretation orphan: invariant_system "orphaned i p" sup_step "\<lambda>l. \<not> clones_pid p l" "orphaned i p"
  for i p
  by unfold_locales (auto intro: orphaned_step)





definition settled :: "nat \<Rightarrow> string \<Rightarrow> sup_state \<Rightarrow> bool" where
  "settled i x s \<longleftrightarrow> sup_inv s \<and> i < length (containers (world_of s))
     \<and> used (containers (world_of s) ! i) \<and> state (containers (world_of s) ! i) \<noteq> ''STARTING''
     \<and> cid (containers (world_of s) ! i) = x"

interpretation settled_slots: invariant_system "settled i x" sup_step "\<lambda>l. True" "settled i x"
  for i x
proof unfold_locales
  fix s l t
  assume "settled i x s" "sup_step s l t"
  then show "settled i x t"
    using settled_slot [of s l t i] sup_inv_step [of s l t] by (auto simp: settled_def)
qed

lemma settled_refuses_id:
  assumes "settled i x s" "req_id req = x"
  shows "start_reserve req t (containers (world_of s))
    = Inl (''Container ID '' @ squote @ x @ squote @ '' already exists'')"
proof -
  have "find_container_by_id_locked (containers (world_of s)) x \<noteq> None"
    using assms(1) find_container_by_id_NoneD [of "containers (world_of s)" x i]
    by (auto simp: settled_def)
  with assms(2) show ?thesis
    by (simp add: start_reserve_def)
qed

text \<open>
  Claim C28. Slots and container ids are never recycled: once a container has left the state
  STARTING its slot stays in use under its id for the rest of the supervisor's life, whatever
  happens, also after the container has ended; a later start with the same id is refused, and
  once every slot has been taken in this way every later start is refused.
\<close>

theorem slots_never_recycled:
  assumes "lts_run sup_step sup_init ls s" "lts_run sup_step s ms s'"
  shows "(\<forall>i < MAX_CONTAINERS. used (containers (world_of s) ! i)
        \<and> state (containers (world_of s) ! i) \<noteq> ''STARTING'' \<longrightarrow>
      used (containers (world_of s') ! i)
      \<and> cid (containers (world_of s') ! i) = cid (containers (world_of s) ! i)
      \<and> (\<forall>req t. req_id req = cid (containers (world_of s) ! i) \<longrightarrow>
           (\<exists>msg. start_reserve req t (containers (world_of s')) = Inl msg)))
    \<and> ((\<forall>i < MAX_CONTAINERS. used (containers (world_of s) ! i)
          \<and> state (containers (world_of s) ! i) \<noteq> ''STARTING'') \<longrightarrow>
       (\<forall>req t. \<exists>msg. start_reserve req t (containers (world_of s')) = Inl msg))"
proof -
  have inv: "sup_inv s"
    using sup.run_inv [OF assms(1)] by simp
  then have len: "length (containers (world_of s)) = MAX_CONTAINERS"
    by (simp add: sup_inv_def table_okD(1))
  have keep: "settled i (cid (containers (world_of s) ! i)) s'"
    if "i < MAX_CONTAINERS" "used (containers (world_of s) ! i)"
      "state (containers (world_of s) ! i) \<noteq> ''STARTING''" for i
    using that inv len settled_slots.run_inv [OF assms(2)] by (simp add: settled_def)
  have "\<exists>msg. start_reserve req t (containers (world_of s')) = Inl msg"
    if all: "\<forall>i < MAX_CONTAINERS. used (containers (world_of s) ! i)
          \<and> state (containers (world_of s) ! i) \<noteq> ''STARTING''" for req t
  proof -
    have "settled 0 (cid (containers (world_of s) ! 0)) s'"
      using keep all by (simp add: c_layout)
    then have len': "length (containers (world_of s')) = MAX_CONTAINERS"
      by (simp add: settled_def sup_inv_def table_okD(1))
    then have "\<forall>c \<in> set (containers (world_of s')). used c"
      using keep all by (auto simp: in_set_conv_nth settled_def)
    then have "find_free_container_slot_locked (containers (world_of s')) = None"
      by (simp add: find_free_slot_None_iff)
    then show ?thesis
      by (simp add: start_reserve_def)
  qed
  moreover have "used (containers (world_of s') ! i)
      \<and> cid (containers (world_of s') ! i) = cid (containers (world_of s) ! i)
      \<and> (\<forall>req t. req_id req = cid (containers (world_of s) ! i) \<longrightarrow>
           (\<exists>msg. start_reserve req t (containers (world_of s')) = Inl msg))"
    if "i < MAX_CONTAINERS" "used (containers (world_of s) ! i)
        \<and> state (containers (world_of s) ! i) \<noteq> ''STARTING''" for i
    using keep [of i] that settled_refuses_id by (auto simp: settled_def)
  ultimately show ?thesis
    by blast
qed

theorem slots_never_recycled_witness:
  "\<exists>msg. start_reserve example_request 9 (containers (world_of
     (sup_after example_running [] [4242 \<mapsto> example_child] [(4242, 40, 64)]))) = Inl msg"
proof -
  let ?s = "sup_after example_running [] [4242 \<mapsto> example_child] [(4242, 40, 64)]"
  have run: "lts_run sup_step sup_init [Sup_reserve example_request 1700000000,
      Sup_clone 0 4242 example_child, Sup_publish 0 100 40 64] ?s"
    by (rule lts_run_Cons [of sup_step, OF example_steps(1) lts_run_Cons [of sup_step,
          OF example_steps(2) lts_run_single [of sup_step, OF example_steps(3)]]])
  have "containers (world_of ?s) ! 0 = example_running"
    by (simp add: sup_after_def init_containers_def c_layout)
  moreover have "state example_running = ''RUNNING''" "req_id example_request = ''alpha''"
    by (simp_all add: example_running_def example_request_def)
  ultimately show ?thesis
    using conjunct1 [OF slots_never_recycled [OF run run_Nil], rule_format, of 0]
      running_world_slot(4,6)
    by (simp add: c_layout)
qed


definition reuse_world :: world where
  "reuse_world = running_world\<lparr>containers := init_containers
     [0 := example_running\<lparr>state := ''EXITED'', exit_code := 0, child_stack := None\<rparr>,
      1 := example_running\<lparr>cid := ''beta'', log_file := ''logs/beta.log''\<rparr>]\<rparr>"


end
