(* ===== verification/Supervisor_Refinement.thy ===== *)
theory Supervisor_Refinement
  imports Supervisor
begin

text \<open>
  What the supervisor promises about the life of a container, without slots, pids and threads:
  a registry maps each container id to its phase and its root file system, and an id goes from
  Starting to Running to Ended, or from Starting back to unknown when the start fails. The
  interleavings of \<^verbatim>\<open>src/engine.c\<close> (\<open>sup_step\<close>) refine this registry.
\<close>


section \<open>The registry\<close>

datatype phase = Starting | Running | Ended

text \<open>Phases are ordered by the life of a container.\<close>

fun phase_rank :: "phase \<Rightarrow> nat" where
  "phase_rank Starting = 0"
| "phase_rank Running = 1"
| "phase_rank Ended = 2"

lemma phase_rank_inject: "phase_rank a = phase_rank b \<longleftrightarrow> a = b"
  by (cases a; cases b) simp_all

instantiation phase :: linorder
begin

definition less_eq_phase :: "phase \<Rightarrow> phase \<Rightarrow> bool" where
  "less_eq_phase a b \<longleftrightarrow> phase_rank a \<le> phase_rank b"

definition less_phase :: "phase \<Rightarrow> phase \<Rightarrow> bool" where
  "less_phase a b \<longleftrightarrow> phase_rank a < phase_rank b"

instance
  by standard (auto simp: less_eq_phase_def less_phase_def phase_rank_inject)

end

type_synonym registry = "string \<Rightarrow> (phase \<times> string) option"

datatype registry_label = Reg_begin string string | Reg_cancel string | Reg_run string | Reg_end string

inductive registry_step :: "registry \<Rightarrow> registry_label \<Rightarrow> registry \<Rightarrow> bool" where
  reg_begin: "m i = None \<Longrightarrow> (\<forall>j ph. m j = Some (ph, r) \<longrightarrow> ph = Ended) \<Longrightarrow>
    card (dom m) < MAX_CONTAINERS \<Longrightarrow> registry_step m (Reg_begin i r) (m(i \<mapsto> (Starting, r)))"
| reg_cancel: "m i = Some (Starting, r) \<Longrightarrow> registry_step m (Reg_cancel i) (m(i := None))"
| reg_run: "m i = Some (Starting, r) \<Longrightarrow> registry_step m (Reg_run i) (m(i \<mapsto> (Running, r)))"
| reg_end: "m i = Some (Running, r) \<Longrightarrow> registry_step m (Reg_end i) (m(i \<mapsto> (Ended, r)))"

text \<open>What the registry knows of an id that has left Starting: it stays known and only moves on.\<close>

definition reached :: "string \<Rightarrow> phase \<Rightarrow> string \<Rightarrow> registry \<Rightarrow> bool" where
  "reached i a r m \<longleftrightarrow> a \<noteq> Starting \<and> (\<exists>b \<ge> a. m i = Some (b, r))"

lemma reached_not_starting: "reached i a r m \<Longrightarrow> m i \<noteq> Some (Starting, r')"
  by (cases a) (auto simp: reached_def less_eq_phase_def)

interpretation reg: invariant_system "reached i a r" registry_step "\<lambda>k. True" "reached i a r" for i a r
proof unfold_locales
  fix m k m'
  assume known: "reached i a r m" and step: "registry_step m k m'"
  note fresh = reached_not_starting [OF known]
  from step show "reached i a r m'"
  proof (cases rule: registry_step.cases)
    case (reg_end j r')
    have "(a :: phase) \<le> Ended"
      by (cases a) (simp_all add: less_eq_phase_def)
    with reg_end known show ?thesis by (auto simp: reached_def)
  qed (use known fresh in \<open>auto simp: reached_def\<close>)
qed

definition phase_of :: "string \<Rightarrow> phase" where
  "phase_of st = (if st = ''STARTING'' then Starting else if st = ''RUNNING'' then Running else Ended)"

definition entry_of :: "container \<Rightarrow> phase \<times> string" where
  "entry_of c = (phase_of (state c), rootfs c)"

definition registry_of :: "container list \<Rightarrow> registry" where
  "registry_of cs i = map_option (\<lambda>k. entry_of (cs ! k)) (find_container_by_id_locked cs i)"

lemma phase_of_simps [simp]:
  "phase_of ''STARTING'' = Starting" "phase_of ''RUNNING'' = Running"
  "phase_of (state (reaped_slot st c)) = Ended"
  using reaped_slot_state [of st c] by (auto simp: phase_of_def)

lemma phase_of_live: "is_live_state st \<longleftrightarrow> phase_of st \<noteq> Ended"
  by (simp add: phase_of_def is_live_state_def)


section \<open>How updates of a slot show in the registry\<close>

lemma registry_of_Some:
  assumes "table_ok cs"
  shows "registry_of cs i = Some e \<longleftrightarrow>
    (\<exists>k < length cs. used (cs ! k) \<and> cid (cs ! k) = i \<and> entry_of (cs ! k) = e)"
proof
  assume "registry_of cs i = Some e"
  then obtain k where "find_container_by_id_locked cs i = Some k" "e = entry_of (cs ! k)"
    by (auto simp: registry_of_def)
  then show "\<exists>k < length cs. used (cs ! k) \<and> cid (cs ! k) = i \<and> entry_of (cs ! k) = e"
    using find_container_by_id_SomeD by blast
next
  assume "\<exists>k < length cs. used (cs ! k) \<and> cid (cs ! k) = i \<and> entry_of (cs ! k) = e"
  then show "registry_of cs i = Some e"
    using find_container_by_id_eq [OF assms] by (auto simp: registry_of_def)
qed

lemma registry_ext: "(\<And>i e. m i = Some e \<longleftrightarrow> m' i = Some e) \<Longrightarrow> m = (m' :: registry)"
  by (rule ext) (metis option.exhaust)

lemma registry_of_set:
  assumes "table_ok cs" "table_ok (cs[k := c])" "k < length cs" "used c"
    "used (cs ! k) \<longrightarrow> cid (cs ! k) = cid c"
  shows "registry_of (cs[k := c]) = (registry_of cs)(cid c \<mapsto> entry_of c)"
proof (rule registry_ext)
  fix i e
  have other: "cid (cs ! j) \<noteq> cid c" if "j < length cs" "j \<noteq> k" "used (cs ! j)" for j
    using table_okD(3) [OF assms(2), of j k] that assms(3,4) by auto
  show "registry_of (cs[k := c]) i = Some e
      \<longleftrightarrow> ((registry_of cs)(cid c \<mapsto> entry_of c)) i = Some e"
    unfolding fun_upd_apply registry_of_Some [OF assms(2)] using registry_of_Some [OF assms(1), of i e] other
      assms(3-5)
    by (auto simp: nth_list_update split: if_splits) metis+
qed

lemma registry_of_clear:
  assumes "table_ok cs" "table_ok (cs[k := c])" "k < length cs" "\<not> used c" "used (cs ! k)"
  shows "registry_of (cs[k := c]) = (registry_of cs)(cid (cs ! k) := None)"
proof (rule registry_ext)
  fix i e
  have other: "cid (cs ! j) \<noteq> cid (cs ! k)" if "j < length cs" "j \<noteq> k" "used (cs ! j)" for j
    using table_okD(3) [OF assms(1), of j k] that assms(3,5) by auto
  show "registry_of (cs[k := c]) i = Some e
      \<longleftrightarrow> ((registry_of cs)(cid (cs ! k) := None)) i = Some e"
    unfolding fun_upd_apply registry_of_Some [OF assms(2)] using registry_of_Some [OF assms(1), of i e] other
      assms(3-5)
    by (auto simp: nth_list_update split: if_splits) metis
qed

lemma registry_of_same:
  assumes "table_ok cs" "table_ok cs'" "length cs' = length cs"
    "\<And>j. j < length cs \<Longrightarrow> used (cs' ! j) = used (cs ! j) \<and> cid (cs' ! j) = cid (cs ! j)
       \<and> state (cs' ! j) = state (cs ! j) \<and> rootfs (cs' ! j) = rootfs (cs ! j)"
  shows "registry_of cs' = registry_of cs"
  using assms(3,4)
  by (intro registry_ext) (auto simp: registry_of_Some [OF assms(1)] registry_of_Some [OF assms(2)] entry_of_def)

text \<open>A free slot leaves room in the registry.\<close>

lemma registry_room:
  assumes "table_ok cs" "k < length cs" "\<not> used (cs ! k)"
  shows "card (dom (registry_of cs)) < MAX_CONTAINERS"
proof -
  have sub: "dom (registry_of cs) \<subseteq> (\<lambda>j. cid (cs ! j)) ` ({..<length cs} - {k})"
    using assms(3) registry_of_Some [OF assms(1)] by (auto simp: dom_def image_iff)
  have "card (dom (registry_of cs)) \<le> card ({..<length cs} - {k})"
    using card_mono [OF _ sub] card_image_le [of "{..<length cs} - {k}" "\<lambda>j. cid (cs ! j)"]
    by (meson finite_Diff finite_imageI finite_lessThan le_trans)
  also have "\<dots> < length cs"
    using assms(2) by (simp add: card_Diff_singleton_if)
  finally show ?thesis
    using table_okD(1) [OF assms(1)] by simp
qed


section \<open>The refinement\<close>

definition registry_abs :: "sup_state \<Rightarrow> registry" where
  "registry_abs s = registry_of (containers (world_of s))"

lemma stop_rootfs:
  assumes "stop_container_by_id err i resp w = (rc, resp', w')"
  shows "rootfs (containers w' ! j) = rootfs (containers w ! j)"
  using assms find_container_by_id_SomeD(1) [of "containers w" i]
  by (auto simp: stop_container_by_id_def Let_def table_simps nth_list_update_cases
      split: option.splits if_splits)

lemma stop_all_rootfs: "j < length (containers w) \<Longrightarrow>
  rootfs (containers (stop_all_live_containers w) ! j) = rootfs (containers w ! j)"
  by (simp add: stop_all_live_containers_def case_prod_beta stop_live_slots_fst)

lemma reaped_slot_identity [simp]:
  "used (reaped_slot st c) = used c" "cid (reaped_slot st c) = cid c" "rootfs (reaped_slot st c) = rootfs c"
  by (simp_all add: reaped_slot_def)

lemma reserve_refines:
  assumes "sup_inv s" "request_ok req" "start_reserve req t (containers (world_of s)) = Inr (idx, cs)"
  shows "registry_step (registry_of (containers (world_of s))) (Reg_begin (req_id req) (req_rootfs req))
    (registry_of cs)"
proof -
  let ?cs = "containers (world_of s)"
  have ok: "table_ok ?cs"
    using assms(1) by (simp add: sup_inv_def)
  note r = start_reserve_Inr [OF assms(3)] and slot = reserved_slot_simps [OF assms(2), of t "?cs ! idx"]
  have "registry_of cs = (registry_of ?cs)(req_id req \<mapsto> (Starting, req_rootfs req))"
    using registry_of_set [OF ok, of idx "reserved_slot req t (?cs ! idx)"]
      start_reserve_ok [OF ok assms(2,3)] r slot by (simp add: entry_of_def)
  moreover have "registry_of ?cs (req_id req) = None"
    using r(4) by (simp add: registry_of_def)
  moreover have "ph = Ended" if "registry_of ?cs j = Some (ph, req_rootfs req)" for j ph
  proof -
    obtain k where "k < length ?cs" "used (?cs ! k)" "entry_of (?cs ! k) = (ph, req_rootfs req)"
      using \<open>registry_of ?cs j = Some (ph, req_rootfs req)\<close> unfolding registry_of_Some [OF ok] by blast
    then show ?thesis
      using r(5) phase_of_live [of "state (?cs ! k)"] nth_mem [of k ?cs]
      by (auto simp: rootfs_in_use_locked_def list_ex_iff entry_of_def)
  qed
  ultimately show ?thesis
    using registry_room [OF ok r(1,2)] by (auto intro: reg_begin)
qed

lemma release_refines:
  assumes "sup_inv s" "owns (containers (world_of s)) idx"
  shows "\<exists>k. registry_step (registry_of (containers (world_of s))) k
    (registry_of (release_slot idx (containers (world_of s))))"
proof -
  let ?cs = "containers (world_of s)" and ?c = "(containers (world_of s) ! idx)"
  have ok: "table_ok ?cs" "table_ok (release_slot idx ?cs)"
    using assms by (auto simp: sup_inv_def owns_def release_slot_ok)
  have own: "idx < length ?cs" "used ?c" "state ?c = ''STARTING''"
    using assms(2) by (simp_all add: owns_def)
  have "registry_of (release_slot idx ?cs) = (registry_of ?cs)(cid ?c := None)"
    using registry_of_clear [OF ok(1) _ own(1)] ok(2) own(2) by (simp add: release_slot_def)
  moreover have "registry_of ?cs (cid ?c) = Some (Starting, rootfs ?c)"
    using own by (auto simp: registry_of_Some [OF ok(1)] entry_of_def)
  ultimately show ?thesis
    using reg_cancel by metis
qed

lemma publish_refines:
  assumes "sup_inv s" "owns (containers (world_of s)) idx"
  shows "\<exists>k. registry_step (registry_of (containers (world_of s))) k
    (registry_of (start_publish idx p stack (containers (world_of s))))"
proof -
  let ?cs = "containers (world_of s)" and ?c = "(containers (world_of s) ! idx)"
  have own: "idx < length ?cs" "used ?c" "state ?c = ''STARTING''"
    using assms(2) by (simp_all add: owns_def)
  have ok: "table_ok ?cs" "table_ok (start_publish idx p stack ?cs)"
    using assms own by (auto simp: sup_inv_def live_def intro!: start_publish_ok)
  have "registry_of (start_publish idx p stack ?cs) = (registry_of ?cs)(cid ?c \<mapsto> (Running, rootfs ?c))"
    using registry_of_set [OF ok(1) ok(2) [unfolded start_publish_def] own(1)] own(2)
    by (simp add: start_publish_def entry_of_def table_simps)
  moreover have "registry_of ?cs (cid ?c) = Some (Starting, rootfs ?c)"
    using own by (auto simp: registry_of_Some [OF ok(1)] entry_of_def)
  ultimately show ?thesis
    using reg_run by metis
qed

text \<open>A turn of the reaper ends a running container, or ends an ended one again.\<close>

definition settled_pids :: "container list \<Rightarrow> bool" where
  "settled_pids cs \<longleftrightarrow> (\<forall>j < length cs. used (cs ! j) \<longrightarrow> state (cs ! j) = ''STARTING'' \<longrightarrow> pid (cs ! j) = -1)"

lemma reap_refines:
  assumes "sup_inv s" "settled_pids (containers (world_of s))" "0 < sint p"
  shows "registry_of (containers (reap_child env p st (world_of s)))
      = registry_of (containers (world_of s))
    \<or> (\<exists>k. registry_step (registry_of (containers (world_of s))) k
           (registry_of (containers (reap_child env p st (world_of s)))))"
proof (cases "first_index (\<lambda>c. used c \<and> pid c = p) (containers (world_of s))")
  case None
  then show ?thesis by (simp add: reap_child_containers)
next
  case (Some i)
  let ?cs = "containers (world_of s)" and ?c = "containers (world_of s) ! i"
  have at: "i < length ?cs" "used ?c" "pid ?c = p"
    using Some by (auto simp: first_index_Some)
  have ok: "table_ok ?cs"
    using assms(1) by (simp add: sup_inv_def)
  have upd: "containers (reap_child env p st (world_of s))
      = ?cs[i := (reaped_slot st ?c)\<lparr>child_stack := None\<rparr>]"
    using Some by (simp add: reap_child_containers)
  have ended: "registry_of (containers (reap_child env p st (world_of s)))
      = (registry_of ?cs)(cid ?c \<mapsto> (Ended, rootfs ?c))"
    unfolding upd using registry_of_set [OF ok reap_child_ok [OF ok, of env p st, unfolded upd] at(1)] at(2)
    by (simp add: entry_of_def)
  have before: "registry_of ?cs (cid ?c) = Some (phase_of (state ?c), rootfs ?c)"
    using at by (auto simp: registry_of_Some [OF ok] entry_of_def)
  have "state ?c \<noteq> ''STARTING''"
    using assms(2,3) at by (auto simp: settled_pids_def)
  then have "phase_of (state ?c) \<noteq> Starting"
    by (simp add: phase_of_def)
  then consider "phase_of (state ?c) = Running" | "phase_of (state ?c) = Ended"
    by (cases "phase_of (state ?c)") auto
  then show ?thesis
  proof cases
    case 1
    with before ended show ?thesis
      using reg_end by metis
  next
    case 2
    with before ended show ?thesis
      by (simp add: fun_upd_idem)
  qed
qed

lemma settled_pids_update:
  "settled_pids cs \<Longrightarrow> (used c \<Longrightarrow> state c = ''STARTING'' \<Longrightarrow> pid c = -1) \<Longrightarrow> settled_pids (cs[k := c])"
  by (auto simp: settled_pids_def) (metis nth_list_update_eq nth_list_update_neq)

lemma settled_pids_step:
  assumes "sup_step s l s'" "settled_pids (containers (world_of s))"
  shows "settled_pids (containers (world_of s'))"
  using assms
proof (cases rule: sup_step.cases)
  case (reserve req t idx cs)
  then show ?thesis
    using start_reserve_Inr(3) [OF reserve(4)] assms(2) reserved_slot_simps(7) [OF reserve(3)]
    by (simp add: settled_pids_update)
next
  case (stop err x resp rc resp' w)
  then show ?thesis
    using stop_slots [OF stop(3)] assms(2) by (simp add: settled_pids_def)
next
  case stop_all
  then show ?thesis
    using stop_all_slots(1,3) [where w = "world_of s"] assms(2) by (simp add: settled_pids_def)
next
  case (reap p st env)
  then show ?thesis
    using assms(2) reaped_slot_not_starting
    by (auto simp: reap_child_containers intro!: settled_pids_update split: option.splits)
qed (auto simp: release_slot_def start_publish_def table_simps intro!: settled_pids_update)

definition life_inv :: "sup_state \<Rightarrow> bool" where
  "life_inv s \<longleftrightarrow> sup_inv s \<and> settled_pids (containers (world_of s))"

lemma life_inv_init: "life_inv sup_init"
  using sup_inv_init by (simp add: life_inv_def sup_init_def settled_pids_def init_containers_def zero_container_def)

lemma sup_step_refines:
  assumes "sup_step s l s'" "life_inv s"
  shows "registry_abs s' = registry_abs s \<or> (\<exists>k. registry_step (registry_abs s) k (registry_abs s'))"
proof -
  have inv: "sup_inv s" "settled_pids (containers (world_of s))" "sup_inv s'"
    using assms sup_inv_step by (auto simp: life_inv_def)
  then have ok: "table_ok (containers (world_of s))" "table_ok (containers (world_of s'))"
    by (simp_all add: sup_inv_def)
  from assms(1) show ?thesis
  proof (cases rule: sup_step.cases)
    case (reserve req t idx cs)
    then show ?thesis
      using reserve_refines [OF inv(1) reserve(3,4)] by (auto simp: registry_abs_def)
  next
    case (abort k idx)
    then show ?thesis
      using release_refines [OF inv(1) owned_thread [OF inv(1) abort(3)]] by (simp add: registry_abs_def)
  next
    case (kill k idx p)
    then show ?thesis
      using release_refines [OF inv(1) owned_thread [OF inv(1) kill(3)]] by (simp add: registry_abs_def)
  next
    case (publish k idx p stack soft hard)
    then show ?thesis
      using publish_refines [OF inv(1) owned_thread [OF inv(1) publish(3)]] by (simp add: registry_abs_def)
  next
    case (stop err x resp rc resp' w)
    then have "registry_of (containers w) = registry_of (containers (world_of s))"
      using stop_slots [OF stop(3)] stop_rootfs [OF stop(3)] ok by (intro registry_of_same) simp_all
    with stop show ?thesis by (simp add: registry_abs_def)
  next
    case stop_all
    then have "registry_of (containers (stop_all_live_containers (world_of s)))
        = registry_of (containers (world_of s))"
      using stop_all_slots(1,3) [where w = "world_of s"] stop_all_rootfs ok
      by (intro registry_of_same) simp_all
    with stop_all show ?thesis by (simp add: registry_abs_def)
  next
    case (reap p st env)
    then show ?thesis
      using reap_refines [OF inv(1,2) reap(4)] by (simp add: registry_abs_def)
  qed (simp_all add: registry_abs_def)
qed

interpretation life: simulation "\<lambda>s. s = sup_init" sup_step "\<lambda>l. True" life_inv registry_step registry_abs
proof unfold_locales
  fix s l t
  assume inv: "life_inv s" and step: "sup_step s l t"
  show "life_inv t"
    using inv sup_inv_step [OF step] settled_pids_step [OF step] by (simp add: life_inv_def)
  show "registry_abs t = registry_abs s \<or> (\<exists>k. registry_step (registry_abs s) k (registry_abs t))"
    using sup_step_refines [OF step inv] .
qed (simp add: life_inv_init)

interpretation life_on: simulation life_inv sup_step "\<lambda>l. True" life_inv registry_step registry_abs
  using life.step_inv life.abs_step by unfold_locales blast+

lemma registry_abs_init: "registry_abs sup_init = Map.empty"
proof -
  have "find_container_by_id_locked init_containers i = None" for i
    by (simp add: find_container_by_id_locked_def first_index_None init_containers_def zero_container_def)
  then show ?thesis
    by (simp add: registry_abs_def sup_init_def registry_of_def fun_eq_iff)
qed

text \<open>
  Claim C2. The interleaved supervisor refines the registry of container phases. Whatever client
  requests, failures, stops and child exits interleave, the phases that the table shows evolve
  by the steps of the registry alone: an id begins only when it is unknown, its root file
  system is not that of a live container and fewer than \<^verbatim>\<open>MAX_CONTAINERS\<close> ids are known; from
  Starting it can only become Running or unknown again, from Running only Ended, and Ended is
  final. In particular a container that is running or ended stays known with its root file
  system in every continuation, and its phase never goes back.
\<close>

theorem lifecycle_refinement:
  assumes "lts_run sup_step sup_init ls s" "lts_run sup_step s ms s'"
  shows "(\<exists>ks. lts_run registry_step Map.empty ks (registry_of (containers (world_of s)))
      \<and> length ks \<le> length ls)
    \<and> (\<forall>i a r. registry_of (containers (world_of s)) i = Some (a, r) \<longrightarrow> a \<noteq> Starting \<longrightarrow>
         (\<exists>b \<ge> a. registry_of (containers (world_of s')) i = Some (b, r)))"
proof (intro conjI allI impI)
  show "\<exists>ks. lts_run registry_step Map.empty ks (registry_of (containers (world_of s)))
      \<and> length ks \<le> length ls"
    using life.run_abs [OF assms(1)] registry_abs_init by (simp add: registry_abs_def)
next
  fix i a r
  assume "registry_of (containers (world_of s)) i = Some (a, r)" "a \<noteq> Starting"
  then have "reached i a r (registry_abs s)"
    by (auto simp: reached_def registry_abs_def)
  moreover have "life_inv s"
    using life.run_inv [OF assms(1)] by simp
  then obtain ks where "lts_run registry_step (registry_abs s) ks (registry_abs s')"
    using life_on.run_abs [OF assms(2)] by auto
  ultimately have "reached i a r (registry_abs s')"
    using reg.run_inv by blast
  then show "\<exists>b \<ge> a. registry_of (containers (world_of s')) i = Some (b, r)"
    by (simp add: reached_def registry_abs_def)
qed

theorem lifecycle_refinement_witness:
  "\<exists>ks. lts_run registry_step Map.empty ks (registry_of (containers (world_of
      (sup_after example_running [] [4242 \<mapsto> example_child] [(4242, 40, 64)])))) \<and> length ks \<le> 3"
  using lifecycle_refinement [OF lts_run_Cons [of sup_step, OF example_steps(1) lts_run_Cons [of sup_step,
        OF example_steps(2) lts_run_single [of sup_step, OF example_steps(3)]]] run_Nil]
  by (simp add: numeral_3_eq_3)

end
