(* ===== verification/Log_Buffer.thy ===== *)
theory Log_Buffer
  imports Prelude
begin

text \<open>
  The bounded log buffer of the supervisor: \<^verbatim>\<open>log_entry_t\<close>, \<^verbatim>\<open>log_buffer_t\<close> and the four
  operations \<^verbatim>\<open>log_buffer_init\<close>, \<^verbatim>\<open>log_buffer_shutdown\<close>, \<^verbatim>\<open>log_buffer_push\<close> and
  \<^verbatim>\<open>log_buffer_pop\<close> of \<^verbatim>\<open>src/engine.c\<close>. Each operation is one critical section of the
  buffer's mutex; the wait loop in front of it becomes the outcome \<^const>\<open>Blocks\<close>. The abstract
  queue \<open>log_buffer_list\<close> lists the stored entries from oldest to newest. The locale
  \<open>bounded_queue\<close> states the contract the logging threads rely on; its interpretation
  \<open>ring\<close> discharges the laws for the ring buffer.
\<close>


section \<open>Data\<close>

definition LOG_BUFFER_CAPACITY :: nat where
  "LOG_BUFFER_CAPACITY = 128"

definition LOG_CHUNK_SIZE :: nat where
  "LOG_CHUNK_SIZE = 512"

lemmas [c_layout] = LOG_BUFFER_CAPACITY_def LOG_CHUNK_SIZE_def

record log_entry =
  container_index :: int
  len :: nat
  data :: "char list"

record log_buffer =
  entries :: "log_entry list"
  head :: nat
  tail :: nat
  count :: nat
  shutdown :: bool

text \<open>The zeroed entry that \<^verbatim>\<open>memset\<close> leaves in every cell.\<close>

definition zero_entry :: log_entry where
  "zero_entry = \<lparr>container_index = 0, len = 0, data = replicate LOG_CHUNK_SIZE NUL\<rparr>"


section \<open>Operations\<close>

definition log_buffer_init :: log_buffer where
  "log_buffer_init = \<lparr>entries = replicate LOG_BUFFER_CAPACITY zero_entry,
     head = 0, tail = 0, count = 0, shutdown = False\<rparr>"

definition log_buffer_shutdown :: "log_buffer \<Rightarrow> log_buffer" where
  "log_buffer_shutdown buf = buf\<lparr>shutdown := True\<rparr>"

definition log_buffer_push :: "log_buffer \<Rightarrow> log_entry \<Rightarrow> (int \<times> log_buffer) blocking" where
  "log_buffer_push buf entry =
     (if count buf = LOG_BUFFER_CAPACITY \<and> \<not> shutdown buf then Blocks
      else if shutdown buf then Returns (-1, buf)
      else Returns (0, buf\<lparr>entries := (entries buf)[tail buf := entry],
                          tail := (tail buf + 1) mod LOG_BUFFER_CAPACITY,
                          count := count buf + 1\<rparr>))"

definition log_buffer_pop :: "log_buffer \<Rightarrow> (int \<times> log_entry option \<times> log_buffer) blocking" where
  "log_buffer_pop buf =
     (if count buf = 0 \<and> \<not> shutdown buf then Blocks
      else if count buf = 0 \<and> shutdown buf then Returns (-1, None, buf)
      else Returns (0, Some (entries buf ! head buf),
                    buf\<lparr>head := (head buf + 1) mod LOG_BUFFER_CAPACITY,
                        count := count buf - 1\<rparr>))"


section \<open>Well-formed buffers and the queue they represent\<close>

definition log_buffer_ok :: "log_buffer \<Rightarrow> bool" where
  "log_buffer_ok buf \<longleftrightarrow> length (entries buf) = LOG_BUFFER_CAPACITY
     \<and> head buf < LOG_BUFFER_CAPACITY \<and> count buf \<le> LOG_BUFFER_CAPACITY
     \<and> tail buf = (head buf + count buf) mod LOG_BUFFER_CAPACITY"

definition log_buffer_list :: "log_buffer \<Rightarrow> log_entry list" where
  "log_buffer_list buf =
     map (\<lambda>k. entries buf ! ((head buf + k) mod LOG_BUFFER_CAPACITY)) [0..<count buf]"

lemma length_log_buffer_list [simp]: "length (log_buffer_list buf) = count buf"
  by (simp add: log_buffer_list_def)

lemma log_buffer_list_shutdown [simp]:
  "log_buffer_list (log_buffer_shutdown buf) = log_buffer_list buf"
  by (simp add: log_buffer_list_def log_buffer_shutdown_def)

lemma log_buffer_ok_shutdown [simp]:
  "log_buffer_ok (log_buffer_shutdown buf) = log_buffer_ok buf"
  by (simp add: log_buffer_ok_def log_buffer_shutdown_def)

lemma shutdown_log_buffer_shutdown [simp]: "shutdown (log_buffer_shutdown buf)"
  by (simp add: log_buffer_shutdown_def)

lemma log_buffer_init_ok: "log_buffer_ok log_buffer_init"
  by (simp add: log_buffer_ok_def log_buffer_init_def c_layout)

lemma log_buffer_init_list: "log_buffer_list log_buffer_init = []"
  by (simp add: log_buffer_list_def log_buffer_init_def)

lemma ring_distinct:
  assumes "h < n" "k < c" "c < (n::nat)"
  shows "(h + k) mod n \<noteq> (h + c) mod n"
proof
  assume eq: "(h + k) mod n = (h + c) mod n"
  then have "n dvd (h + c) - (h + k)"
    using assms by (intro mod_eq_dvd_iff_nat [THEN iffD1]) simp_all
  then have "n dvd c - k"
    by simp
  moreover have "0 < c - k" "c - k < n"
    using assms by simp_all
  ultimately show False
    by (simp add: nat_dvd_not_less)
qed

lemma push_stores:
  assumes ok: "log_buffer_ok buf" and room: "count buf < LOG_BUFFER_CAPACITY"
    and run: "log_buffer_push buf e = Returns (0, buf')"
  shows "log_buffer_ok buf'" "log_buffer_list buf' = log_buffer_list buf @ [e]"
proof -
  let ?C = LOG_BUFFER_CAPACITY
  have buf': "buf' = buf\<lparr>entries := (entries buf)[tail buf := e],
      tail := (tail buf + 1) mod ?C, count := count buf + 1\<rparr>"
    using run by (auto simp: log_buffer_push_def split: if_splits)
  have t: "tail buf = (head buf + count buf) mod ?C" and h: "head buf < ?C"
    and l: "length (entries buf) = ?C"
    using ok by (simp_all add: log_buffer_ok_def)
  have "(tail buf + 1) mod ?C = (head buf + (count buf + 1)) mod ?C"
    by (simp add: t mod_simps)
  with ok room show "log_buffer_ok buf'"
    by (simp add: buf' log_buffer_ok_def)
  have t_less: "tail buf < ?C"
    by (simp add: t c_layout)
  have old: "(entries buf)[tail buf := e] ! ((head buf + k) mod ?C)
      = entries buf ! ((head buf + k) mod ?C)" if "k < count buf" for k
    using ring_distinct [OF h that room] t by simp
  show "log_buffer_list buf' = log_buffer_list buf @ [e]"
    using t_less l by (simp add: buf' log_buffer_list_def old) (simp add: t)
qed

lemma pop_removes:
  assumes ok: "log_buffer_ok buf" and run: "log_buffer_pop buf = Returns (0, eo, buf')"
  shows "log_buffer_ok buf'" "\<exists>e. eo = Some e \<and> log_buffer_list buf = e # log_buffer_list buf'"
proof -
  let ?C = LOG_BUFFER_CAPACITY
  have pos: "0 < count buf" and eo: "eo = Some (entries buf ! head buf)"
    and buf': "buf' = buf\<lparr>head := (head buf + 1) mod ?C, count := count buf - 1\<rparr>"
    using run by (auto simp: log_buffer_pop_def split: if_splits)
  have h: "head buf < ?C"
    using ok by (simp add: log_buffer_ok_def)
  obtain n where n: "count buf = Suc n"
    using pos gr0_implies_Suc by blast
  have "(head buf + count buf) mod ?C = ((head buf + 1) mod ?C + n) mod ?C"
    by (simp add: n mod_simps)
  with ok show "log_buffer_ok buf'"
    by (auto simp: buf' n log_buffer_ok_def c_layout)
  have "log_buffer_list buf = entries buf ! head buf # log_buffer_list buf'"
    using h by (simp add: log_buffer_list_def buf' n upt_conv_Cons map_Suc_upt [symmetric]
        mod_simps del: upt_Suc)
  with eo show "\<exists>e. eo = Some e \<and> log_buffer_list buf = e # log_buffer_list buf'"
    by blast
qed


section \<open>The contract of a bounded queue\<close>

text \<open>
  What the producer and consumer threads rely on. \<open>push\<close> and \<open>pop\<close> return the C status code;
  \<open>close\<close> is the shutdown request. The sequences of critical sections that any number of
  threads perform on one queue are lists of \<open>qop\<close>; \<open>queue_run\<close> executes them in order and
  collects what was accepted and what was delivered. A call that blocks changes nothing.
\<close>

datatype 'e qop = Push 'e | Pop | Close

fun queue_run ::
  "('q \<Rightarrow> 'e \<Rightarrow> (int \<times> 'q) blocking) \<Rightarrow> ('q \<Rightarrow> (int \<times> 'e option \<times> 'q) blocking) \<Rightarrow> ('q \<Rightarrow> 'q)
   \<Rightarrow> 'q \<Rightarrow> 'e qop list \<Rightarrow> 'e list \<times> 'e list \<times> 'q" where
  "queue_run push pop close q [] = ([], [], q)"
| "queue_run push pop close q (Push e # ops) =
     (case push q e of
        Blocks \<Rightarrow> queue_run push pop close q ops
      | Returns (rc, q') \<Rightarrow>
          (case queue_run push pop close q' ops of
             (ins, outs, r) \<Rightarrow> (if rc = 0 then e # ins else ins, outs, r)))"
| "queue_run push pop close q (Pop # ops) =
     (case pop q of
        Blocks \<Rightarrow> queue_run push pop close q ops
      | Returns (rc, eo, q') \<Rightarrow>
          (case queue_run push pop close q' ops of
             (ins, outs, r) \<Rightarrow> (ins, (case eo of None \<Rightarrow> outs | Some e \<Rightarrow> e # outs), r)))"
| "queue_run push pop close q (Close # ops) = queue_run push pop close (close q) ops"

locale bounded_queue =
  fixes init :: 'q
    and push :: "'q \<Rightarrow> 'e \<Rightarrow> (int \<times> 'q) blocking"
    and pop :: "'q \<Rightarrow> (int \<times> 'e option \<times> 'q) blocking"
    and close :: "'q \<Rightarrow> 'q"
    and contents :: "'q \<Rightarrow> 'e list"
    and closed :: "'q \<Rightarrow> bool"
    and invar :: "'q \<Rightarrow> bool"
    and cap :: nat
  assumes init_ok: "invar init" "contents init = []" "\<not> closed init"
    and cap_pos: "0 < cap"
    and bounded: "invar q \<Longrightarrow> length (contents q) \<le> cap"
    and push_room: "invar q \<Longrightarrow> \<not> closed q \<Longrightarrow> length (contents q) < cap \<Longrightarrow>
      \<exists>q'. push q e = Returns (0, q') \<and> invar q' \<and> contents q' = contents q @ [e] \<and> \<not> closed q'"
    and push_full: "invar q \<Longrightarrow> \<not> closed q \<Longrightarrow> length (contents q) = cap \<Longrightarrow> push q e = Blocks"
    and push_closed: "closed q \<Longrightarrow> push q e = Returns (-1, q)"
    and pop_some: "invar q \<Longrightarrow> contents q = e # es \<Longrightarrow>
      \<exists>q'. pop q = Returns (0, Some e, q') \<and> invar q' \<and> contents q' = es \<and> closed q' = closed q"
    and pop_empty: "invar q \<Longrightarrow> contents q = [] \<Longrightarrow> \<not> closed q \<Longrightarrow> pop q = Blocks"
    and pop_closed: "invar q \<Longrightarrow> contents q = [] \<Longrightarrow> closed q \<Longrightarrow> pop q = Returns (-1, None, q)"
    and close_ok: "invar (close q) = invar q" "contents (close q) = contents q" "closed (close q)"
begin

lemma push_cases:
  assumes "invar q"
  obtains (full) "\<not> closed q" "length (contents q) = cap" "push q e = Blocks"
  | (rejected) "closed q" "push q e = Returns (-1, q)"
  | (stored) q' where "\<not> closed q" "length (contents q) < cap" "push q e = Returns (0, q')"
      "invar q'" "contents q' = contents q @ [e]" "\<not> closed q'"
  using bounded [OF assms] push_room [OF assms] push_full [OF assms] push_closed
  by (metis le_neq_implies_less)

lemma pop_cases:
  assumes "invar q"
  obtains (empty) "contents q = []" "\<not> closed q" "pop q = Blocks"
  | (drained) "contents q = []" "closed q" "pop q = Returns (-1, None, q)"
  | (taken) e q' where "pop q = Returns (0, Some e, q')" "invar q'"
      "contents q = e # contents q'" "closed q' = closed q"
proof (cases "contents q")
  case Nil
  with assms that(1,2) pop_empty pop_closed show ?thesis by blast
next
  case (Cons e es)
  with assms that(3) pop_some show ?thesis by metis
qed

lemma run_invar:
  assumes "invar q" "queue_run push pop close q ops = (ins, outs, r)"
  shows "invar r \<and> contents q @ ins = outs @ contents r"
  using assms
proof (induction ops arbitrary: q ins outs r)
  case Nil
  then show ?case by simp
next
  case (Cons x ops)
  show ?case
  proof (cases x)
    case (Push e)
    with Cons show ?thesis
      by (cases rule: push_cases [OF Cons.prems(1), of e]) (fastforce split: prod.splits)+
  next
    case Pop
    with Cons show ?thesis
      by (cases rule: pop_cases [OF Cons.prems(1)]) (fastforce split: prod.splits)+
  next
    case Close
    with Cons.prems Cons.IH [of "close q"] show ?thesis
      by (simp add: close_ok)
  qed
qed

lemma run_fifo:
  assumes "queue_run push pop close init ops = (ins, outs, r)"
  shows "ins = outs @ contents r \<and> length (contents r) \<le> cap"
  using run_invar [OF init_ok(1) assms] init_ok(2) bounded by auto

lemma drain_closed:
  assumes "invar q" "closed q"
  shows "\<exists>r. queue_run push pop close q (replicate (length (contents q)) Pop) = ([], contents q, r)
    \<and> contents r = [] \<and> pop r = Returns (-1, None, r)"
  using assms
proof (induction "contents q" arbitrary: q)
  case Nil
  then show ?case by (auto simp: pop_closed)
next
  case (Cons e es)
  obtain q' where q': "pop q = Returns (0, Some e, q')" "invar q'" "contents q' = es" "closed q'"
    using pop_some [OF Cons.prems(1) Cons.hyps(2) [symmetric]] Cons.prems(2) by auto
  obtain r where r: "queue_run push pop close q' (replicate (length es) Pop) = ([], es, r)"
    "contents r = []" "pop r = Returns (-1, None, r)"
    using Cons.hyps(1) [of q'] q' by auto
  then show ?case
    using q' by (auto simp flip: Cons.hyps(2))
qed

end

interpretation ring: bounded_queue log_buffer_init log_buffer_push log_buffer_pop
  log_buffer_shutdown log_buffer_list shutdown log_buffer_ok LOG_BUFFER_CAPACITY
proof (unfold_locales, goal_cases)
  case 1
  show ?case by (rule log_buffer_init_ok)
next
  case 2
  show ?case by (rule log_buffer_init_list)
next
  case 3
  show ?case by (simp add: log_buffer_init_def)
next
  case 4
  show ?case by (simp add: c_layout)
next
  case (5 q)
  then show ?case by (simp add: log_buffer_ok_def)
next
  case (6 q e)
  then obtain q' where "log_buffer_push q e = Returns (0, q')" "\<not> shutdown q'"
    by (auto simp: log_buffer_push_def)
  with 6 push_stores [of q e q'] show ?case by simp
next
  case (7 q e)
  then show ?case by (simp add: log_buffer_push_def)
next
  case (8 q e)
  then show ?case by (simp add: log_buffer_push_def)
next
  case (9 q e es)
  then have "0 < count q"
    by (metis length_greater_0_conv length_log_buffer_list list.discI)
  then obtain eo q' where q': "log_buffer_pop q = Returns (0, eo, q')" "shutdown q' = shutdown q"
    by (auto simp: log_buffer_pop_def)
  with 9 pop_removes [of q eo q'] show ?case by auto
next
  case (10 q)
  then show ?case by (metis length_log_buffer_list list.size(3) log_buffer_pop_def)
next
  case (11 q)
  then show ?case by (metis length_log_buffer_list list.size(3) log_buffer_pop_def)
qed simp_all



section \<open>Properties\<close>

text \<open>
  Claim C14. The ring buffer is a bounded FIFO queue: after any sequence of push, pop and shutdown
  calls from the initial buffer, what was accepted is what was delivered followed by what the
  buffer holds, in the same order; the buffer holds at most its capacity, and its head, tail
  and count agree.
\<close>

theorem log_buffer_fifo:
  "case queue_run log_buffer_push log_buffer_pop log_buffer_shutdown log_buffer_init ops of
     (accepted, delivered, buf) \<Rightarrow>
       accepted = delivered @ log_buffer_list buf \<and> log_buffer_ok buf
       \<and> length (log_buffer_list buf) \<le> LOG_BUFFER_CAPACITY"
proof (cases "queue_run log_buffer_push log_buffer_pop log_buffer_shutdown log_buffer_init ops")
  case (fields ins outs buf)
  then show ?thesis
    using ring.run_fifo [OF fields] ring.run_invar [OF log_buffer_init_ok fields] by simp
qed

lemma count_shutdown: "count (log_buffer_shutdown buf) = count buf"
  by (simp add: log_buffer_shutdown_def)

text \<open>
  Claim C15. Nothing in the buffer is lost by a shutdown: whatever happened before, after
  \<^verbatim>\<open>log_buffer_shutdown\<close> exactly as many pops as there are entries deliver them all in order,
  the next pop returns -1 without blocking, and every push returns -1 and changes nothing.
\<close>

theorem log_buffer_drain:
  "case queue_run log_buffer_push log_buffer_pop log_buffer_shutdown log_buffer_init ops of
     (accepted, delivered, buf) \<Rightarrow>
       (\<exists>r. queue_run log_buffer_push log_buffer_pop log_buffer_shutdown (log_buffer_shutdown buf)
              (replicate (count buf) Pop) = ([], log_buffer_list buf, r)
          \<and> log_buffer_pop r = Returns (-1, None, r))
       \<and> log_buffer_push (log_buffer_shutdown buf) e = Returns (-1, log_buffer_shutdown buf)"
proof (cases "queue_run log_buffer_push log_buffer_pop log_buffer_shutdown log_buffer_init ops")
  case (fields ins outs buf)
  have "log_buffer_ok (log_buffer_shutdown buf)"
    using ring.run_invar [OF log_buffer_init_ok fields] by simp
  from ring.drain_closed [OF this] show ?thesis
    using fields ring.push_closed [of "log_buffer_shutdown buf" e]
    by (auto simp: count_shutdown)
qed

end
