(* ===== verification/Log_Pipeline.thy ===== *)
theory Log_Pipeline
  imports Container_Table Log_Buffer Transition
begin

text \<open>
  The logging threads of \<^verbatim>\<open>src/engine.c\<close>: one \<^verbatim>\<open>log_producer_main\<close> per container reads its pipe
  and pushes chunks, \<^verbatim>\<open>log_consumer_main\<close> pops them and appends them to the log files, and
  \<^verbatim>\<open>log_buffer_shutdown\<close> ends them. A step of the system is one \<^verbatim>\<open>read\<close>, one critical
  section of the buffer, one write of the consumer or one wake-up. A thread that blocks sleeps
  on its condition variable until a signal, a broadcast or a spurious wake-up moves it back to
  the test of its wait loop. The fields \<open>p_read\<close>, \<open>accepted\<close> and \<open>delivered\<close> record the
  history and are read by no step.
\<close>


section \<open>Threads\<close>

datatype read_result = Read_data "char list" | Read_EOF | Read_EINTR | Read_error

datatype producer_pc = Reading | Pushing log_entry | Push_wait log_entry | Producer_done

record producer =
  p_index :: nat
  p_pc :: producer_pc
  p_read :: "char list list"

definition new_producer :: "nat \<Rightarrow> producer" where
  "new_producer idx = \<lparr>p_index = idx, p_pc = Reading, p_read = []\<rparr>"

text \<open>The entry that a producer builds from a chunk: zeroed, then index, length and data.\<close>

definition producer_entry :: "nat \<Rightarrow> char list \<Rightarrow> log_entry" where
  "producer_entry idx bs = zero_entry\<lparr>container_index := int idx, len := length bs,
     data := bs @ drop (length bs) (data zero_entry)\<rparr>"

fun producer_on_read :: "read_result \<Rightarrow> producer \<Rightarrow> producer" where
  "producer_on_read Read_EOF p = p\<lparr>p_pc := Producer_done\<rparr>"
| "producer_on_read Read_EINTR p = p"
| "producer_on_read Read_error p = p\<lparr>p_pc := Producer_done\<rparr>"
| "producer_on_read (Read_data bs) p =
     p\<lparr>p_pc := Pushing (producer_entry (p_index p) bs), p_read := p_read p @ [bs]\<rparr>"

text \<open>What \<^verbatim>\<open>read\<close> promises: between one byte and the size of the buffer.\<close>

fun read_ok :: "read_result \<Rightarrow> bool" where
  "read_ok (Read_data bs) \<longleftrightarrow> bs \<noteq> [] \<and> length bs \<le> LOG_CHUNK_SIZE"
| "read_ok _ \<longleftrightarrow> True"

fun wake_producer :: "producer \<Rightarrow> producer" where
  "wake_producer p = (case p_pc p of Push_wait e \<Rightarrow> p\<lparr>p_pc := Pushing e\<rparr> | _ \<Rightarrow> p)"

fun asleep :: "producer \<Rightarrow> bool" where
  "asleep p \<longleftrightarrow> (case p_pc p of Push_wait e \<Rightarrow> True | _ \<Rightarrow> False)"

fun pushing :: "producer \<Rightarrow> bool" where
  "pushing p \<longleftrightarrow> (case p_pc p of Pushing e \<Rightarrow> True | _ \<Rightarrow> False)"

datatype consumer_pc = Popping | Pop_wait | Writing log_entry | Consumer_done

definition wake_consumer :: "consumer_pc \<Rightarrow> consumer_pc" where
  "wake_consumer c = (if c = Pop_wait then Popping else c)"

text \<open>What the consumer does with an entry; \<open>Wrote n\<close> is a write of at most \<open>n\<close> bytes.\<close>

datatype write_outcome = Open_fails | Wrote nat

definition log_path :: "container list \<Rightarrow> log_entry \<Rightarrow> string" where
  "log_path cs e =
     (if 0 \<le> container_index e \<and> container_index e < int MAX_CONTAINERS
         \<and> used (cs ! nat (container_index e))
      then safe_strcpy [] (Some (log_file (cs ! nat (container_index e)))) MAX_PATH_LEN
      else [])"

definition entry_bytes :: "log_entry \<Rightarrow> char list" where
  "entry_bytes e = take (len e) (data e)"

fun log_consumer_write ::
  "container list \<Rightarrow> write_outcome \<Rightarrow> log_entry \<Rightarrow> (string \<Rightarrow> char list) \<Rightarrow> string \<Rightarrow> char list" where
  "log_consumer_write cs Open_fails e files = files"
| "log_consumer_write cs (Wrote n) e files =
     (if log_path cs e = [] then files
      else files(log_path cs e := files (log_path cs e) @ take n (entry_bytes e)))"


section \<open>The system\<close>

record pipeline =
  buf :: log_buffer
  prods :: "producer list"
  cons :: consumer_pc
  files :: "string \<Rightarrow> char list"
  accepted :: "(nat \<times> log_entry) list"
  delivered :: "log_entry list"

datatype pipe_label =
    Spawn nat
  | Do_read nat read_result
  | Do_push nat
  | Do_pop
  | Do_write "container list" write_outcome
  | Do_shutdown
  | Spurious_producer nat
  | Spurious_consumer

definition pipe_init :: "(string \<Rightarrow> char list) \<Rightarrow> pipeline" where
  "pipe_init fs = \<lparr>buf = log_buffer_init, prods = [], cons = Popping, files = fs,
     accepted = [], delivered = []\<rparr>"

definition set_pc :: "nat \<Rightarrow> producer_pc \<Rightarrow> producer list \<Rightarrow> producer list" where
  "set_pc t pc ps = ps[t := (ps ! t)\<lparr>p_pc := pc\<rparr>]"

text \<open>\<^verbatim>\<open>pthread_cond_signal(&not_full)\<close>: some sleeper wakes, if there is one.\<close>

definition signal_one :: "producer list \<Rightarrow> producer list \<Rightarrow> bool" where
  "signal_one ps ps' \<longleftrightarrow>
     (\<exists>t < length ps. asleep (ps ! t) \<and> ps' = ps[t := wake_producer (ps ! t)])
     \<or> list_all (\<lambda>p. \<not> asleep p) ps \<and> ps' = ps"

inductive pipe_step :: "pipeline \<Rightarrow> pipe_label \<Rightarrow> pipeline \<Rightarrow> bool" where
  spawn: "pipe_step s (Spawn idx) (s\<lparr>prods := prods s @ [new_producer idx]\<rparr>)"
| read: "t < length (prods s) \<Longrightarrow> p_pc (prods s ! t) = Reading \<Longrightarrow> read_ok r \<Longrightarrow>
    pipe_step s (Do_read t r) (s\<lparr>prods := (prods s)[t := producer_on_read r (prods s ! t)]\<rparr>)"
| push_sleep: "t < length (prods s) \<Longrightarrow> p_pc (prods s ! t) = Pushing e \<Longrightarrow>
    log_buffer_push (buf s) e = Blocks \<Longrightarrow>
    pipe_step s (Do_push t) (s\<lparr>prods := set_pc t (Push_wait e) (prods s)\<rparr>)"
| push_done: "t < length (prods s) \<Longrightarrow> p_pc (prods s ! t) = Pushing e \<Longrightarrow>
    log_buffer_push (buf s) e = Returns (0, b) \<Longrightarrow>
    pipe_step s (Do_push t) (s\<lparr>buf := b, prods := set_pc t Reading (prods s),
      cons := wake_consumer (cons s), accepted := accepted s @ [(t, e)]\<rparr>)"
| push_refused: "t < length (prods s) \<Longrightarrow> p_pc (prods s ! t) = Pushing e \<Longrightarrow>
    log_buffer_push (buf s) e = Returns (rc, b) \<Longrightarrow> rc \<noteq> 0 \<Longrightarrow>
    pipe_step s (Do_push t) (s\<lparr>buf := b, prods := set_pc t Producer_done (prods s)\<rparr>)"
| pop_sleep: "cons s = Popping \<Longrightarrow> log_buffer_pop (buf s) = Blocks \<Longrightarrow>
    pipe_step s Do_pop (s\<lparr>cons := Pop_wait\<rparr>)"
| pop_done: "cons s = Popping \<Longrightarrow> log_buffer_pop (buf s) = Returns (0, Some e, b) \<Longrightarrow>
    signal_one (prods s) ps \<Longrightarrow>
    pipe_step s Do_pop (s\<lparr>buf := b, prods := ps, cons := Writing e,
      delivered := delivered s @ [e]\<rparr>)"
| pop_end: "cons s = Popping \<Longrightarrow> log_buffer_pop (buf s) = Returns (rc, eo, b) \<Longrightarrow> rc \<noteq> 0 \<Longrightarrow>
    pipe_step s Do_pop (s\<lparr>buf := b, cons := Consumer_done\<rparr>)"
| write_entry: "cons s = Writing e \<Longrightarrow>
    pipe_step s (Do_write cs out)
      (s\<lparr>files := log_consumer_write cs out e (files s), cons := Popping\<rparr>)"
| shutdown_all: "pipe_step s Do_shutdown (s\<lparr>buf := log_buffer_shutdown (buf s),
      prods := map wake_producer (prods s), cons := wake_consumer (cons s)\<rparr>)"
| spurious_producer: "t < length (prods s) \<Longrightarrow> asleep (prods s ! t) \<Longrightarrow>
    pipe_step s (Spurious_producer t) (s\<lparr>prods := (prods s)[t := wake_producer (prods s ! t)]\<rparr>)"
| spurious_consumer: "cons s = Pop_wait \<Longrightarrow>
    pipe_step s Spurious_consumer (s\<lparr>cons := Popping\<rparr>)"

inductive_cases pipe_stepE: "pipe_step s l s'"



section \<open>The invariant\<close>

fun pending :: "producer \<Rightarrow> log_entry list" where
  "pending p = (case p_pc p of Pushing e \<Rightarrow> [e] | Push_wait e \<Rightarrow> [e] | _ \<Rightarrow> [])"

definition thread_entries :: "nat \<Rightarrow> pipeline \<Rightarrow> log_entry list" where
  "thread_entries t s = map snd (filter (\<lambda>x. fst x = t) (accepted s))"

definition read_entries :: "producer \<Rightarrow> log_entry list" where
  "read_entries p = map (producer_entry (p_index p)) (p_read p)"

text \<open>Queue discipline: accepted chunks are delivered in order, the rest is in the buffer.\<close>

definition inv_queue :: "pipeline \<Rightarrow> bool" where
  "inv_queue s \<longleftrightarrow> log_buffer_ok (buf s)
     \<and> delivered s @ log_buffer_list (buf s) = map snd (accepted s)"

text \<open>
  Each thread: what it read was accepted, in order, up to the chunk in its hands; a finished
  thread may have lost its last chunk, and only to a shutdown.
\<close>

definition thread_fine :: "bool \<Rightarrow> log_entry list \<Rightarrow> producer \<Rightarrow> bool" where
  "thread_fine down acc p \<longleftrightarrow> read_entries p = acc @ pending p
     \<or> p_pc p = Producer_done \<and> down \<and> (\<exists>e. read_entries p = acc @ [e])"

definition inv_threads :: "pipeline \<Rightarrow> bool" where
  "inv_threads s \<longleftrightarrow> (\<forall>x \<in> set (accepted s). fst x < length (prods s))
     \<and> (\<forall>t < length (prods s).
          thread_fine (shutdown (buf s)) (thread_entries t s) (prods s ! t))"

text \<open>No lost wake-up: whoever sleeps is owed a signal that is still to come.\<close>

definition inv_sleep :: "pipeline \<Rightarrow> bool" where
  "inv_sleep s \<longleftrightarrow>
     (list_ex asleep (prods s) \<longrightarrow> \<not> shutdown (buf s)
        \<and> LOG_BUFFER_CAPACITY \<le> count (buf s) + length (filter pushing (prods s)))
     \<and> (cons s = Pop_wait \<longrightarrow> count (buf s) = 0 \<and> \<not> shutdown (buf s))
     \<and> (cons s = Consumer_done \<longrightarrow> count (buf s) = 0 \<and> shutdown (buf s))"

definition pipe_inv :: "pipeline \<Rightarrow> bool" where
  "pipe_inv s \<longleftrightarrow> inv_queue s \<and> inv_threads s \<and> inv_sleep s"

lemma push_returns:
  assumes "log_buffer_push b e = Returns (rc, b')"
  shows "shutdown b' = shutdown b" "rc = 0 \<longleftrightarrow> \<not> shutdown b" "rc \<noteq> 0 \<Longrightarrow> b' = b"
    "rc = 0 \<Longrightarrow> count b' = Suc (count b)"
  using assms by (auto simp: log_buffer_push_def split: if_splits)

lemma pop_returns:
  assumes "log_buffer_pop b = Returns (rc, eo, b')"
  shows "shutdown b' = shutdown b" "rc \<noteq> 0 \<Longrightarrow> b' = b \<and> count b = 0 \<and> shutdown b"
    "rc = 0 \<Longrightarrow> count b = Suc (count b')"
  using assms by (auto simp: log_buffer_pop_def split: if_splits)

lemma push_blocks: "log_buffer_push b e = Blocks \<longleftrightarrow> count b = LOG_BUFFER_CAPACITY \<and> \<not> shutdown b"
  by (simp add: log_buffer_push_def)

lemma pop_blocks: "log_buffer_pop b = Blocks \<longleftrightarrow> count b = 0 \<and> \<not> shutdown b"
  by (simp add: log_buffer_pop_def)

lemma inv_queue_step:
  assumes "pipe_step s l s'" "inv_queue s"
  shows "inv_queue s'"
  using assms
proof (induction rule: pipe_step.induct)
  case (push_done t s e b)
  then have ok: "log_buffer_ok (buf s)" "\<not> shutdown (buf s)"
    using push_returns(2) [OF push_done.hyps(3)] by (simp_all add: inv_queue_def)
  then have "count (buf s) < LOG_BUFFER_CAPACITY"
    using push_done.hyps(3) by (auto simp: log_buffer_push_def log_buffer_ok_def split: if_splits)
  with ok push_stores [OF ok(1) _ push_done.hyps(3)] push_done.prems show ?case
    by (simp add: inv_queue_def flip: append_assoc)
next
  case (push_refused t s e rc b)
  then show ?case
    using push_returns(3) [OF push_refused.hyps(3)] by (simp add: inv_queue_def)
next
  case (pop_done s e b ps)
  then show ?case
    using pop_removes [OF _ pop_done.hyps(2)] by (auto simp: inv_queue_def)
next
  case (pop_end s rc eo b)
  then show ?case
    using pop_returns(2) [OF pop_end.hyps(2)] by (simp add: inv_queue_def)
qed (simp_all add: inv_queue_def)


lemma wake_producer_simps [simp]:
  "p_index (wake_producer p) = p_index p" "p_read (wake_producer p) = p_read p"
  "pending (wake_producer p) = pending p" "\<not> asleep (wake_producer p)"
  "p_pc (wake_producer p) = Producer_done \<longleftrightarrow> p_pc p = Producer_done"
  "pushing (wake_producer p) \<longleftrightarrow> asleep p \<or> pushing p"
  by (auto split: producer_pc.splits)

lemma not_asleep_wake: "\<not> asleep p \<Longrightarrow> wake_producer p = p"
  by (auto split: producer_pc.splits)

declare wake_producer.simps [simp del] asleep.simps [simp del] pushing.simps [simp del]

lemma pc_asleep_pushing:
  "p_pc p = Reading \<Longrightarrow> \<not> asleep p \<and> \<not> pushing p" "p_pc p = Pushing e \<Longrightarrow> \<not> asleep p \<and> pushing p"
  "p_pc p = Push_wait e \<Longrightarrow> asleep p \<and> \<not> pushing p" "p_pc p = Producer_done \<Longrightarrow> \<not> asleep p \<and> \<not> pushing p"
  by (simp_all add: asleep.simps pushing.simps)

lemma thread_fine_wake [simp]: "thread_fine d acc (wake_producer p) = thread_fine d acc p"
  by (simp add: thread_fine_def read_entries_def del: pending.simps)

lemma thread_fine_down: "thread_fine d acc p \<Longrightarrow> thread_fine True acc p"
  by (auto simp: thread_fine_def)

lemma thread_entries_push:
  "thread_entries t (s\<lparr>accepted := accepted s @ [(u, e)]\<rparr>)
     = thread_entries t s @ (if t = u then [e] else [])"
  by (simp add: thread_entries_def)

lemma thread_fine_push:
  assumes "p_pc p = Pushing e" "thread_fine d acc p"
  shows "thread_fine d acc (p\<lparr>p_pc := Push_wait e\<rparr>)" "thread_fine d (acc @ [e]) (p\<lparr>p_pc := Reading\<rparr>)"
    "d \<Longrightarrow> thread_fine d acc (p\<lparr>p_pc := Producer_done\<rparr>)"
  using assms by (auto simp: thread_fine_def read_entries_def)

lemma thread_fine_read:
  assumes "p_pc p = Reading" "thread_fine d acc p"
  shows "thread_fine d acc (producer_on_read r p)"
  using assms by (cases r) (auto simp: thread_fine_def read_entries_def)

lemma thread_fine_new [simp]: "thread_fine d [] (new_producer idx)"
  by (simp add: thread_fine_def read_entries_def new_producer_def)

lemma signal_one_cases:
  assumes "signal_one ps ps'"
  obtains (woken) t where "t < length ps" "asleep (ps ! t)" "ps' = ps[t := wake_producer (ps ! t)]"
  | (nobody) "\<not> list_ex asleep ps" "ps' = ps"
  using assms by (auto simp: signal_one_def list_all_iff list_ex_iff)

lemma inv_threads_update:
  assumes "inv_threads s" "t < length (prods s)"
    "thread_fine (shutdown (buf s)) (thread_entries t s) p"
  shows "inv_threads (s\<lparr>prods := (prods s)[t := p]\<rparr>)"
  using assms by (auto simp: inv_threads_def nth_list_update_cases thread_entries_def)

lemma inv_threads_wake:
  assumes "inv_threads s" "t < length (prods s)"
  shows "inv_threads (s\<lparr>prods := (prods s)[t := wake_producer (prods s ! t)]\<rparr>)"
  using assms by (intro inv_threads_update) (simp_all add: inv_threads_def)

lemma inv_threads_other:
  "inv_threads (s\<lparr>cons := c\<rparr>) = inv_threads s" "inv_threads (s\<lparr>files := fs\<rparr>) = inv_threads s"
  "inv_threads (s\<lparr>delivered := ds\<rparr>) = inv_threads s"
  "shutdown b = shutdown (buf s) \<Longrightarrow> inv_threads (s\<lparr>buf := b\<rparr>) = inv_threads s"
  by (simp_all add: inv_threads_def thread_entries_def)

lemma thread_entries_fresh:
  "\<forall>x \<in> set (accepted s). fst x < n \<Longrightarrow> thread_entries n s = []"
  by (auto simp: thread_entries_def filter_empty_conv)

lemma inv_threads_step:
  assumes "pipe_step s l s'" "inv_threads s"
  shows "inv_threads s'"
  using assms
proof (induction rule: pipe_step.induct)
  case (spawn s idx)
  then show ?case
    using thread_entries_fresh [of s "length (prods s)"]
    by (auto simp: inv_threads_def nth_append less_Suc_eq thread_entries_def)
next
  case (read t s r)
  then have "thread_fine (shutdown (buf s)) (thread_entries t s) (prods s ! t)"
    by (simp add: inv_threads_def)
  with read show ?case
    by (intro inv_threads_update) (simp_all add: thread_fine_read)
next
  case (push_sleep t s e)
  then show ?case
    unfolding set_pc_def
    by (intro inv_threads_update) (simp_all add: inv_threads_def thread_fine_push(1))
next
  case (push_done t s e b)
  note same = push_returns(1) [OF push_done.hyps(3)]
  then show ?case
    using push_done thread_fine_push(2) [OF push_done.hyps(2)]
    by (auto simp: inv_threads_def set_pc_def nth_list_update_cases thread_entries_def)
next
  case (push_refused t s e rc b)
  then have b: "shutdown (buf s)" "b = buf s"
    using push_returns [OF push_refused.hyps(3)] by simp_all
  then have "inv_threads (s\<lparr>prods := set_pc t Producer_done (prods s)\<rparr>)"
    unfolding set_pc_def using push_refused
    by (intro inv_threads_update) (simp_all add: inv_threads_def thread_fine_push(3))
  with b show ?case by simp
next
  case (pop_done s e b ps)
  from pop_done.hyps(3) have "inv_threads (s\<lparr>prods := ps\<rparr>)"
  proof (cases rule: signal_one_cases)
    case (woken t)
    with inv_threads_wake [OF pop_done.prems] show ?thesis by simp
  qed (use pop_done.prems in simp)
  then show ?case
    using pop_returns(1) [OF pop_done.hyps(2)] by (simp add: inv_threads_def thread_entries_def)
next
  case (pop_end s rc eo b)
  then show ?case
    using pop_returns(1) [OF pop_end.hyps(2)] by (simp add: inv_threads_def thread_entries_def)
next
  case (shutdown_all s)
  then show ?case
    by (auto simp: inv_threads_def thread_entries_def intro: thread_fine_down)
next
  case (spurious_producer t s)
  then show ?case
    by (simp add: inv_threads_wake)
qed (simp_all add: inv_threads_other)


lemma filter_pushing_update:
  assumes "t < length ps"
  shows "length (filter pushing (ps[t := p])) + (if pushing (ps ! t) then 1 else 0)
    = length (filter pushing ps) + (if pushing p then 1 else 0)"
  using length_filter_update [OF assms] .

lemma asleep_update:
  assumes "list_ex asleep (ps[t := p])" "t < length ps" "\<not> asleep p"
  shows "list_ex asleep ps"
  using assms by (auto simp: list_ex_iff dest: set_update_subset_cases)

lemma asleep_nth: "t < length ps \<Longrightarrow> asleep (ps ! t) \<Longrightarrow> list_ex asleep ps"
  by (auto simp: list_ex_iff)

lemma wake_counts:
  assumes "t < length ps" "asleep (ps ! t)"
  shows "length (filter pushing (ps[t := wake_producer (ps ! t)]))
    = Suc (length (filter pushing ps))"
proof -
  have "\<not> pushing (ps ! t)"
    using assms(2) by (simp add: asleep.simps pushing.simps split: producer_pc.splits)
  with assms filter_pushing_update [OF assms(1), of "wake_producer (ps ! t)"] show ?thesis
    by simp
qed

lemma producer_on_read_awake: "\<not> asleep p \<Longrightarrow> \<not> asleep (producer_on_read r p)"
  by (cases r) (simp_all add: asleep.simps)

lemma inv_sleep_step:
  assumes "pipe_step s l s'" "inv_sleep s"
  shows "inv_sleep s'"
  using assms
proof (induction rule: pipe_step.induct)
  case (spawn s idx)
  then show ?case
    by (simp add: inv_sleep_def new_producer_def asleep.simps pushing.simps)
next
  case (read t s r)
  note idle = pc_asleep_pushing(1) [OF read.hyps(2)]
  have "length (filter pushing (prods s))
      \<le> length (filter pushing ((prods s)[t := producer_on_read r (prods s ! t)]))"
    using filter_pushing_update [OF read.hyps(1), of "producer_on_read r (prods s ! t)"] idle by simp
  moreover have "list_ex asleep ((prods s)[t := producer_on_read r (prods s ! t)]) \<Longrightarrow>
      list_ex asleep (prods s)"
    using asleep_update [OF _ read.hyps(1)] idle producer_on_read_awake by blast
  ultimately show ?case
    using read.prems by (auto simp: inv_sleep_def)
next
  case (push_sleep t s e)
  then show ?case
    by (simp add: inv_sleep_def push_blocks)
next
  case (push_done t s e b)
  note b = push_returns [OF push_done.hyps(3)]
  let ?p = "(prods s ! t)\<lparr>p_pc := Reading\<rparr>"
  have "\<not> asleep ?p \<and> \<not> pushing ?p"
    by (rule pc_asleep_pushing(1)) simp
  moreover have "pushing (prods s ! t)"
    using pc_asleep_pushing(2) [OF push_done.hyps(2)] by simp
  ultimately have "Suc (length (filter pushing ((prods s)[t := ?p])))
      = length (filter pushing (prods s))"
    and "list_ex asleep ((prods s)[t := ?p]) \<Longrightarrow> list_ex asleep (prods s)"
    using filter_pushing_update [OF push_done.hyps(1), of ?p] asleep_update [OF _ push_done.hyps(1)]
    by auto
  then show ?case
    using push_done.prems b by (auto simp: inv_sleep_def set_pc_def wake_consumer_def)
next
  case (push_refused t s e rc b)
  let ?p = "(prods s ! t)\<lparr>p_pc := Producer_done\<rparr>"
  have "\<not> asleep ?p"
    using pc_asleep_pushing(4) [of ?p] by simp
  then have "list_ex asleep ((prods s)[t := ?p]) \<Longrightarrow> list_ex asleep (prods s)"
    using asleep_update [OF _ push_refused.hyps(1)] by blast
  then show ?case
    using push_refused push_returns [OF push_refused.hyps(3)]
    by (auto simp: inv_sleep_def set_pc_def)
next
  case (pop_sleep s)
  then show ?case
    by (simp add: inv_sleep_def pop_blocks)
next
  case (pop_done s e b ps)
  note b = pop_returns [OF pop_done.hyps(2)]
  from pop_done.hyps(3) show ?case
  proof (cases rule: signal_one_cases)
    case (woken t)
    then show ?thesis
      using pop_done.prems b wake_counts [OF woken(1,2)] asleep_nth [OF woken(1,2)]
      by (auto simp: inv_sleep_def)
  next
    case nobody
    then show ?thesis
      using pop_done.prems b by (auto simp: inv_sleep_def)
  qed
next
  case (pop_end s rc eo b)
  then show ?case
    using pop_returns [OF pop_end.hyps(2)] by (auto simp: inv_sleep_def)
next
  case (shutdown_all s)
  have "\<not> list_ex asleep (map wake_producer (prods s))"
    by (auto simp: list_ex_iff)
  with shutdown_all show ?case
    by (auto simp: inv_sleep_def wake_consumer_def log_buffer_shutdown_def)
next
  case (spurious_producer t s)
  then show ?case
    using wake_counts [OF spurious_producer.hyps] asleep_nth [OF spurious_producer.hyps]
    by (auto simp: inv_sleep_def)
qed (auto simp: inv_sleep_def)

lemma pipe_inv_init: "pipe_inv (pipe_init fs)"
  by (simp add: pipe_inv_def pipe_init_def inv_queue_def inv_threads_def inv_sleep_def
      log_buffer_init_ok log_buffer_init_list)

lemma pipe_inv_step: "pipe_inv s \<Longrightarrow> pipe_step s l s' \<Longrightarrow> pipe_inv s'"
  by (simp add: pipe_inv_def inv_queue_step inv_threads_step inv_sleep_step)

interpretation pipe: invariant_system "\<lambda>s. \<exists>fs. s = pipe_init fs" pipe_step "\<lambda>l. True" pipe_inv
  by unfold_locales (auto simp: pipe_inv_init intro: pipe_inv_step)


lemma reachable_pipe_inv: "lts_run pipe_step (pipe_init fs) ls s \<Longrightarrow> pipe_inv s"
  by (rule pipe.run_inv) auto


section \<open>Progress\<close>

lemma pop_enabled:
  assumes "cons s = Popping" "log_buffer_ok (buf s)" "0 < count (buf s)"
  obtains e b ps where "log_buffer_pop (buf s) = Returns (0, Some e, b)" "signal_one (prods s) ps"
    "pipe_step s Do_pop (s\<lparr>buf := b, prods := ps, cons := Writing e, delivered := delivered s @ [e]\<rparr>)"
proof -
  obtain e b where pop: "log_buffer_pop (buf s) = Returns (0, Some e, b)"
    using assms(3) by (simp add: log_buffer_pop_def)
  have "\<exists>ps. signal_one (prods s) ps"
  proof (cases "list_all (\<lambda>p. \<not> asleep p) (prods s)")
    case False
    then obtain t where "t < length (prods s)" "asleep (prods s ! t)"
      by (auto simp: list_all_iff in_set_conv_nth)
    then show ?thesis
      unfolding signal_one_def by blast
  qed (auto simp: signal_one_def)
  then obtain ps where "signal_one (prods s) ps" ..
  with pop that assms(1) pop_done show ?thesis by blast
qed

lemma push_enabled:
  assumes "inv_queue s" "t < length (prods s)" "pushing (prods s ! t)"
    "count (buf s) < LOG_BUFFER_CAPACITY" "\<not> shutdown (buf s)"
  shows "\<exists>s'. pipe_step s (Do_push t) s' \<and> accepted s' \<noteq> accepted s"
proof -
  obtain e where e: "p_pc (prods s ! t) = Pushing e"
    using assms(3) by (auto simp: pushing.simps split: producer_pc.splits)
  obtain b where "log_buffer_push (buf s) e = Returns (0, b)"
    using assms(4,5) by (simp add: log_buffer_push_def)
  with push_done [OF assms(2) e this] show ?thesis
    by fastforce
qed

lemma empty_push_enabled:
  assumes "inv_queue s" "\<not> shutdown (buf s)" "count (buf s) = 0"
    "LOG_BUFFER_CAPACITY \<le> length (filter pushing (prods s))"
  shows "\<exists>t s'. pipe_step s (Do_push t) s' \<and> accepted s' \<noteq> accepted s"
proof -
  have "0 < length (filter pushing (prods s))"
    by (rule less_le_trans [OF _ assms(4)]) (simp add: c_layout)
  then obtain t where t: "t < length (prods s)" "pushing (prods s ! t)"
    by (auto simp: filter_empty_conv in_set_conv_nth)
  have "count (buf s) < LOG_BUFFER_CAPACITY"
    using assms(3) by (simp add: c_layout)
  from push_enabled [OF assms(1) t this assms(2)] show ?thesis by blast
qed

text \<open>
  Claim C4. The logging threads never deadlock on the buffer: whenever a producer sleeps because
  the buffer was full, the consumer can finish its write, or it can take an entry out, or
  another producer can put one in, without any spurious wake-up.
\<close>

theorem pipeline_no_deadlock:
  assumes "lts_run pipe_step (pipe_init fs) ls s" "list_ex asleep (prods s)"
  shows "\<exists>l s'. pipe_step s l s'
    \<and> (delivered s' \<noteq> delivered s \<or> accepted s' \<noteq> accepted s
       \<or> (\<exists>e. cons s = Writing e) \<and> cons s' = Popping)"
proof -
  have inv: "inv_queue s" "inv_sleep s"
    using reachable_pipe_inv [OF assms(1)] by (simp_all add: pipe_inv_def)
  then have full: "\<not> shutdown (buf s)"
    "LOG_BUFFER_CAPACITY \<le> count (buf s) + length (filter pushing (prods s))"
    using assms(2) by (simp_all add: inv_sleep_def)
  show ?thesis
  proof (cases "cons s")
    case (Writing e)
    with write_entry [OF Writing, of undefined Open_fails] show ?thesis by fastforce
  next
    case Consumer_done
    with inv full show ?thesis by (simp add: inv_sleep_def)
  next
    case Popping
    show ?thesis
    proof (cases "count (buf s) = 0")
      case False
      have "\<exists>s'. pipe_step s Do_pop s' \<and> delivered s' \<noteq> delivered s"
      proof (rule pop_enabled [OF Popping])
        show "log_buffer_ok (buf s)" "0 < count (buf s)"
          using inv False by (simp_all add: inv_queue_def)
      qed (fastforce intro: exI)
      then show ?thesis by blast
    next
      case True
      then show ?thesis
        using empty_push_enabled [OF inv(1) full(1)] full(2) by auto
    qed
  next
    case Pop_wait
    then have "count (buf s) = 0"
      using inv by (simp add: inv_sleep_def)
    then show ?thesis
      using empty_push_enabled [OF inv(1) full(1)] full(2) by auto
  qed
qed


lemma fill_buffer:
  "n \<le> LOG_BUFFER_CAPACITY \<Longrightarrow> \<exists>ls s. lts_run pipe_step (pipe_init fs) ls s \<and> count (buf s) = n
     \<and> length (prods s) = 1 \<and> p_pc (prods s ! 0) = Reading \<and> \<not> shutdown (buf s)"
proof (induction n)
  case 0
  have "lts_run pipe_step (pipe_init fs) [Spawn 0]
      ((pipe_init fs)\<lparr>prods := prods (pipe_init fs) @ [new_producer 0]\<rparr>)"
    by (rule lts_run_single [of pipe_step, OF spawn])
  then show ?case
    by (intro exI conjI) (auto simp: pipe_init_def new_producer_def log_buffer_init_def)
next
  case (Suc n)
  then obtain ls s where s: "lts_run pipe_step (pipe_init fs) ls s" "count (buf s) = n"
    "length (prods s) = 1" "p_pc (prods s ! 0) = Reading" "\<not> shutdown (buf s)"
    by auto
  define s1 where "s1 = s\<lparr>prods := (prods s)[0 := producer_on_read (Read_data ''x'') (prods s ! 0)]\<rparr>"
  have r: "pipe_step s (Do_read 0 (Read_data ''x'')) s1"
    unfolding s1_def using s by (intro read) (simp_all add: c_layout)
  define e where "e = producer_entry (p_index (prods s ! 0)) ''x''"
  have pc: "p_pc (prods s1 ! 0) = Pushing e" "0 < length (prods s1)"
    using s(3) by (simp_all add: s1_def e_def)
  obtain b where b: "log_buffer_push (buf s1) e = Returns (0, b)" "count b = Suc n" "\<not> shutdown b"
    using s(2,5) Suc.prems by (simp add: s1_def log_buffer_push_def)
  note p = push_done [OF pc(2,1) b(1)]
  define s2 where "s2 = s1\<lparr>buf := b, prods := set_pc 0 Reading (prods s1),
    cons := wake_consumer (cons s1), accepted := accepted s1 @ [(0, e)]\<rparr>"
  have "lts_run pipe_step (pipe_init fs) ((ls @ [Do_read 0 (Read_data ''x'')]) @ [Do_push 0]) s2"
    unfolding s2_def by (rule run_snoc [OF run_snoc [OF s(1) r] p])
  moreover have "count (buf s2) = Suc n" "length (prods s2) = 1" "p_pc (prods s2 ! 0) = Reading"
    "\<not> shutdown (buf s2)"
    using b(2,3) s(3) pc(2) by (simp_all add: s2_def set_pc_def s1_def)
  ultimately show ?case by blast
qed

lemma full_buffer_sleeper:
  "\<exists>ls s. lts_run pipe_step (pipe_init fs) ls s \<and> list_ex asleep (prods s)"
proof -
  obtain ls s where s: "lts_run pipe_step (pipe_init fs) ls s"
    "count (buf s) = LOG_BUFFER_CAPACITY" "length (prods s) = 1" "p_pc (prods s ! 0) = Reading"
    "\<not> shutdown (buf s)"
    using fill_buffer [of LOG_BUFFER_CAPACITY fs] by auto
  define s1 where "s1 = s\<lparr>prods := (prods s)[0 := producer_on_read (Read_data ''x'') (prods s ! 0)]\<rparr>"
  have r: "pipe_step s (Do_read 0 (Read_data ''x'')) s1"
    unfolding s1_def using s by (intro read) (simp_all add: c_layout)
  define e where "e = producer_entry (p_index (prods s ! 0)) ''x''"
  have pc: "0 < length (prods s1)" "p_pc (prods s1 ! 0) = Pushing e"
    "log_buffer_push (buf s1) e = Blocks"
    using s by (simp_all add: s1_def e_def push_blocks)
  have "lts_run pipe_step (pipe_init fs) ((ls @ [Do_read 0 (Read_data ''x'')]) @ [Do_push 0])
      (s1\<lparr>prods := set_pc 0 (Push_wait e) (prods s1)\<rparr>)"
    by (rule run_snoc [OF run_snoc [OF s(1) r] push_sleep [OF pc]])
  moreover have "list_ex asleep (set_pc 0 (Push_wait e) (prods s1))"
    using pc(1) by (intro asleep_nth [of 0]) (simp_all add: set_pc_def asleep.simps)
  ultimately show ?thesis
    by (metis pipeline.select_convs(2) pipeline.surjective pipeline.update_convs(2))
qed

theorem pipeline_no_deadlock_witness:
  "\<exists>ls s l s'. lts_run pipe_step (pipe_init (\<lambda>_. [])) ls s \<and> list_ex asleep (prods s)
     \<and> pipe_step s l s'"
proof -
  obtain ls s where "lts_run pipe_step (pipe_init (\<lambda>_. [])) ls s" "list_ex asleep (prods s)"
    using full_buffer_sleeper by blast
  with pipeline_no_deadlock [OF this] show ?thesis by blast
qed


section \<open>Delivery\<close>

lemma thread_rest:
  assumes "inv_threads s" "t < length (prods s)"
  shows "\<exists>rest. read_entries (prods s ! t) = thread_entries t s @ rest
    \<and> length rest \<le> 1 \<and> (rest = [] \<or> rest = pending (prods s ! t) \<or> shutdown (buf s))"
proof -
  have "length (pending (prods s ! t)) \<le> 1"
    by (simp split: producer_pc.splits)
  then show ?thesis
    using assms by (fastforce simp: inv_threads_def thread_fine_def simp del: pending.simps)
qed

text \<open>
  Claim C3. Chunks are neither lost, duplicated nor reordered: in every reachable state the
  accepted chunks are the delivered ones followed by those in the buffer, at most
  \<^verbatim>\<open>LOG_BUFFER_CAPACITY\<close> of them, and each producer thread's chunks were accepted in the order
  it read them, all but at most the last one, which is either still in its hands or, after a
  shutdown, given up.
\<close>

theorem pipeline_order:
  assumes "lts_run pipe_step (pipe_init fs) ls s"
  shows "map snd (accepted s) = delivered s @ log_buffer_list (buf s)
    \<and> length (log_buffer_list (buf s)) \<le> LOG_BUFFER_CAPACITY
    \<and> (\<forall>t < length (prods s). \<exists>rest.
         map (producer_entry (p_index (prods s ! t))) (p_read (prods s ! t))
           = map snd (filter (\<lambda>x. fst x = t) (accepted s)) @ rest
         \<and> length rest \<le> 1 \<and> (rest = [] \<or> rest = pending (prods s ! t) \<or> shutdown (buf s)))"
proof -
  have inv: "inv_queue s" "inv_threads s"
    using reachable_pipe_inv [OF assms] by (simp_all add: pipe_inv_def)
  then show ?thesis
    using thread_rest [OF inv(2)]
    by (simp add: inv_queue_def read_entries_def thread_entries_def log_buffer_ok_def
        del: pending.simps)
qed

theorem pipeline_order_witness:
  "\<exists>ls s. lts_run pipe_step (pipe_init (\<lambda>_. [])) ls s \<and> accepted s \<noteq> []
     \<and> map snd (accepted s) = delivered s @ log_buffer_list (buf s)"
proof -
  obtain ls s where s: "lts_run pipe_step (pipe_init (\<lambda>_. [])) ls s" "count (buf s) = 1"
    using fill_buffer [of 1 "\<lambda>_. []"] by (auto simp: c_layout)
  have "length (log_buffer_list (buf s)) = 1"
    using s(2) by simp
  with pipeline_order [OF s(1)] s(1) show ?thesis
    by (metis One_nat_def append_is_Nil_conv length_0_conv list.map(1) zero_neq_one)
qed

end
