(* ===== verification/Log_Delivery.thy ===== *)
theory Log_Delivery
  imports Log_Pipeline
begin

text \<open>
  The end of the logging threads and the contents of the log files: after a shutdown the
  consumer finishes by itself and has then delivered everything that was accepted, and a
  container's log file holds what its producer read, in order.
\<close>


section \<open>Draining\<close>

lemma shutdown_nobody_asleep: "pipe_inv s \<Longrightarrow> shutdown (buf s) \<Longrightarrow> \<not> list_ex asleep (prods s)"
  by (auto simp: pipe_inv_def inv_sleep_def)

lemma consumer_drains:
  assumes "pipe_inv s" "shutdown (buf s)" "cons s = Popping"
  shows "\<exists>ls s'. lts_run pipe_step s ls s' \<and> set ls \<subseteq> {Do_pop, Do_write cs out}
    \<and> length ls = 2 * count (buf s) + 1 \<and> cons s' = Consumer_done \<and> accepted s' = accepted s"
  using assms
proof (induction "count (buf s)" arbitrary: s)
  case 0
  then have pop: "log_buffer_pop (buf s) = Returns (-1, None, buf s)"
    by (simp add: log_buffer_pop_def)
  have "lts_run pipe_step s [Do_pop] (s\<lparr>buf := buf s, cons := Consumer_done\<rparr>)"
    using pop_end [OF "0.prems"(3) pop] by (intro lts_run_single) simp
  with 0 show ?case
    by (intro exI [of _ "[Do_pop]"] exI [of _ "s\<lparr>buf := buf s, cons := Consumer_done\<rparr>"]) simp
next
  case (Suc n)
  have "log_buffer_ok (buf s)" "0 < count (buf s)"
    using Suc.prems(1) Suc.hyps(2) by (simp_all add: pipe_inv_def inv_queue_def)
  with Suc.prems(3) obtain e b ps where pop: "log_buffer_pop (buf s) = Returns (0, Some e, b)"
    and step: "pipe_step s Do_pop
      (s\<lparr>buf := b, prods := ps, cons := Writing e, delivered := delivered s @ [e]\<rparr>)"
    by (rule pop_enabled)
  define s1 where "s1 = s\<lparr>buf := b, prods := ps, cons := Writing e, delivered := delivered s @ [e]\<rparr>"
  define s2 where "s2 = s1\<lparr>files := log_consumer_write cs out e (files s1), cons := Popping\<rparr>"
  have step1: "pipe_step s Do_pop s1"
    using step by (simp add: s1_def)
  have step2: "pipe_step s1 (Do_write cs out) s2"
    unfolding s2_def by (rule write_entry) (simp add: s1_def)
  have "pipe_inv s2"
    using pipe_inv_step [OF pipe_inv_step [OF Suc.prems(1) step1] step2] .
  moreover have "n = count (buf s2)" "shutdown (buf s2)" "cons s2 = Popping"
    "accepted s2 = accepted s"
    using pop_returns [OF pop] Suc.hyps(2) Suc.prems(2) by (simp_all add: s2_def s1_def)
  ultimately obtain ls s' where r: "lts_run pipe_step s2 ls s'"
    "set ls \<subseteq> {Do_pop, Do_write cs out}" "length ls = 2 * count (buf s2) + 1"
    "cons s' = Consumer_done" "accepted s' = accepted s2"
    using Suc.hyps(1) by blast
  have "lts_run pipe_step s (Do_pop # Do_write cs out # ls) s'"
    using lts_run_Cons [of pipe_step, OF step1 lts_run_Cons [of pipe_step, OF step2 r(1)]] .
  then show ?case
    using r \<open>n = _\<close> Suc.hyps(2) \<open>accepted s2 = _\<close>
    by (intro exI [of _ "Do_pop # Do_write cs out # ls"] exI [of _ s']) simp
qed

lemma done_delivered:
  assumes "pipe_inv s" "cons s = Consumer_done"
  shows "delivered s = map snd (accepted s)" "shutdown (buf s)"
proof -
  have "log_buffer_list (buf s) = []"
    using assms by (simp add: pipe_inv_def inv_sleep_def flip: length_0_conv)
  then show "delivered s = map snd (accepted s)" "shutdown (buf s)"
    using assms by (simp_all add: pipe_inv_def inv_queue_def inv_sleep_def)
qed

lemma pipe_run_inv:
  "lts_run pipe_step s ls s' \<Longrightarrow> pipe_inv s \<Longrightarrow> pipe_inv s'"
  by (induction rule: lts_run.induct) (auto intro: pipe_inv_step)

text \<open>
  Claim C5. Shutdown drains the buffer: once the shutdown flag is set the consumer can finish by
  steps of its own alone, whatever the producers do or fail to do, after at most one write and
  twice as many steps as there are chunks in the buffer and one more; when it has finished,
  every chunk that was ever accepted has been delivered.
\<close>

theorem shutdown_drains:
  assumes "lts_run pipe_step (pipe_init fs) ls s" "shutdown (buf s)"
  shows "\<exists>ms s'. lts_run pipe_step s ms s' \<and> set ms \<subseteq> {Do_pop, Do_write cs out}
    \<and> length ms \<le> 2 * count (buf s) + 2 \<and> cons s' = Consumer_done
    \<and> accepted s' = accepted s \<and> delivered s' = map snd (accepted s)"
proof -
  have inv: "pipe_inv s"
    by (rule reachable_pipe_inv [OF assms(1)])
  have "\<exists>ms s'. lts_run pipe_step s ms s' \<and> set ms \<subseteq> {Do_pop, Do_write cs out}
      \<and> length ms \<le> 2 * count (buf s) + 2 \<and> cons s' = Consumer_done \<and> accepted s' = accepted s"
  proof (cases "cons s")
    case Popping
    then show ?thesis
      using consumer_drains [OF inv assms(2) Popping, of cs out] by fastforce
  next
    case Pop_wait
    then show ?thesis
      using inv assms(2) by (simp add: pipe_inv_def inv_sleep_def)
  next
    case (Writing e)
    define s1 where "s1 = s\<lparr>files := log_consumer_write cs out e (files s), cons := Popping\<rparr>"
    have step: "pipe_step s (Do_write cs out) s1"
      unfolding s1_def by (rule write_entry [OF Writing])
    have s1: "pipe_inv s1" "shutdown (buf s1)" "cons s1 = Popping" "accepted s1 = accepted s"
      "count (buf s1) = count (buf s)"
      using pipe_inv_step [OF inv step] assms(2) by (simp_all add: s1_def)
    obtain ms s' where m: "lts_run pipe_step s1 ms s'" "set ms \<subseteq> {Do_pop, Do_write cs out}"
      "length ms = 2 * count (buf s1) + 1" "cons s' = Consumer_done" "accepted s' = accepted s1"
      using consumer_drains [OF s1(1-3), of cs out] by blast
    with s1 lts_run_Cons [of pipe_step, OF step m(1)] show ?thesis
      by (intro exI [of _ "Do_write cs out # ms"] exI [of _ s']) simp
  next
    case Consumer_done
    then show ?thesis
      using run_Nil [of pipe_step s] by (intro exI [of _ "[]"] exI [of _ s]) simp
  qed
  then obtain ms s' where m: "lts_run pipe_step s ms s'" "set ms \<subseteq> {Do_pop, Do_write cs out}"
    "length ms \<le> 2 * count (buf s) + 2" "cons s' = Consumer_done" "accepted s' = accepted s"
    by blast
  with done_delivered(1) [OF pipe_run_inv [OF m(1) inv] m(4)] show ?thesis
    by metis
qed

theorem shutdown_drains_witness:
  "\<exists>s ms s'. count (buf s) = 3 \<and> lts_run pipe_step s ms s' \<and> length ms \<le> 8
     \<and> cons s' = Consumer_done \<and> length (delivered s') = length (accepted s)"
proof -
  obtain ls s where s: "lts_run pipe_step (pipe_init (\<lambda>_. [])) ls s" "count (buf s) = 3"
    using fill_buffer [of 3 "\<lambda>_. []"] by (auto simp: c_layout)
  define u where "u = s\<lparr>buf := log_buffer_shutdown (buf s),
      prods := map wake_producer (prods s), cons := wake_consumer (cons s)\<rparr>"
  have "pipe_step s Do_shutdown u"
    unfolding u_def by (rule shutdown_all)
  then have run: "lts_run pipe_step (pipe_init (\<lambda>_. [])) (ls @ [Do_shutdown]) u"
    by (rule run_snoc [OF s(1)])
  have u: "shutdown (buf u)" "count (buf u) = 3" "accepted u = accepted s"
    using s(2) by (simp_all add: u_def log_buffer_shutdown_def)
  obtain ms s' where "lts_run pipe_step u ms s'" "length ms \<le> 2 * count (buf u) + 2"
    "cons s' = Consumer_done" "delivered s' = map snd (accepted u)"
    using shutdown_drains [OF run u(1)] by blast
  with u show ?thesis
    by (intro exI [of _ u] exI [of _ ms] exI [of _ s']) simp
qed



section \<open>Contents of the log files\<close>

text \<open>
  The environment of a run in which containers \<open>I\<close> are logged to the files \<open>f\<close>: producers are
  started for slots in \<open>I\<close> only, and whenever the consumer handles an entry those slots are in
  use with these log files, the file opens, and the write is complete.
\<close>

fun logging_works :: "nat set \<Rightarrow> (nat \<Rightarrow> string) \<Rightarrow> pipe_label \<Rightarrow> bool" where
  "logging_works I f (Spawn idx) \<longleftrightarrow> idx \<in> I"
| "logging_works I f (Do_write cs out) \<longleftrightarrow>
     (\<forall>i \<in> I. used (cs ! i) \<and> log_file (cs ! i) = f i) \<and> (\<exists>n. out = Wrote n \<and> LOG_CHUNK_SIZE \<le> n)"
| "logging_works I f _ \<longleftrightarrow> True"

definition log_names :: "nat set \<Rightarrow> (nat \<Rightarrow> string) \<Rightarrow> bool" where
  "log_names I f \<longleftrightarrow> inj_on f I \<and> (\<forall>i \<in> I. i < MAX_CONTAINERS \<and> f i \<noteq> [] \<and> fits MAX_PATH_LEN (f i))"

fun handled_of :: "consumer_pc \<Rightarrow> log_entry list \<Rightarrow> log_entry list" where
  "handled_of (Writing e) ds = butlast ds"
| "handled_of _ ds = ds"

definition handled :: "pipeline \<Rightarrow> log_entry list" where
  "handled s = handled_of (cons s) (delivered s)"

definition chunk_of :: "nat set \<Rightarrow> log_entry \<Rightarrow> bool" where
  "chunk_of I e \<longleftrightarrow> (\<exists>i \<in> I. \<exists>bs. e = producer_entry i bs \<and> length bs \<le> LOG_CHUNK_SIZE)"

definition inv_files :: "nat set \<Rightarrow> (nat \<Rightarrow> string) \<Rightarrow> (string \<Rightarrow> char list) \<Rightarrow> pipeline \<Rightarrow> bool" where
  "inv_files I f fs s \<longleftrightarrow> pipe_inv s
     \<and> (\<forall>p \<in> set (prods s). p_index p \<in> I \<and> (\<forall>bs \<in> set (p_read p). length bs \<le> LOG_CHUNK_SIZE))
     \<and> (\<forall>e. cons s = Writing e \<longrightarrow> delivered s = handled s @ [e])
     \<and> (\<forall>i \<in> I. files s (f i) = fs (f i)
          @ concat (map entry_bytes (filter (\<lambda>e. container_index e = int i) (handled s))))"

lemma handled_of_wake [simp]: "handled_of (wake_consumer c) ds = handled_of c ds"
  by (cases c) (simp_all add: wake_consumer_def)

lemma wake_consumer_Writing [simp]: "wake_consumer c = Writing e \<longleftrightarrow> c = Writing e"
  by (simp add: wake_consumer_def)

lemma producer_entry_simps [simp]:
  "container_index (producer_entry i bs) = int i" "len (producer_entry i bs) = length bs"
  "length bs \<le> LOG_CHUNK_SIZE \<Longrightarrow> entry_bytes (producer_entry i bs) = bs"
  by (simp_all add: producer_entry_def entry_bytes_def)

lemma accepted_of_thread:
  assumes "inv_threads s" "(t, e) \<in> set (accepted s)"
  shows "t < length (prods s)" "e \<in> set (read_entries (prods s ! t))"
proof -
  show t: "t < length (prods s)"
    using assms by (auto simp: inv_threads_def)
  have "e \<in> set (thread_entries t s)"
    using assms(2) by (force simp: thread_entries_def)
  then show "e \<in> set (read_entries (prods s ! t))"
    using assms(1) t by (fastforce simp: inv_threads_def thread_fine_def simp del: pending.simps)
qed

lemma delivered_chunk:
  assumes "inv_files I f fs s" "e \<in> set (delivered s)"
  shows "chunk_of I e"
proof -
  have inv: "inv_queue s" "inv_threads s"
    using assms(1) by (simp_all add: inv_files_def pipe_inv_def)
  have "e \<in> set (map snd (accepted s))"
    using inv(1) assms(2) unfolding inv_queue_def by (metis Un_iff set_append)
  then obtain t where "(t, e) \<in> set (accepted s)"
    by auto
  then have t: "t < length (prods s)" "e \<in> set (read_entries (prods s ! t))"
    using accepted_of_thread [OF inv(2)] by blast+
  then obtain bs where bs: "bs \<in> set (p_read (prods s ! t))"
    "e = producer_entry (p_index (prods s ! t)) bs"
    by (auto simp: read_entries_def)
  moreover have "p_index (prods s ! t) \<in> I" "length bs \<le> LOG_CHUNK_SIZE"
    using assms(1) nth_mem [OF t(1)] bs(1) by (auto simp: inv_files_def)
  ultimately show ?thesis
    by (auto simp: chunk_of_def)
qed

lemma inv_files_write:
  assumes inv: "inv_files I f fs s" and e: "cons s = Writing e" and names: "log_names I f"
    and ok: "logging_works I f (Do_write cs out)"
  shows "inv_files I f fs (s\<lparr>files := log_consumer_write cs out e (files s), cons := Popping\<rparr>)"
proof -
  have del: "delivered s = handled s @ [e]"
    using inv e by (simp add: inv_files_def)
  then have "chunk_of I e"
    using delivered_chunk [OF inv] by simp
  then obtain i bs where i: "i \<in> I" "e = producer_entry i bs" "length bs \<le> LOG_CHUNK_SIZE"
    by (auto simp: chunk_of_def)
  obtain n where out: "out = Wrote n" "LOG_CHUNK_SIZE \<le> n"
    using ok by auto
  have path: "log_path cs e = f i" "f i \<noteq> []"
    using i names ok by (auto simp: log_path_def log_names_def safe_strcpy_id)
  have "log_consumer_write cs out e (files s) = (files s)(f i := files s (f i) @ bs)"
    using out path i by (simp)
  moreover have "f j = f i \<longleftrightarrow> j = i" if "j \<in> I" for j
    using names that i(1) by (auto simp: log_names_def inj_on_def)
  moreover have "handled (s\<lparr>files := fs', cons := Popping\<rparr>) = handled s @ [e]" for fs'
    using del by (simp add: handled_def)
  moreover have "pipe_inv (s\<lparr>files := log_consumer_write cs out e (files s), cons := Popping\<rparr>)"
    using inv pipe_inv_step [OF _ write_entry [OF e]] by (simp add: inv_files_def)
  ultimately show ?thesis
    using inv i by (auto simp: inv_files_def)
qed

lemma wake_set: "p \<in> set (ps[t := wake_producer (ps ! t)]) \<Longrightarrow> t < length ps \<Longrightarrow>
    \<exists>q \<in> set ps. p_index p = p_index q \<and> p_read p = p_read q"
  by (metis nth_mem set_update_subset_cases wake_producer_simps(1,2))

lemma signal_set: "signal_one ps ps' \<Longrightarrow> p \<in> set ps' \<Longrightarrow>
    \<exists>q \<in> set ps. p_index p = p_index q \<and> p_read p = p_read q"
  by (auto elim!: signal_one_cases dest: wake_set)

lemma set_pc_set: "p \<in> set (set_pc t pc ps) \<Longrightarrow> t < length ps \<Longrightarrow>
    \<exists>q \<in> set ps. p_index p = p_index q \<and> p_read p = p_read q"
  unfolding set_pc_def
  by (drule set_update_subset_cases, erule disjE) (auto intro: bexI [of _ "ps ! t"])

lemma inv_files_keep:
  assumes "inv_files I f fs s" "pipe_inv s'" "handled s' = handled s" "files s' = files s"
    "\<And>p. p \<in> set (prods s') \<Longrightarrow> \<exists>q \<in> set (prods s). p_index p = p_index q \<and> p_read p = p_read q"
    "\<And>e. cons s' = Writing e \<Longrightarrow> delivered s' = handled s' @ [e]"
  shows "inv_files I f fs s'"
  using assms unfolding inv_files_def by metis

lemma inv_files_step:
  assumes step: "pipe_step s l s'" and "inv_files I f fs s" "logging_works I f l" "log_names I f"
  shows "inv_files I f fs s'"
proof -
  have inv': "pipe_inv s'" and wr: "cons s = Writing e \<Longrightarrow> delivered s = handled s @ [e]" for e
    using assms(2) pipe_inv_step [OF _ step] by (simp_all add: inv_files_def)
  note keep = inv_files_keep [OF assms(2) inv']
  from step show ?thesis
  proof (cases rule: pipe_step.cases)
    case (spawn idx)
    then show ?thesis
      using assms(2,3) inv' by (simp add: inv_files_def new_producer_def handled_def)
  next
    case (read t r)
    have "p_index q \<in> I \<and> (\<forall>bs \<in> set (p_read q). length bs \<le> LOG_CHUNK_SIZE)"
      if "q \<in> set (prods s')" for q
    proof -
      have "p_index (prods s ! t) \<in> I"
        "\<forall>bs \<in> set (p_read (prods s ! t)). length bs \<le> LOG_CHUNK_SIZE"
        using assms(2) nth_mem [OF read(3)] by (auto simp: inv_files_def)
      then have "p_index (producer_on_read r (prods s ! t)) \<in> I
          \<and> (\<forall>bs \<in> set (p_read (producer_on_read r (prods s ! t))). length bs \<le> LOG_CHUNK_SIZE)"
        using read(5) by (cases r) auto
      then show ?thesis
        using that assms(2) read(2) by (auto simp: inv_files_def dest!: set_update_subset_cases)
    qed
    then show ?thesis
      using assms(2) inv' read(2) by (simp add: inv_files_def handled_def)
  next
    case (push_sleep t e)
    show ?thesis
      by (rule keep) (use push_sleep wr in \<open>auto simp: handled_def dest: set_pc_set\<close>)
  next
    case (push_done t e b)
    show ?thesis
      by (rule keep) (use push_done wr in \<open>auto simp: handled_def dest: set_pc_set\<close>)
  next
    case (push_refused t e rc b)
    show ?thesis
      by (rule keep) (use push_refused wr in \<open>auto simp: handled_def dest: set_pc_set\<close>)
  next
    case pop_sleep
    show ?thesis
      by (rule keep) (use pop_sleep in \<open>auto simp: handled_def\<close>)
  next
    case (pop_done e b ps)
    show ?thesis
      by (rule keep) (use pop_done in \<open>auto simp: handled_def dest: signal_set\<close>)
  next
    case (pop_end rc eo b)
    show ?thesis
      by (rule keep) (use pop_end in \<open>auto simp: handled_def\<close>)
  next
    case (write_entry e cs out)
    then show ?thesis
      using inv_files_write [OF assms(2) write_entry(3) assms(4)] assms(3) by simp
  next
    case shutdown_all
    show ?thesis
      by (rule keep) (use shutdown_all wr in \<open>auto simp: handled_def\<close>)
  next
    case (spurious_producer t)
    show ?thesis
      by (rule keep) (use spurious_producer wr in \<open>auto simp: handled_def dest: wake_set\<close>)
  next
    case spurious_consumer
    show ?thesis
      by (rule keep) (use spurious_consumer in \<open>auto simp: handled_def\<close>)
  qed
qed


lemma inv_files_init: "inv_files I f fs (pipe_init fs)"
  using pipe_inv_init [of fs] by (simp add: inv_files_def pipe_init_def handled_def)

interpretation log_files: invariant_system "\<lambda>s. s = pipe_init fs" pipe_step
  "\<lambda>l. log_names I f \<and> logging_works I f l" "inv_files I f fs" for I f fs
  by unfold_locales (auto simp: inv_files_init intro: inv_files_step)

lemma accepted_of_container:
  assumes inv: "inv_threads s" and i: "p_index (prods s ! t) = i"
    and only: "\<And>u. u < length (prods s) \<Longrightarrow> p_index (prods s ! u) = i \<Longrightarrow> u = t"
  shows "filter (\<lambda>e. container_index e = int i) (map snd (accepted s)) = thread_entries t s"
proof -
  have "container_index (snd x) = int i \<longleftrightarrow> fst x = t" if "x \<in> set (accepted s)" for x
  proof -
    obtain u e where x: "x = (u, e)" by (cases x)
    have u: "u < length (prods s)" "e \<in> set (read_entries (prods s ! u))"
      using accepted_of_thread [OF inv] that x by blast+
    then have "container_index e = int (p_index (prods s ! u))"
      by (auto simp: read_entries_def)
    then show ?thesis
      using x i only [OF u(1)] by auto
  qed
  then show ?thesis
    by (simp add: filter_map thread_entries_def comp_def cong: filter_cong)
qed

lemma map_prefix:
  assumes "map g xs = ys @ zs"
  shows "ys = map g (take (length ys) xs)" "length (drop (length ys) xs) = length zs"
proof -
  show "ys = map g (take (length ys) xs)"
    using assms by (metis append_eq_conv_conj take_map)
  show "length (drop (length ys) xs) = length zs"
    using arg_cong [OF assms, of length] by simp
qed



definition example_chunk :: log_entry where
  "example_chunk = producer_entry 0 ''hi''"

definition example_pushed :: log_buffer where
  "example_pushed = log_buffer_init\<lparr>entries := (entries log_buffer_init)[0 := example_chunk],
     tail := 1, count := 1\<rparr>"

definition example_popped :: log_buffer where
  "example_popped = example_pushed\<lparr>head := 1, count := 0\<rparr>"

definition example_table :: "container list" where
  "example_table = init_containers[0 := zero_container\<lparr>used := True, log_file := ''logs/a.log''\<rparr>]"

definition pipe_at :: "log_buffer \<Rightarrow> producer_pc \<Rightarrow> char list list \<Rightarrow> consumer_pc
    \<Rightarrow> (string \<Rightarrow> char list) \<Rightarrow> (nat \<times> log_entry) list \<Rightarrow> log_entry list \<Rightarrow> pipeline" where
  "pipe_at b pc reads c fs acc del = \<lparr>buf = b, prods = [\<lparr>p_index = 0, p_pc = pc, p_read = reads\<rparr>],
     cons = c, files = fs, accepted = acc, delivered = del\<rparr>"

lemma example_buffer_ops:
  "log_buffer_push log_buffer_init example_chunk = Returns (0, example_pushed)"
  "log_buffer_pop example_pushed = Returns (0, Some example_chunk, example_popped)"
  "log_buffer_pop (log_buffer_shutdown example_popped)
     = Returns (-1, None, log_buffer_shutdown example_popped)"
  by (simp_all add: log_buffer_push_def log_buffer_pop_def example_pushed_def example_popped_def
      log_buffer_init_def log_buffer_shutdown_def c_layout)

lemma example_write:
  "log_consumer_write example_table (Wrote 512) example_chunk (\<lambda>_. []) = (\<lambda>_. [])(''logs/a.log'' := ''hi'')"
proof -
  have "log_path example_table example_chunk = ''logs/a.log''"
    by (simp add: log_path_def example_chunk_def example_table_def init_containers_def
        safe_strcpy_def c_layout)
  moreover have "entry_bytes example_chunk = ''hi''"
    by (simp add: example_chunk_def c_layout)
  ultimately show ?thesis by simp
qed

lemma example_log_run:
  "\<exists>s. lts_run pipe_step (pipe_init (\<lambda>_. []))
     [Spawn 0, Do_read 0 (Read_data ''hi''), Do_push 0, Do_pop, Do_write example_table (Wrote 512),
      Do_shutdown, Do_pop] s
   \<and> cons s = Consumer_done \<and> prods s = [\<lparr>p_index = 0, p_pc = Reading, p_read = [''hi'']\<rparr>]"
proof -
  let ?fs = "(\<lambda>_. [])(''logs/a.log'' := ''hi'')" and ?e = example_chunk
  have 1: "pipe_step (pipe_init (\<lambda>_. [])) (Spawn 0)
      (pipe_at log_buffer_init Reading [] Popping (\<lambda>_. []) [] [])"
    using spawn [of "pipe_init (\<lambda>_. [])" 0] by (simp add: pipe_init_def pipe_at_def new_producer_def)
  have 2: "pipe_step (pipe_at log_buffer_init Reading [] Popping (\<lambda>_. []) [] []) (Do_read 0 (Read_data ''hi''))
      (pipe_at log_buffer_init (Pushing ?e) [''hi''] Popping (\<lambda>_. []) [] [])"
    using read [of 0 "pipe_at log_buffer_init Reading [] Popping (\<lambda>_. []) [] []" "Read_data ''hi''"]
    by (simp add: pipe_at_def example_chunk_def c_layout)
  have 3: "pipe_step (pipe_at log_buffer_init (Pushing ?e) [''hi''] Popping (\<lambda>_. []) [] []) (Do_push 0)
      (pipe_at example_pushed Reading [''hi''] Popping (\<lambda>_. []) [(0, ?e)] [])"
    using push_done [of 0 "pipe_at log_buffer_init (Pushing ?e) [''hi''] Popping (\<lambda>_. []) [] []" ?e]
      example_buffer_ops(1)
    by (simp add: pipe_at_def set_pc_def wake_consumer_def)
  have 4: "pipe_step (pipe_at example_pushed Reading [''hi''] Popping (\<lambda>_. []) [(0, ?e)] []) Do_pop
      (pipe_at example_popped Reading [''hi''] (Writing ?e) (\<lambda>_. []) [(0, ?e)] [?e])"
    using pop_done [of "pipe_at example_pushed Reading [''hi''] Popping (\<lambda>_. []) [(0, ?e)] []" ?e
        example_popped "[\<lparr>p_index = 0, p_pc = Reading, p_read = [''hi'']\<rparr>]"] example_buffer_ops(2)
    by (simp add: pipe_at_def signal_one_def asleep.simps)
  have 5: "pipe_step (pipe_at example_popped Reading [''hi''] (Writing ?e) (\<lambda>_. []) [(0, ?e)] [?e])
      (Do_write example_table (Wrote 512))
      (pipe_at example_popped Reading [''hi''] Popping ?fs [(0, ?e)] [?e])"
    using write_entry [of "pipe_at example_popped Reading [''hi''] (Writing ?e) (\<lambda>_. []) [(0, ?e)] [?e]"
        ?e example_table "Wrote 512"]
    by (simp only: example_write pipe_at_def pipeline.simps)
  have 6: "pipe_step (pipe_at example_popped Reading [''hi''] Popping ?fs [(0, ?e)] [?e]) Do_shutdown
      (pipe_at (log_buffer_shutdown example_popped) Reading [''hi''] Popping ?fs [(0, ?e)] [?e])"
    using shutdown_all [of "pipe_at example_popped Reading [''hi''] Popping ?fs [(0, ?e)] [?e]"]
    by (simp add: pipe_at_def wake_producer.simps wake_consumer_def)
  have 7: "pipe_step (pipe_at (log_buffer_shutdown example_popped) Reading [''hi''] Popping ?fs
        [(0, ?e)] [?e]) Do_pop
      (pipe_at (log_buffer_shutdown example_popped) Reading [''hi''] Consumer_done ?fs [(0, ?e)] [?e])"
    using pop_end [of "pipe_at (log_buffer_shutdown example_popped) Reading [''hi''] Popping ?fs
        [(0, ?e)] [?e]", OF _ _ ] example_buffer_ops(3)
    by (simp add: pipe_at_def)
  note run = lts_run_Cons [of pipe_step, OF 1 lts_run_Cons [of pipe_step, OF 2
      lts_run_Cons [of pipe_step, OF 3 lts_run_Cons [of pipe_step, OF 4 lts_run_Cons
        [of pipe_step, OF 5 lts_run_Cons [of pipe_step, OF 6 lts_run_single [of pipe_step, OF 7]]]]]]]
  show ?thesis
    by (intro exI conjI, rule run) (simp_all add: pipe_at_def)
qed


end
