(* ===== verification/Reports.thy ===== *)
theory Reports
  imports Container_Table Wire
begin

text \<open>
  The texts the supervisor answers with: \<^verbatim>\<open>format_time_string\<close>, \<^verbatim>\<open>build_ps_output\<close> and
  \<^verbatim>\<open>build_logs_output\<close> of \<^verbatim>\<open>src/engine.c\<close>. The conversion to local time and the contents of the
  log files are arguments. A call that C leaves undefined (a write beyond the buffer, or the
  use of a buffer that \<^verbatim>\<open>strftime\<close> could not fill) is the result \<^const>\<open>None\<close>, so that a property
  about the text also says that it does not happen.
\<close>


section \<open>Time stamps\<close>

record tm =
  tm_year :: int
  tm_mon :: nat
  tm_mday :: nat
  tm_hour :: nat
  tm_min :: nat
  tm_sec :: nat

definition pad2 :: "nat \<Rightarrow> string" where
  "pad2 n = (if n < 10 then ''0'' @ nat_dec n else nat_dec n)"

definition format_time_string :: "(int \<Rightarrow> tm) \<Rightarrow> int \<Rightarrow> nat \<Rightarrow> string option" where
  "format_time_string localtime t out_size =
     (let d = localtime t;
          text = int_dec (1900 + tm_year d) @ ''-'' @ pad2 (tm_mon d + 1) @ ''-'' @ pad2 (tm_mday d)
            @ '' '' @ pad2 (tm_hour d) @ '':'' @ pad2 (tm_min d) @ '':'' @ pad2 (tm_sec d)
      in if length text < out_size then Some text else None)"


section \<open>The table of containers\<close>

text \<open>
  \<^verbatim>\<open>used += snprintf(out + used, out_size - used, ...)\<close> appends what fits and adds the full
  length. With \<open>used\<close> beyond \<open>out_size\<close> the size would wrap around.
\<close>

definition snprintf_at :: "nat \<Rightarrow> nat \<times> string \<Rightarrow> string \<Rightarrow> (nat \<times> string) option" where
  "snprintf_at out_size st text =
     (case st of (n, out) \<Rightarrow>
        if out_size < n then None
        else Some (n + snprintf_ret text, out @ take (out_size - n - 1) text))"

definition tab :: string where "tab = [CHR 0x09]"
definition newline :: string where "newline = [CHR 0x0A]"

definition ps_header :: string where
  "ps_header = ''ID'' @ tab @ ''PID'' @ tab @ ''STATE'' @ tab @ ''EXIT'' @ tab @ ''SOFT'' @ tab
     @ ''HARD'' @ tab @ ''NICE'' @ tab @ ''STARTED'' @ tab @ tab @ tab @ ''LOG FILE'' @ newline"

definition ps_row :: "string \<Rightarrow> container \<Rightarrow> string" where
  "ps_row ts c = cid c @ tab @ int_dec (sint (pid c)) @ tab @ state c @ tab
     @ int_dec (sint (exit_code c)) @ tab @ int_dec (sint (soft_mib c)) @ tab
     @ int_dec (sint (hard_mib c)) @ tab @ int_dec (sint (nice_value c)) @ tab @ ts @ tab
     @ log_file c @ newline"

definition ps_time :: "(int \<Rightarrow> tm) \<Rightarrow> container \<Rightarrow> string option" where
  "ps_time localtime c =
     (if start_time c \<noteq> 0 then format_time_string localtime (start_time c) 32 else Some ''-'')"

fun ps_rows ::
  "(int \<Rightarrow> tm) \<Rightarrow> nat \<Rightarrow> container list \<Rightarrow> nat \<times> string \<Rightarrow> (nat \<times> string) option" where
  "ps_rows localtime out_size [] st = Some st"
| "ps_rows localtime out_size (c # cs) st =
     (if \<not> used c then ps_rows localtime out_size cs st
      else (case ps_time localtime c of
              None \<Rightarrow> None
            | Some ts \<Rightarrow>
                (case snprintf_at out_size st (ps_row ts c) of
                   None \<Rightarrow> None
                 | Some (n, out) \<Rightarrow>
                     if out_size \<le> n then Some (n, out)
                     else ps_rows localtime out_size cs (n, out))))"

definition build_ps_output :: "(int \<Rightarrow> tm) \<Rightarrow> container list \<Rightarrow> nat \<Rightarrow> string option" where
  "build_ps_output localtime cs out_size =
     (case snprintf_at out_size (0, []) ps_header of
        None \<Rightarrow> None
      | Some st \<Rightarrow> map_option snd (ps_rows localtime out_size cs st))"


section \<open>The log of a container\<close>

fun copy_log :: "nat \<Rightarrow> nat \<Rightarrow> char list \<Rightarrow> char list" where
  "copy_log out_size n [] = []"
| "copy_log out_size n (c # cs) =
     (if n + 1 < out_size then c # copy_log out_size (n + 1) cs else [])"

text \<open>The result is the string in the buffer and the value stored through \<^verbatim>\<open>ok_out\<close>.\<close>

definition build_logs_output ::
  "(string \<Rightarrow> char list option) \<Rightarrow> container list \<Rightarrow> string \<Rightarrow> nat \<Rightarrow> string \<times> i32" where
  "build_logs_output fopen cs i out_size =
     (let path = (case find_container_by_id_locked cs i of
                    Some idx \<Rightarrow> safe_strcpy [] (Some (log_file (cs ! idx))) MAX_PATH_LEN
                  | None \<Rightarrow> [])
      in if path = []
         then (snprintf_text out_size (''No such container: '' @ i @ newline), 0)
         else (case fopen path of
                 None \<Rightarrow> (snprintf_text out_size (''Unable to open log file: '' @ path @ newline), 0)
               | Some content \<Rightarrow>
                   let out = copy_log out_size 0 content
                   in if length out = 0
                      then (snprintf_text out_size (''(log file is empty)'' @ newline), 1)
                      else (cstr out, 1)))"



section \<open>Properties\<close>

text \<open>What \<^verbatim>\<open>localtime_r\<close> promises: the fields are in their ranges and the year fits an \<open>int\<close>.\<close>

definition localtime_ok :: "(int \<Rightarrow> tm) \<Rightarrow> bool" where
  "localtime_ok localtime \<longleftrightarrow> (\<forall>t. tm_mon (localtime t) < 12 \<and> tm_mday (localtime t) \<le> 31
     \<and> tm_hour (localtime t) < 24 \<and> tm_min (localtime t) < 60 \<and> tm_sec (localtime t) \<le> 60
     \<and> - (2 ^ 31) \<le> tm_year (localtime t) \<and> tm_year (localtime t) < 2 ^ 31)"

lemma length_pad2: "n < 100 \<Longrightarrow> length (pad2 n) \<le> 2"
  using length_nat_dec [of 2 n] length_nat_dec [of 1 n] by (auto simp: pad2_def)

lemma length_int_dec_year:
  assumes "- (2 ^ 31) \<le> y" "y < 2 ^ 31"
  shows "length (int_dec (1900 + y)) \<le> 11"
proof -
  have "nat (1900 + y) < 10 ^ 10" "nat (- (1900 + y)) < 10 ^ 10"
    using assms by simp_all
  then have "length (nat_dec (nat (1900 + y))) \<le> 10" "length (nat_dec (nat (- (1900 + y)))) \<le> 10"
    by (simp_all only: length_nat_dec zero_less_numeral)
  then show ?thesis
    by (simp add: int_dec_def)
qed

lemma format_time_fits:
  assumes "localtime_ok localtime"
  obtains ts where "format_time_string localtime t 32 = Some ts" "length ts < 32"
proof -
  let ?d = "localtime t"
  have d: "tm_mon ?d + 1 < 100" "tm_mday ?d < 100" "tm_hour ?d < 100" "tm_min ?d < 100" "tm_sec ?d < 100"
    "- (2 ^ 31) \<le> tm_year ?d" "tm_year ?d < 2 ^ 31"
    using spec [OF assms [unfolded localtime_ok_def], of t] by simp_all
  note len = length_pad2 [OF d(1)] length_pad2 [OF d(2)] length_pad2 [OF d(3)] length_pad2 [OF d(4)]
    length_pad2 [OF d(5)] length_int_dec_year [OF d(6,7)]
  define stamp where "stamp = int_dec (1900 + tm_year ?d) @ ''-'' @ pad2 (tm_mon ?d + 1) @ ''-''
      @ pad2 (tm_mday ?d) @ '' '' @ pad2 (tm_hour ?d) @ '':'' @ pad2 (tm_min ?d) @ '':''
      @ pad2 (tm_sec ?d)"
  have "length stamp \<le> 26"
    unfolding stamp_def length_append using len by simp
  then have "format_time_string localtime t 32 = Some stamp" "length stamp < 32"
    unfolding format_time_string_def Let_def stamp_def by simp_all
  then show ?thesis by (rule that)
qed

lemma ps_time_fits:
  assumes "localtime_ok localtime"
  obtains ts where "ps_time localtime c = Some ts" "length ts < 32"
proof (cases "start_time c = 0")
  case True
  then show ?thesis
    using that [of "''-''"] by (simp add: ps_time_def)
next
  case False
  obtain ts where "format_time_string localtime (start_time c) 32 = Some ts" "length ts < 32"
    by (rule format_time_fits [OF assms])
  with False show ?thesis
    using that [of ts] by (simp add: ps_time_def)
qed

lemma length_ps_row:
  assumes "slot_ok c" "used c" "length ts < 32"
  shows "length (ps_row ts c) \<le> 183"
proof -
  have "length (cid c) < 32"
    using assms(1,2) by (simp add: slot_ok_def fits_def c_layout)
  moreover have "length (log_file c) = length (cid c) + 9" "length (state c) \<le> 8"
    using assms(1,2) by (auto simp: slot_ok_def container_states_def)
  moreover note length_int_dec_i32 [of "pid c"] length_int_dec_i32 [of "exit_code c"]
    length_int_dec_i32 [of "soft_mib c"] length_int_dec_i32 [of "hard_mib c"]
    length_int_dec_i32 [of "nice_value c"]
  ultimately show ?thesis
    unfolding ps_row_def length_append tab_def newline_def using assms(3) by simp
qed

lemma ps_row_bound:
  assumes "localtime_ok localtime" "slot_ok c" "used c"
  shows "ps_time localtime c = Some (the (ps_time localtime c))"
    "length (ps_row (the (ps_time localtime c)) c) \<le> 183"
proof -
  obtain ts where "ps_time localtime c = Some ts" "length ts < 32"
    using ps_time_fits [OF assms(1)] .
  then show "ps_time localtime c = Some (the (ps_time localtime c))"
    "length (ps_row (the (ps_time localtime c)) c) \<le> 183"
    using length_ps_row [OF assms(2,3)] by simp_all
qed

lemma length_concat_bound: "\<forall>x \<in> set xs. length x \<le> k \<Longrightarrow> length (concat xs) \<le> k * length xs"
  by (induction xs) auto

definition ps_text :: "(int \<Rightarrow> tm) \<Rightarrow> container list \<Rightarrow> string" where
  "ps_text localtime cs =
     concat (map (\<lambda>c. ps_row (the (ps_time localtime c)) c) (filter used cs))"

lemma ps_rows_complete:
  assumes "localtime_ok localtime" "\<forall>c \<in> set cs. slot_ok c" "n = length out"
    "n + 183 * length cs < out_size"
  shows "\<exists>m. ps_rows localtime out_size cs (n, out) = Some (m, out @ ps_text localtime cs)"
  using assms
proof (induction cs arbitrary: n out)
  case Nil
  then show ?case by (simp add: ps_text_def)
next
  case (Cons c cs)
  show ?case
  proof (cases "used c")
    case False
    with Cons show ?thesis by (simp add: ps_text_def)
  next
    case True
    obtain ts where ts: "ps_time localtime c = Some ts" "length ts < 32"
      using ps_time_fits [OF Cons.prems(1)] .
    have len: "length (ps_row ts c) \<le> 183"
      using Cons.prems(2) True ts(2) by (simp add: length_ps_row)
    then have at: "snprintf_at out_size (n, out) (ps_row ts c)
        = Some (n + length (ps_row ts c), out @ ps_row ts c)"
      using Cons.prems(4) by (simp add: snprintf_at_def snprintf_ret_def)
    have "\<exists>m. ps_rows localtime out_size cs (n + length (ps_row ts c), out @ ps_row ts c)
        = Some (m, (out @ ps_row ts c) @ ps_text localtime cs)"
      using Cons.prems len by (intro Cons.IH) simp_all
    then show ?thesis
      using True ts at len Cons.prems(4) by (simp add: ps_text_def)
  qed
qed

lemma ps_output_text:
  assumes "table_ok cs" "localtime_ok localtime"
  shows "build_ps_output localtime cs RESPONSE_MSG_LEN = Some (ps_header @ ps_text localtime cs)"
proof -
  have hd: "length ps_header = 52"
    by (simp add: ps_header_def tab_def newline_def)
  have slots: "\<forall>c \<in> set cs. slot_ok c" and len: "length cs = 10"
    using table_okD [OF assms(1)] by (auto simp: c_layout)
  have "snprintf_at RESPONSE_MSG_LEN (0, []) ps_header = Some (52, ps_header)"
    using hd by (simp add: snprintf_at_def snprintf_ret_def c_layout)
  moreover have "\<exists>m. ps_rows localtime RESPONSE_MSG_LEN cs (52, ps_header)
      = Some (m, ps_header @ ps_text localtime cs)"
    using hd len by (intro ps_rows_complete [OF assms(2) slots]) (simp_all add: c_layout)
  ultimately show ?thesis
    by (auto simp: build_ps_output_def)
qed

text \<open>
  Claim C32. The \<^verbatim>\<open>ps\<close> answer is complete: for a well-formed table the header and one row for every
  tracked container, in table order, fit the response buffer, so that no row is cut off or
  left out, and no write goes past the end of the buffer.
\<close>

theorem ps_output_complete:
  assumes "table_ok cs" "localtime_ok localtime"
  shows "\<exists>rows. build_ps_output localtime cs RESPONSE_MSG_LEN = Some (ps_header @ concat rows)
    \<and> length rows = length (filter used cs)
    \<and> (\<forall>k < length rows. \<exists>ts. ps_time localtime (filter used cs ! k) = Some ts
         \<and> rows ! k = ps_row ts (filter used cs ! k))
    \<and> length (ps_header @ concat rows) < RESPONSE_MSG_LEN"
proof -
  let ?rows = "map (\<lambda>c. ps_row (the (ps_time localtime c)) c) (filter used cs)"
  have hd: "length ps_header = 52"
    by (simp add: ps_header_def tab_def newline_def)
  have slots: "\<forall>c \<in> set cs. slot_ok c" and len: "length cs = 10"
    using table_okD [OF assms(1)] by (auto simp: c_layout)
  have out: "build_ps_output localtime cs RESPONSE_MSG_LEN = Some (ps_header @ concat ?rows)"
    using ps_output_text [OF assms] by (simp add: ps_text_def)
  have row: "ps_time localtime c = Some (the (ps_time localtime c))"
    "length (ps_row (the (ps_time localtime c)) c) \<le> 183" if "c \<in> set (filter used cs)" for c
    using that slots ps_row_bound [OF assms(2)] by auto
  have "length (concat ?rows) \<le> 183 * length ?rows"
    using row(2) by (intro length_concat_bound) auto
  moreover have "length (filter used cs) \<le> 10"
    using len length_filter_le [of used cs] by simp
  ultimately have "length (ps_header @ concat ?rows) < RESPONSE_MSG_LEN"
    using hd by (simp add: c_layout)
  moreover have "\<exists>ts. ps_time localtime (filter used cs ! k) = Some ts
      \<and> ?rows ! k = ps_row ts (filter used cs ! k)" if "k < length ?rows" for k
    using that row(1) [of "filter used cs ! k"] nth_mem [of k "filter used cs"] by auto
  ultimately show ?thesis
    using out by (intro exI [of _ ?rows]) simp
qed


definition example_time :: "int \<Rightarrow> tm" where
  "example_time t = \<lparr>tm_year = 123, tm_mon = 10, tm_mday = 14, tm_hour = 22, tm_min = 13, tm_sec = 20\<rparr>"

theorem ps_output_complete_witness:
  "build_ps_output example_time init_containers RESPONSE_MSG_LEN = Some ps_header"
proof -
  have "localtime_ok example_time"
    by (simp add: localtime_ok_def example_time_def)
  moreover have "filter used init_containers = []"
    by (simp add: init_containers_def zero_container_def)
  ultimately show ?thesis
    using ps_output_complete [OF init_containers_ok, of example_time] by auto
qed

lemma copy_log_take: "copy_log out_size n cs = take (out_size - n - 1) cs"
proof (induction cs arbitrary: n)
  case (Cons c cs)
  show ?case
  proof (cases "n + 1 < out_size")
    case True
    then have "out_size - n - 1 = Suc (out_size - (n + 1) - 1)"
      by simp
    with True Cons show ?thesis by simp
  qed simp
qed simp

lemma logs_of_container:
  assumes "table_ok cs" "c \<in> set cs" "used c"
  shows "build_logs_output fopen cs (cid c) RESPONSE_MSG_LEN =
        (case fopen (''logs/'' @ cid c @ ''.log'') of
           None \<Rightarrow> (''Unable to open log file: logs/'' @ cid c @ ''.log'' @ newline, 0)
         | Some [] \<Rightarrow> (''(log file is empty)'' @ newline, 1)
         | Some content \<Rightarrow> (cstr (take 8191 content), 1))"
proof -
  obtain j where j: "j < length cs" "cs ! j = c"
    using assms(2) by (auto simp: in_set_conv_nth)
  have idx: "find_container_by_id_locked cs (cid c) = Some j"
    using find_container_by_id_eq [OF assms(1) j(1)] j(2) assms(3) by simp
  have slot: "log_file c = ''logs/'' @ cid c @ ''.log''" "length (cid c) < 32" "NUL \<notin> set (cid c)"
    using table_okD(2) [OF assms(1,2)] assms(3) by (simp_all add: slot_ok_def fits_def c_layout)
  then have "fits MAX_PATH_LEN (log_file c)"
    by (simp add: fits_def c_layout)
  then have path: "safe_strcpy [] (Some (log_file c)) MAX_PATH_LEN = ''logs/'' @ cid c @ ''.log''"
    using slot(1) by (simp add: safe_strcpy_id)
  have buf: "snprintf_text 8192 x = x" if "length x < 200" for x
    using that by (simp add: snprintf_text_def)
  show ?thesis
    unfolding build_logs_output_def idx Let_def option.case j(2) path
    using slot(2)
    by (auto simp: buf newline_def copy_log_take c_layout split: option.splits list.splits)
qed

text \<open>
  Claim C33. The \<^verbatim>\<open>logs\<close> answer for a tracked container is the beginning of its log file: at most
  the first 8191 bytes, and all of it if it is no longer and holds no NUL byte; an empty file
  and a file that cannot be opened are reported as such. For an id that no tracked container
  has the request fails.
\<close>

theorem logs_output:
  assumes "table_ok cs"
  shows "(\<forall>c \<in> set cs. used c \<longrightarrow>
      build_logs_output fopen cs (cid c) RESPONSE_MSG_LEN =
        (case fopen (''logs/'' @ cid c @ ''.log'') of
           None \<Rightarrow> (''Unable to open log file: logs/'' @ cid c @ ''.log'' @ newline, 0)
         | Some [] \<Rightarrow> (''(log file is empty)'' @ newline, 1)
         | Some content \<Rightarrow> (cstr (take 8191 content), 1))
      \<and> (\<forall>content. fopen (''logs/'' @ cid c @ ''.log'') = Some content \<longrightarrow> content \<noteq> [] \<longrightarrow>
           length content \<le> 8191 \<longrightarrow> NUL \<notin> set content \<longrightarrow>
           build_logs_output fopen cs (cid c) RESPONSE_MSG_LEN = (content, 1)))
    \<and> (\<forall>i. (\<forall>c \<in> set cs. used c \<longrightarrow> cid c \<noteq> i) \<longrightarrow> length i < MAX_ID_LEN \<longrightarrow>
         build_logs_output fopen cs i RESPONSE_MSG_LEN
           = (''No such container: '' @ i @ newline, 0))"
proof -
  note found = logs_of_container [OF assms]
  have none: "build_logs_output fopen cs i RESPONSE_MSG_LEN = (''No such container: '' @ i @ newline, 0)"
    if "\<forall>c \<in> set cs. used c \<longrightarrow> cid c \<noteq> i" "length i < MAX_ID_LEN" for i
  proof -
    have "find_container_by_id_locked cs i = None"
      using that(1) by (auto simp: find_container_by_id_locked_def first_index_None)
    then show ?thesis
      using that(2) by (simp add: build_logs_output_def snprintf_text_def c_layout newline_def)
  qed
  have short: "build_logs_output fopen cs (cid c) RESPONSE_MSG_LEN = (content, 1)"
    if "c \<in> set cs" "used c" "fopen (''logs/'' @ cid c @ ''.log'') = Some content" "content \<noteq> []"
      "length content \<le> 8191" "NUL \<notin> set content" for c content
  proof -
    have "build_logs_output fopen cs (cid c) RESPONSE_MSG_LEN = (cstr (take 8191 content), 1)"
      unfolding found [OF that(1,2)] that(3) using that(4) by (simp split: list.splits)
    with that(5,6) cstr_id [of content] show ?thesis by simp
  qed
  show ?thesis
    using found none short by blast
qed


definition logged_table :: "container list" where
  "logged_table = init_containers[0 := zero_container\<lparr>used := True, cid := ''a'',
     log_file := ''logs/a.log'', state := ''RUNNING''\<rparr>]"

lemma logged_table_ok: "table_ok logged_table"
  unfolding logged_table_def
proof (rule table_ok_update [OF init_containers_ok])
  show "0 < length init_containers"
    by (simp add: init_containers_def c_layout)
  show "slot_ok (zero_container\<lparr>used := True, cid := ''a'', log_file := ''logs/a.log'',
      state := ''RUNNING''\<rparr>)"
    by (simp add: slot_ok_def fits_def zero_container_def c_layout)
qed (simp_all add: init_containers_def zero_container_def live_def)

theorem logs_output_witness:
  "build_logs_output (\<lambda>p. if p = ''logs/a.log'' then Some ''hi'' else None) logged_table ''a''
     RESPONSE_MSG_LEN = (''hi'', 1)"
proof -
  let ?c = "zero_container\<lparr>used := True, cid := ''a'', log_file := ''logs/a.log'',
     state := ''RUNNING''\<rparr>"
  have "?c \<in> set logged_table" "used ?c" "cid ?c = ''a''"
    unfolding logged_table_def by (simp_all add: set_update_memI init_containers_def c_layout)
  then show ?thesis
    using conjunct1 [OF logs_output [OF logged_table_ok,
          of "\<lambda>p. if p = ''logs/a.log'' then Some ''hi'' else None"]]
    by fastforce
qed

end
