(* ===== verification/Server.thy ===== *)
theory Server
  imports Lifecycle_Properties Reports Log_Buffer
begin

text \<open>
  The server side of the control channel in \<^verbatim>\<open>src/engine.c\<close>: \<^verbatim>\<open>client_handler_main\<close> with the
  dispatch on the request type and the wait of \<^verbatim>\<open>REQ_RUN\<close>, \<^verbatim>\<open>supervisor_signal_handler\<close>, and
  \<^verbatim>\<open>run_supervisor\<close> with its set-up failures, accept loop and shutdown.
\<close>


section \<open>Client handler\<close>

text \<open>What the handler gets from outside: the calls of a start, \<^verbatim>\<open>kill\<close>, time and files.\<close>

record handler_env =
  he_start :: start_env
  he_kill :: "string option"
  he_localtime :: "int \<Rightarrow> tm"
  he_fopen :: "string \<Rightarrow> char list option"

text \<open>
  \<open>Reply\<close> is a response ready to be sent; \<open>Wait_for\<close> is a run request whose container was
  started and is waited for. \<open>Undefined\<close> is a call that C leaves undefined.
\<close>

datatype handled = Reply response world | Wait_for nat response world | Undefined

definition dispatch :: "handler_env \<Rightarrow> request \<Rightarrow> response \<Rightarrow> world \<Rightarrow> handled" where
  "dispatch env req resp w =
     (if req_type req = request_type_code REQ_START then
        (case start_container_internal (he_start env) req resp w of
           (rc, io, resp', w') \<Rightarrow> Reply resp' w')
      else if req_type req = request_type_code REQ_RUN then
        (case start_container_internal (he_start env) req resp w of
           (rc, io, resp', w') \<Rightarrow>
             if rc \<noteq> 0 then Reply resp' w'
             else (case io of None \<Rightarrow> Undefined | Some idx \<Rightarrow> Wait_for idx resp' w'))
      else if req_type req = request_type_code REQ_PS then
        (case build_ps_output (he_localtime env) (containers w) RESPONSE_MSG_LEN of
           None \<Rightarrow> Undefined
         | Some out \<Rightarrow> Reply (resp\<lparr>message := out, ok := 1, resp_exit_code := 0\<rparr>) w)
      else if req_type req = request_type_code REQ_LOGS then
        (case build_logs_output (he_fopen env) (containers w) (req_id req) RESPONSE_MSG_LEN of
           (out, okv) \<Rightarrow> Reply (resp\<lparr>message := out, ok := okv,
             resp_exit_code := (if okv \<noteq> 0 then 0 else -1)\<rparr>) w)
      else if req_type req = request_type_code REQ_STOP then
        (case stop_container_by_id (he_kill env) (req_id req) resp w of
           (rc, resp', w') \<Rightarrow> Reply resp' w')
      else Reply (set_response resp 0 (-1) ''Unknown request'') w)"

text \<open>The wait loop of a run request and the response after it (lines 787 to 800).\<close>

definition run_wait :: "request \<Rightarrow> nat \<Rightarrow> response \<Rightarrow> container list \<Rightarrow> response blocking" where
  "run_wait req idx resp cs =
     (if is_live_state (state (cs ! idx)) then Blocks
      else
        let code = exit_code (cs ! idx);
            final_state = safe_strcpy [] (Some (state (cs ! idx))) MAX_STATE_LEN
        in Returns (set_response resp 1 code
             (''Container '' @ req_id req @ '' finished with state='' @ final_state @ '' exit=''
              @ int_dec (sint code))))"

text \<open>
  A handler thread with its descriptor and its argument block, on what \<^verbatim>\<open>recv_all\<close> delivers. A
  request that does not arrive in full is not answered. The result of \<^verbatim>\<open>send_all\<close> is ignored.
\<close>

definition client_handler_main ::
  "handler_env \<Rightarrow> fd \<Rightarrow> addr \<Rightarrow> int \<times> char list \<Rightarrow> world \<Rightarrow> handled option \<times> world" where
  "client_handler_main env client_fd arg received w =
     (let w1 = free_block arg w in
      case received of (rc, bytes) \<Rightarrow>
        if rc \<noteq> 0 then (None, close_fd client_fd w1)
        else (case dispatch env (request_of_image bytes) init_response w1 of
                Reply resp w2 \<Rightarrow> (Some (Reply resp (close_fd client_fd w2)), close_fd client_fd w2)
              | Wait_for idx resp w2 \<Rightarrow> (Some (Wait_for idx resp w2), w2)
              | Undefined \<Rightarrow> (Some Undefined, w1)))"


section \<open>The supervisor process\<close>

record server =
  sv_world :: world
  sv_log :: log_buffer
  supervisor_running :: bool
  server_socket_fd :: fd
  socket_file :: bool
  supervisor_base_rootfs :: string

definition supervisor_signal_handler :: "server \<Rightarrow> server" where
  "supervisor_signal_handler s =
     (let s1 = s\<lparr>supervisor_running := False\<rparr> in
      if 0 \<le> server_socket_fd s1
      then s1\<lparr>sv_world := close_fd (server_socket_fd s1) (sv_world s1), server_socket_fd := -1\<rparr>
      else s1)"

text \<open>
  One turn of the accept loop: a new connection with the results of \<^verbatim>\<open>malloc\<close> and
  \<^verbatim>\<open>pthread_create\<close>, a failed \<^verbatim>\<open>accept\<close>, or a signal that arrives in between.
\<close>

datatype accept_turn = Accepted fd "addr option" bool | Accept_failed | Signal_arrives

text \<open>
  The results are whether the loop was left or still runs when the turns end, the handler
  threads that were started, with their arguments, and the state.
\<close>

fun accept_loop :: "accept_turn list \<Rightarrow> server \<Rightarrow> bool \<times> (fd \<times> addr) list \<times> server" where
  "accept_loop [] s = (\<not> supervisor_running s, [], s)"
| "accept_loop (Signal_arrives # ts) s = accept_loop ts (supervisor_signal_handler s)"
| "accept_loop (Accept_failed # ts) s =
     (if \<not> supervisor_running s then (True, [], s) else accept_loop ts s)"
| "accept_loop (Accepted cfd m created # ts) s =
     (if \<not> supervisor_running s then (True, [], s)
      else
        let s1 = s\<lparr>sv_world := open_fd cfd (sv_world s)\<rparr> in
        (case m of
           None \<Rightarrow> accept_loop ts (s1\<lparr>sv_world := close_fd cfd (sv_world s1)\<rparr>)
         | Some a \<Rightarrow>
             let s2 = s1\<lparr>sv_world := alloc_block a (sv_world s1)\<rparr> in
             if created
             then (case accept_loop ts s2 of (ended, hs, r) \<Rightarrow> (ended, (cfd, a) # hs, r))
             else accept_loop ts (s2\<lparr>sv_world := free_block a (close_fd cfd (sv_world s2))\<rparr>)))"

text \<open>Shutdown (lines 905 to 920) up to the joins of the two threads, and after them.\<close>

definition stop_server :: "server \<Rightarrow> server" where
  "stop_server s =
     s\<lparr>sv_world := stop_all_live_containers (sv_world s), supervisor_running := False,
       sv_log := log_buffer_shutdown (sv_log s)\<rparr>"

definition close_server :: "server \<Rightarrow> server" where
  "close_server s =
     (let s1 = (if 0 \<le> server_socket_fd s
                then s\<lparr>sv_world := close_fd (server_socket_fd s) (sv_world s), server_socket_fd := -1\<rparr>
                else s)
      in s1\<lparr>socket_file := False\<rparr>)"

record server_env =
  se_socket :: fd
  se_bind :: bool
  se_listen :: bool
  se_turns :: "accept_turn list"
  se_threads :: "server \<Rightarrow> server"

definition CONTROL_SOCKET_PATH :: string where
  "CONTROL_SOCKET_PATH = ''/tmp/engine_supervisor.sock''"

definition server_init :: "string \<Rightarrow> world \<Rightarrow> server" where
  "server_init base_rootfs w =
     \<lparr>sv_world = w\<lparr>containers := init_containers\<rparr>, sv_log = log_buffer_init,
      supervisor_running = True, server_socket_fd = -1, socket_file = False,
      supervisor_base_rootfs = safe_strcpy [] (Some base_rootfs) MAX_PATH_LEN\<rparr>"

text \<open>
  \<open>se_threads\<close> is what the other threads do to the state while the supervisor waits for the
  consumer and the reaper. The result is \<^const>\<open>None\<close> while the accept loop runs.
\<close>

definition run_supervisor ::
  "server_env \<Rightarrow> string \<Rightarrow> world \<Rightarrow> (int \<times> (fd \<times> addr) list \<times> server) option" where
  "run_supervisor env base_rootfs w =
     (let s0 = server_init base_rootfs w;
          s1 = s0\<lparr>server_socket_fd := se_socket env\<rparr>
      in if se_socket env < 0 then Some (1, [], s1)
      else let s2 = s1\<lparr>sv_world := open_fd (se_socket env) (sv_world s1)\<rparr>
      in if \<not> se_bind env
         then Some (1, [], s2\<lparr>sv_world := close_fd (se_socket env) (sv_world s2), socket_file := False\<rparr>)
      else let s3 = s2\<lparr>socket_file := True\<rparr>
      in if \<not> se_listen env
         then Some (1, [], s3\<lparr>sv_world := close_fd (se_socket env) (sv_world s3), socket_file := False\<rparr>)
      else (case accept_loop (se_turns env) s3 of
              (ended, hs, s4) \<Rightarrow>
                if ended then Some (0, hs, close_server (se_threads env (stop_server s4)))
                else None))"


section \<open>Requests are answered\<close>

lemma range_request_type_code: "range request_type_code = {1, 2, 3, 4, 5}"
proof -
  have "request_type_code t \<in> {1, 2, 3, 4, 5}" for t
    by (cases t) simp_all
  moreover have "{1, 2, 3, 4, 5} \<subseteq> range request_type_code"
    using rangeI [of request_type_code REQ_START] rangeI [of request_type_code REQ_RUN]
      rangeI [of request_type_code REQ_PS] rangeI [of request_type_code REQ_LOGS]
      rangeI [of request_type_code REQ_STOP]
    by simp
  ultimately show ?thesis by blast
qed

text \<open>The slot that a successful start reports is in range and live.\<close>

lemma start_0_live:
  assumes "table_ok (containers w)" "env_fresh env w"
    "start_container_internal env req resp w = (0, io, resp', w')"
  shows "\<exists>idx. io = Some idx \<and> idx < MAX_CONTAINERS \<and> used (containers w' ! idx)
    \<and> is_live_state (state (containers w' ! idx))"
  using assms(2,3)
proof (cases rule: start_containers)
  case (started idx cs p stack)
  note r = start_reserve_Inr [OF started(1)]
  have "idx < length cs" "length (containers w) = MAX_CONTAINERS" "used (cs ! idx)"
    using r(1,3) assms(1) by (simp_all add: table_okD(1) reserved_slot_def)
  then show ?thesis
    using started r(1) by (simp add: start_publish_def table_simps)
qed simp_all



definition example_handler :: handler_env where
  "example_handler = \<lparr>he_start = example_env, he_kill = None, he_localtime = example_time,
     he_fopen = (\<lambda>_. None)\<rparr>"

lemma example_time_ok: "localtime_ok example_time"
  by (simp add: localtime_ok_def example_time_def)



section \<open>The accept loop and the end of the supervisor\<close>

text \<open>What the calls of the loop promise: new descriptors and blocks are not in use.\<close>

fun turns_fresh :: "accept_turn list \<Rightarrow> server \<Rightarrow> bool" where
  "turns_fresh [] s = True"
| "turns_fresh (Accepted cfd m created # ts) s =
     (cfd \<notin> open_fds (sv_world s) \<and> 0 \<le> cfd \<and> cfd \<noteq> server_socket_fd s
      \<and> (case m of None \<Rightarrow> turns_fresh ts s
         | Some a \<Rightarrow> a \<notin> heap (sv_world s)
             \<and> turns_fresh ts (if created then s\<lparr>sv_world := alloc_block a (open_fd cfd (sv_world s))\<rparr> else s)))"
| "turns_fresh (Accept_failed # ts) s = turns_fresh ts s"
| "turns_fresh (Signal_arrives # ts) s = turns_fresh ts (supervisor_signal_handler s)"

lemma signal_handler_simps [simp]:
  "\<not> supervisor_running (supervisor_signal_handler s)" "server_socket_fd (supervisor_signal_handler s) < 0"
  "heap (sv_world (supervisor_signal_handler s)) = heap (sv_world s)"
  "open_fds (sv_world (supervisor_signal_handler s)) =
     open_fds (sv_world s) - {f. f = server_socket_fd s \<and> 0 \<le> f}"
  "sv_log (supervisor_signal_handler s) = sv_log s"
  "containers (sv_world (supervisor_signal_handler s)) = containers (sv_world s)"
  by (auto simp: supervisor_signal_handler_def Let_def close_fd_def)

lemma undo_accept:
  assumes "cfd \<notin> open_fds (sv_world s)"
  shows "s\<lparr>sv_world := close_fd cfd (open_fd cfd (sv_world s))\<rparr> = s"
  using assms by (simp add: close_fd_def open_fd_def)

lemma undo_alloc:
  assumes "cfd \<notin> open_fds (sv_world s)" "a \<notin> heap (sv_world s)"
  shows "s\<lparr>sv_world := free_block a (close_fd cfd (alloc_block a (open_fd cfd (sv_world s))))\<rparr> = s"
  using assms by (simp add: close_fd_def open_fd_def free_block_def alloc_block_def)

lemma signal_again:
  assumes "\<not> supervisor_running s" "server_socket_fd s < 0"
  shows "supervisor_signal_handler s = s"
  using assms by (simp add: supervisor_signal_handler_def)

lemma accept_stopped:
  assumes "\<not> supervisor_running s" "server_socket_fd s < 0"
  shows "accept_loop ts s = (True, [], s)"
proof (induction ts)
  case (Cons t ts)
  then show ?case
    using assms signal_again [OF assms] by (cases t) simp_all
qed (use assms in simp)



definition example_server :: server where
  "example_server = (server_init ''./rootfs-base'' example_world)
     \<lparr>server_socket_fd := 3, socket_file := True\<rparr>"


lemma signal_ends_loop: "Signal_arrives \<in> set ts \<Longrightarrow> fst (accept_loop ts s)"
proof (induction ts s rule: accept_loop.induct)
  case (2 ts s)
  then show ?case
    using accept_stopped [of "supervisor_signal_handler s" ts] by simp
next
  case (4 cfd m created ts s)
  show ?case
  proof (cases "supervisor_running s")
    case True
    with 4 show ?thesis
      by (cases m; cases created) (simp_all add: Let_def case_prod_beta)
  qed simp
qed auto

lemma stop_server_containers:
  "c \<in> set (containers (sv_world (stop_server s))) \<Longrightarrow> live c \<Longrightarrow> stop_requested c"
  "c \<in> set (containers (sv_world s)) \<Longrightarrow> live c \<Longrightarrow>
     (pid c, SIGTERM) \<in> set (signals (sv_world (stop_server s)))"
  by (auto simp: stop_server_def stop_all_live_containers_def case_prod_beta stop_live_slots_fst
      stop_live_slots_snd live_def)


definition example_server_env :: server_env where
  "example_server_env = \<lparr>se_socket = 3, se_bind = True, se_listen = True,
     se_turns = [Accept_failed, Signal_arrives], se_threads = (\<lambda>s. s)\<rparr>"


end
