(* ===== verification/Cli.thy ===== *)
theory Cli
  imports Server
begin

text \<open>
  The command line client in \<^verbatim>\<open>src/engine.c\<close>: \<^verbatim>\<open>parse_optional_flags\<close>, the request that
  \<^verbatim>\<open>main\<close> builds from its arguments, \<^verbatim>\<open>connect_to_supervisor\<close>,
  \<^verbatim>\<open>send_request_to_supervisor\<close> and the exit status. The answers of the kernel to the socket
  calls are an argument.
\<close>


section \<open>Flags\<close>

text \<open>The loop over \<^verbatim>\<open>argv\<close> from \<^verbatim>\<open>start_index\<close> on, as recursion on the arguments left.\<close>

fun parse_optional_flags :: "string list \<Rightarrow> request \<Rightarrow> int \<times> request" where
  "parse_optional_flags [] req = (0, req)"
| "parse_optional_flags (a # args) req =
     (if a = ''--soft-mib'' then
        (case args of [] \<Rightarrow> (-1, req)
         | v # rest \<Rightarrow> parse_optional_flags rest (req\<lparr>req_soft_mib := atoi v\<rparr>))
      else if a = ''--hard-mib'' then
        (case args of [] \<Rightarrow> (-1, req)
         | v # rest \<Rightarrow> parse_optional_flags rest (req\<lparr>req_hard_mib := atoi v\<rparr>))
      else if a = ''--nice'' then
        (case args of [] \<Rightarrow> (-1, req)
         | v # rest \<Rightarrow> parse_optional_flags rest (req\<lparr>req_nice_value := atoi v\<rparr>))
      else (-1, req))"


section \<open>Requests from the command line\<close>

text \<open>
  What \<^verbatim>\<open>main\<close> decides on its arguments: print the usage and return 1, become the supervisor,
  or send a request.
\<close>

datatype cli_action = Usage | Be_supervisor string | Send request

definition start_request :: "string list \<Rightarrow> request" where
  "start_request argv =
     (let req = init_request_defaults in
      req\<lparr>req_type := request_type_code (if argv ! 1 = ''start'' then REQ_START else REQ_RUN),
        req_id := safe_strcpy (req_id req) (Some (argv ! 2)) MAX_ID_LEN,
        req_rootfs := safe_strcpy (req_rootfs req) (Some (argv ! 3)) MAX_PATH_LEN,
        req_command := safe_strcpy (req_command req) (Some (argv ! 4)) MAX_CMD_LEN\<rparr>)"

definition main_action :: "string list \<Rightarrow> cli_action" where
  "main_action argv =
     (if length argv < 2 then Usage
      else if argv ! 1 = ''supervisor'' then
        (if length argv \<noteq> 3 then Usage else Be_supervisor (argv ! 2))
      else
        let req = init_request_defaults in
        if argv ! 1 = ''start'' \<or> argv ! 1 = ''run'' then
          (if length argv < 5 then Usage
           else (case parse_optional_flags (drop 5 argv) (start_request argv) of
                   (rc, req2) \<Rightarrow> if rc \<noteq> 0 then Usage else Send req2))
        else if argv ! 1 = ''ps'' then
          (if length argv \<noteq> 2 then Usage else Send (req\<lparr>req_type := request_type_code REQ_PS\<rparr>))
        else if argv ! 1 = ''logs'' then
          (if length argv \<noteq> 3 then Usage
           else Send (req\<lparr>req_type := request_type_code REQ_LOGS,
                          req_id := safe_strcpy (req_id req) (Some (argv ! 2)) MAX_ID_LEN\<rparr>))
        else if argv ! 1 = ''stop'' then
          (if length argv \<noteq> 3 then Usage
           else Send (req\<lparr>req_type := request_type_code REQ_STOP,
                          req_id := safe_strcpy (req_id req) (Some (argv ! 2)) MAX_ID_LEN\<rparr>))
        else Usage)"


section \<open>The exchange with the supervisor\<close>

record client_env =
  ce_socket :: fd
  ce_connect :: bool
  ce_send :: "send_result list"
  ce_recv :: "recv_result list"

text \<open>The descriptor, or -1.\<close>

definition connect_to_supervisor :: "client_env \<Rightarrow> fd" where
  "connect_to_supervisor env =
     (if ce_socket env < 0 then -1 else if \<not> ce_connect env then -1 else ce_socket env)"

text \<open>
  The status and the response; \<^const>\<open>None\<close> when a socket call never returns. On an error the
  response is left as it was.
\<close>

definition send_request_to_supervisor ::
  "client_env \<Rightarrow> request \<Rightarrow> response \<Rightarrow> (int \<times> response) option" where
  "send_request_to_supervisor env req resp =
     (if connect_to_supervisor env < 0 then Some (1, resp)
      else (case send_all (ce_send env) (request_image req) of
              None \<Rightarrow> None
            | Some (rc, tx) \<Rightarrow>
                if rc \<noteq> 0 then Some (1, resp)
                else (case recv_all (ce_recv env) sizeof_response of
                        None \<Rightarrow> None
                      | Some (rc', bytes) \<Rightarrow>
                          if rc' \<noteq> 0 then Some (1, resp)
                          else Some (0, response_of_image bytes))))"

text \<open>The exit status for a response (lines 1075 to 1083).\<close>

definition exit_status :: "request \<Rightarrow> response \<Rightarrow> int" where
  "exit_status req resp =
     (if ok resp = 0 then 1
      else if req_type req = request_type_code REQ_RUN \<and> 0 \<le> sint (resp_exit_code resp)
      then sint (resp_exit_code resp)
      else 0)"

text \<open>The value \<^verbatim>\<open>main\<close> returns and what it prints on standard output.\<close>

definition main :: "client_env \<Rightarrow> (string \<Rightarrow> int option) \<Rightarrow> string list \<Rightarrow> (int \<times> string) option" where
  "main env supervisor argv =
     (case main_action argv of
        Usage \<Rightarrow> Some (1, [])
      | Be_supervisor base \<Rightarrow> map_option (\<lambda>rc. (rc, [])) (supervisor base)
      | Send req \<Rightarrow>
          (case send_request_to_supervisor env req init_response of
             None \<Rightarrow> None
           | Some (rc, resp) \<Rightarrow>
               if rc \<noteq> 0 then Some (1, [])
               else Some (exit_status req resp,
                          if message resp \<noteq> [] then message resp @ newline else [])))"


section \<open>Properties of flags and requests\<close>

datatype flag = Soft_mib | Hard_mib | Nice

fun flag_text :: "flag \<Rightarrow> string" where
  "flag_text Soft_mib = ''--soft-mib''"
| "flag_text Hard_mib = ''--hard-mib''"
| "flag_text Nice = ''--nice''"

fun set_flag :: "flag \<Rightarrow> i32 \<Rightarrow> request \<Rightarrow> request" where
  "set_flag Soft_mib v req = req\<lparr>req_soft_mib := v\<rparr>"
| "set_flag Hard_mib v req = req\<lparr>req_hard_mib := v\<rparr>"
| "set_flag Nice v req = req\<lparr>req_nice_value := v\<rparr>"

definition print_flags :: "(flag \<times> i32) list \<Rightarrow> string list" where
  "print_flags fs = concat (map (\<lambda>(f, v). [flag_text f, int_dec (sint v)]) fs)"

lemma parse_flag:
  "parse_optional_flags (flag_text f # v # rest) req = parse_optional_flags rest (set_flag f (atoi v) req)"
  by (cases f) simp_all

lemma parse_print_append:
  "parse_optional_flags (print_flags fs @ rest) req
     = parse_optional_flags rest (fold (\<lambda>(f, v). set_flag f v) fs req)"
proof (induction fs arbitrary: req)
  case Nil
  then show ?case by (simp add: print_flags_def)
next
  case (Cons x fs)
  obtain f v where x: "x = (f, v)" by (cases x)
  have "print_flags (x # fs) = flag_text f # int_dec (sint v) # print_flags fs"
    by (simp add: print_flags_def x)
  then show ?case
    by (simp only: append_Cons parse_flag atoi_int_dec Cons.IH) (simp add: x)
qed




lemma parse_flags_keeps:
  "parse_optional_flags args req = (rc, req') \<Longrightarrow> req_id req' = req_id req
     \<and> req_rootfs req' = req_rootfs req \<and> req_command req' = req_command req
     \<and> req_type req' = req_type req"
proof (induction args req arbitrary: rc req' rule: parse_optional_flags.induct)
  case (2 a args req)
  show ?case
  proof (cases args)
    case Nil
    with "2.prems" show ?thesis
      by (simp split: if_splits)
  next
    case (Cons v rest)
    consider (soft) "a = ''--soft-mib''" | (hard) "a = ''--hard-mib''" | (nice) "a = ''--nice''"
      | (other) "a \<noteq> ''--soft-mib''" "a \<noteq> ''--hard-mib''" "a \<noteq> ''--nice''"
      by blast
    then show ?thesis
    proof cases
      case soft
      with Cons "2.prems" "2.IH"(1) [OF soft Cons] show ?thesis by simp
    next
      case hard
      with Cons "2.prems" "2.IH"(2) [OF _ hard Cons] show ?thesis by simp
    next
      case nice
      with Cons "2.prems" "2.IH"(3) [OF _ _ nice Cons] show ?thesis by simp
    next
      case other
      with "2.prems" show ?thesis by simp
    qed
  qed
qed simp

lemma start_request_ok:
  assumes "\<forall>a \<in> set argv. NUL \<notin> set a" "5 \<le> length argv"
  shows "request_ok (start_request argv)"
proof -
  have "NUL \<notin> set (argv ! 2)" "NUL \<notin> set (argv ! 3)" "NUL \<notin> set (argv ! 4)"
    using assms by simp_all
  then show ?thesis
    by (simp add: start_request_def request_ok_def safe_strcpy_fits c_layout)
qed

lemma id_request_ok:
  assumes "\<forall>a \<in> set argv. NUL \<notin> set a" "length argv = 3"
  shows "request_ok (init_request_defaults\<lparr>req_type := t,
    req_id := safe_strcpy d (Some (argv ! 2)) MAX_ID_LEN\<rparr>)"
proof -
  have "NUL \<notin> set (argv ! 2)"
    using assms by simp
  then show ?thesis
    by (simp add: init_request_defaults_def request_ok_def safe_strcpy_fits c_layout)
qed

lemma main_action_Send:
  assumes "main_action argv = Send req" "\<forall>a \<in> set argv. NUL \<notin> set a"
  shows "request_ok req" "req_type req \<in> range request_type_code"
proof -
  consider (start) rc where "5 \<le> length argv"
      "parse_optional_flags (drop 5 argv) (start_request argv) = (rc, req)"
    | (ps) "req = init_request_defaults\<lparr>req_type := request_type_code REQ_PS\<rparr>"
    | (byid) t d where "length argv = 3" "req = init_request_defaults\<lparr>req_type := request_type_code t,
        req_id := safe_strcpy d (Some (argv ! 2)) MAX_ID_LEN\<rparr>"
    using assms(1)
    by (auto simp: main_action_def Let_def simp del: request_type_code.simps
        split: if_splits prod.splits)
  then have "request_ok req \<and> req_type req \<in> range request_type_code"
  proof cases
    case start
    have "req_type (start_request argv) \<in> range request_type_code"
      by (simp add: start_request_def Let_def del: request_type_code.simps)
    then show ?thesis
      using parse_flags_keeps [OF start(2)] start_request_ok [OF assms(2) start(1)]
      by (simp add: request_ok_def)
  next
    case ps
    then show ?thesis
      by (simp add: init_request_defaults_def request_ok_def c_layout del: request_type_code.simps)
  next
    case byid
    then show ?thesis
      using id_request_ok [OF assms(2) byid(1)] by (simp del: request_type_code.simps)
  qed
  then show "request_ok req" "req_type req \<in> range request_type_code"
    by simp_all
qed

end
