(* ===== verification/Workloads.thy ===== *)
theory Workloads
  imports C_Text
begin

text \<open>
  The programs that are run inside containers for experiments: \<^verbatim>\<open>cpu_hog.c\<close>, \<^verbatim>\<open>memory_hog.c\<close>
  and \<^verbatim>\<open>io_pulse.c\<close> of \<^verbatim>\<open>src/\<close>, and the versions of the starter kit under \<^verbatim>\<open>src/boilerplate/\<close>,
  whose names carry the prefix \<open>bp_\<close>. What a program prints is a list of lines without their
  newline. Clock readings and the results of \<^verbatim>\<open>malloc\<close>, \<^verbatim>\<open>open\<close> and \<^verbatim>\<open>write\<close> are arguments. A
  signed overflow, which C leaves undefined, is the result \<^const>\<open>None\<close>; for a program that loops
  until something happens \<^const>\<open>None\<close> also means that it still runs when its inputs end.
\<close>


section \<open>The workloads of the runtime\<close>

text \<open>\<^verbatim>\<open>mb * 1024 * 1024\<close> is computed in type \<open>int\<close> and then converted to \<open>size_t\<close>.\<close>

definition memory_hog_size :: "i32 \<Rightarrow> u64 option" where
  "memory_hog_size mb =
     (if - (2 ^ 31) \<le> sint mb * 1024 * 1024 \<and> sint mb * 1024 * 1024 < 2 ^ 31
      then Some (ulong_of_int (mb * 1024 * 1024)) else None)"

text \<open>The offsets that the loop writes to, from \<open>i\<close> on.\<close>

function touched :: "nat \<Rightarrow> nat \<Rightarrow> nat list" where
  "touched i sz = (if i < sz then i # touched (i + 4096) sz else [])"
  by pat_completeness auto
termination
  by (relation "measure (\<lambda>(i, sz). sz - i)") auto

declare touched.simps [simp del]

record hog_run =
  hog_output :: "string list"
  hog_touched :: "nat list"
  hog_exit :: int

definition memory_hog :: "string list \<Rightarrow> (u64 \<Rightarrow> bool) \<Rightarrow> hog_run option" where
  "memory_hog argv malloc_ok =
     (let mb = (if 1 < length argv then atoi (argv ! 1) else 50);
          out = [''Allocating '' @ int_dec (sint mb) @ '' MB...'']
      in case memory_hog_size mb of
           None \<Rightarrow> None
         | Some sz \<Rightarrow>
             if \<not> malloc_ok sz
             then Some \<lparr>hog_output = out, hog_touched = [], hog_exit = 1\<rparr>
             else Some \<lparr>hog_output = out @ [''Holding memory...''],
                        hog_touched = touched 0 (unat sz), hog_exit = 0\<rparr>)"

text \<open>\<open>n\<close> turns of the endless loop of \<^verbatim>\<open>cpu_hog\<close>: the counter and what was printed.\<close>

fun cpu_hog_loop :: "nat \<Rightarrow> u64 \<Rightarrow> u64 \<times> string list" where
  "cpu_hog_loop 0 i = (i, [])"
| "cpu_hog_loop (Suc n) i =
     (let i' = i + 1;
          out = (if i' mod 1000000000 = 0 then [''Still running...''] else [])
      in case cpu_hog_loop n i' of (j, rest) \<Rightarrow> (j, out @ rest))"

definition cpu_hog :: "nat \<Rightarrow> string list" where
  "cpu_hog n = ''Starting CPU hog...'' # snd (cpu_hog_loop n 0)"

definition io_pulse :: "string list \<times> int" where
  "io_pulse = (''Starting IO pulse...'' # map (\<lambda>i. ''Pulse '' @ nat_dec i) [0..<20]
     @ [''Finished IO pulse''], 0)"


section \<open>The workloads of the starter kit\<close>

text \<open>
  The argument parsers share one shape: an empty text, trailing characters or (except for the
  sleep time) the value 0 give the fallback.
\<close>

definition bp_parse_seconds :: "string \<Rightarrow> u32 \<Rightarrow> u32" where
  "bp_parse_seconds arg fallback =
     (case strtoul arg of (value, end_text, erange) \<Rightarrow>
        if arg = [] \<or> end_text \<noteq> [] \<or> value = 0 then fallback else ucast value)"

definition bp_parse_size_mb :: "string \<Rightarrow> u64 \<Rightarrow> u64" where
  "bp_parse_size_mb arg fallback =
     (case strtoul arg of (value, end_text, erange) \<Rightarrow>
        if arg = [] \<or> end_text \<noteq> [] \<or> value = 0 then fallback else value)"

definition bp_parse_sleep_ms :: "string \<Rightarrow> u32 \<Rightarrow> u32" where
  "bp_parse_sleep_ms arg fallback =
     (case strtoul arg of (value, end_text, erange) \<Rightarrow>
        if arg = [] \<or> end_text \<noteq> [] then fallback else ucast (value * 1000))"

definition bp_parse_uint :: "string \<Rightarrow> u32 \<Rightarrow> u32" where
  "bp_parse_uint arg fallback =
     (case strtoul arg of (value, end_text, erange) \<Rightarrow>
        if arg = [] \<or> end_text \<noteq> [] \<or> value = 0 then fallback else ucast value)"

definition u_dec :: "'a::len word \<Rightarrow> string" where
  "u_dec v = nat_dec (unat v)"

text \<open>
  The loop of \<^verbatim>\<open>cpu_hog\<close>; each element holds the three readings of the clock that one turn may
  take: in the condition, in the test for a report, and for the report itself.
\<close>

fun bp_cpu_loop ::
  "u32 \<Rightarrow> int \<Rightarrow> (int \<times> int \<times> int) list \<Rightarrow> int \<Rightarrow> u64 \<Rightarrow> (string list \<times> u64) option" where
  "bp_cpu_loop duration start [] last_report acc = None"
| "bp_cpu_loop duration start ((t1, t2, t3) # ts) last_report acc =
     (if \<not> (word_of_int (t1 - start) :: u32) < duration then Some ([], acc)
      else
        let acc' = acc * 1664525 + 1013904223 in
        if t2 \<noteq> last_report
        then map_option (\<lambda>(out, a). ((''cpu_hog alive elapsed='' @ int_dec (t3 - start)
                 @ '' accumulator='' @ u_dec acc') # out, a))
               (bp_cpu_loop duration start ts t3 acc')
        else bp_cpu_loop duration start ts last_report acc')"

definition bp_cpu_hog :: "string list \<Rightarrow> int \<Rightarrow> (int \<times> int \<times> int) list \<Rightarrow> (string list \<times> int) option" where
  "bp_cpu_hog argv start clock =
     (let duration = (if 1 < length argv then bp_parse_seconds (argv ! 1) 10 else 10)
      in map_option (\<lambda>(out, acc). (out @ [''cpu_hog done duration='' @ u_dec duration
             @ '' accumulator='' @ u_dec acc], 0))
           (bp_cpu_loop duration start clock start 0))"

text \<open>
  The loop of the starter's \<^verbatim>\<open>memory_hog\<close> over the results of \<^verbatim>\<open>malloc\<close>: the lines printed and
  the number of chunks filled. \<open>count\<close> stays an \<open>int\<close>; its overflow is undefined.
\<close>

fun bp_memory_loop :: "u64 \<Rightarrow> bool list \<Rightarrow> int \<Rightarrow> (string list \<times> int) option" where
  "bp_memory_loop chunk_mb [] n = None"
| "bp_memory_loop chunk_mb (False # ms) n =
     Some ([''malloc failed after '' @ int_dec n @ '' allocations''], n)"
| "bp_memory_loop chunk_mb (True # ms) n =
     (if n + 1 = 2 ^ 31 then None
      else map_option (\<lambda>(out, k). ((''allocation='' @ int_dec (n + 1) @ '' chunk='' @ u_dec chunk_mb
               @ ''MB total='' @ u_dec (word_of_int (n + 1) * chunk_mb) @ ''MB'') # out, k))
             (bp_memory_loop chunk_mb ms (n + 1)))"

record bp_hog =
  bp_chunk_bytes :: u64
  bp_sleep_us :: u32
  bp_result :: "(string list \<times> int) option"

definition bp_memory_hog :: "string list \<Rightarrow> bool list \<Rightarrow> bp_hog" where
  "bp_memory_hog argv mallocs =
     (let chunk_mb = (if 1 < length argv then bp_parse_size_mb (argv ! 1) 8 else 8);
          sleep_us = (if 2 < length argv then bp_parse_sleep_ms (argv ! 2) 1000 else 1000 * 1000)
      in \<lparr>bp_chunk_bytes = chunk_mb * 1024 * 1024, bp_sleep_us = sleep_us,
          bp_result = bp_memory_loop chunk_mb mallocs 0\<rparr>)"

text \<open>
  The loop of the starter's \<^verbatim>\<open>io_pulse\<close>: \<open>wrote k\<close> is what the write of iteration \<open>k\<close> returns. The
  result is the exit status, the contents of the file and the lines printed.
\<close>

definition bp_pulse_line :: "u32 \<Rightarrow> string" where
  "bp_pulse_line k = ''io_pulse iteration='' @ u_dec k @ [CHR 0x0A]"

fun bp_pulse_loop :: "nat \<Rightarrow> u32 \<Rightarrow> (nat \<Rightarrow> int) \<Rightarrow> int \<times> string \<times> string list" where
  "bp_pulse_loop 0 i wrote = (0, [], [])"
| "bp_pulse_loop (Suc n) i wrote =
     (let line = snprintf_text 128 (bp_pulse_line (i + 1));
          n_line = int (snprintf_ret (bp_pulse_line (i + 1)));
          k = wrote (unat i)
      in if k \<noteq> n_line then (1, take (nat k) line, [])
         else (case bp_pulse_loop n (i + 1) wrote of
                 (rc, rest, out) \<Rightarrow> (rc, line @ rest, (''io_pulse wrote iteration='' @ u_dec (i + 1)) # out)))"

definition bp_io_pulse :: "string list \<Rightarrow> bool \<Rightarrow> (nat \<Rightarrow> int) \<Rightarrow> int \<times> string \<times> string list" where
  "bp_io_pulse argv open_ok wrote =
     (let iterations = (if 1 < length argv then bp_parse_uint (argv ! 1) 20 else 20)
      in if \<not> open_ok then (1, [], []) else bp_pulse_loop (unat iterations) 0 wrote)"



section \<open>Properties\<close>

lemma touched_iff: "j \<in> set (touched i sz) \<longleftrightarrow> j < sz \<and> (\<exists>k. j = i + 4096 * k)"
proof (induction i sz rule: touched.induct)
  case (1 i sz)
  show ?case
  proof (cases "i < sz")
    case False
    then show ?thesis by (simp add: touched.simps)
  next
    case True
    have "(\<exists>k. j = i + 4096 * k) \<longleftrightarrow> j = i \<or> (\<exists>k. j = i + 4096 + 4096 * k)"
    proof
      assume "\<exists>k. j = i + 4096 * k"
      then obtain k where "j = i + 4096 * k" ..
      then show "j = i \<or> (\<exists>k. j = i + 4096 + 4096 * k)"
        by (cases k) auto
    next
      assume "j = i \<or> (\<exists>k. j = i + 4096 + 4096 * k)"
      then show "\<exists>k. j = i + 4096 * k"
        by (elim disjE exE) (auto intro: exI [of _ 0] exI [of _ "Suc k" for k])
    qed
    with 1 True show ?thesis
      by (subst touched.simps) auto
  qed
qed

lemma sint_mult_1024:
  assumes "- (2 ^ 31) \<le> sint x * 1024" "sint x * 1024 < 2 ^ 31"
  shows "sint (x * 1024 :: i32) = sint x * 1024"
proof -
  have "sint (x * 1024) = signed_take_bit 31 (sint x * sint (1024 :: i32))"
    using sint_word_mult [of x 1024] by simp
  also have "sint (1024 :: i32) = 1024"
    by simp
  finally show ?thesis
    using assms by (simp add: signed_take_bit_int_eq_self)
qed

lemma sint_mult_mib:
  assumes "- (2 ^ 31) \<le> sint mb * 1024 * 1024" "sint mb * 1024 * 1024 < 2 ^ 31"
  shows "sint (mb * 1024 * 1024 :: i32) = sint mb * 1024 * 1024"
proof -
  have "sint (mb * 1024) = sint mb * 1024"
    using assms by (intro sint_mult_1024) simp_all
  then show ?thesis
    using assms by (subst sint_mult_1024) simp_all
qed

text \<open>
  Claim C39. \<^verbatim>\<open>memory_hog\<close> makes the memory resident that it announces: for every amount from 0 up
  to 2047 MiB, if the allocation succeeds, it writes to the first byte of each of the 256 pages
  of each MiB of the block, in no other place, and never outside of the block; for larger
  amounts the size overflows the type \<open>int\<close>.
\<close>

theorem memory_hog_touches:
  assumes "argv = [prog, int_dec n]" "0 \<le> n" "n < 2 ^ 31"
  shows "(n < 2048 \<longrightarrow> (\<exists>run. memory_hog argv (\<lambda>_. True) = Some run \<and> hog_exit run = 0
      \<and> set (hog_touched run) = {4096 * k | k. k < 256 * nat n}))
    \<and> (2048 \<le> n \<longrightarrow> memory_hog argv malloc_ok = None)"
proof -
  have arg: "atoi (int_dec n) = word_of_int n"
    using strtol_int_dec [of n] assms(2,3) by (simp add: atoi_def)
  have sint: "sint (word_of_int n :: i32) = n"
    using assms(2,3) by (simp add: signed_of_int signed_take_bit_int_eq_self)
  show ?thesis
  proof (cases "n < 2048")
    case False
    then show ?thesis
      using assms(1,2) sint by (simp add: memory_hog_def memory_hog_size_def arg Let_def)
  next
    case True
    let ?w = "word_of_int n * 1024 * 1024 :: i32"
    have "sint ?w = n * 1024 * 1024"
      using sint_mult_mib [of "word_of_int n"] sint True assms(2) by simp
    then have bytes: "unat (ulong_of_int ?w) = nat n * 1024 * 1024"
      using uint_ulong_of_int_nonneg [of ?w] assms(2) by (simp add: unat_eq_nat_uint nat_mult_distrib)
    have "memory_hog_size (word_of_int n) = Some (ulong_of_int ?w)"
      using True assms(2) by (simp add: memory_hog_size_def sint)
    then have run: "memory_hog argv (\<lambda>_. True) = Some \<lparr>hog_output =
        [''Allocating '' @ int_dec n @ '' MB...'', ''Holding memory...''],
        hog_touched = touched 0 (nat n * 1024 * 1024), hog_exit = 0\<rparr>"
      using assms(1) bytes by (simp add: memory_hog_def arg sint)
    have "set (touched 0 (nat n * 1024 * 1024)) = {4096 * k | k. k < 256 * nat n}"
      by (auto simp: touched_iff)
    with run True show ?thesis by simp
  qed
qed

theorem memory_hog_touches_witness:
  "\<exists>run. memory_hog [''memory_hog'', int_dec 2] (\<lambda>_. True) = Some run \<and> hog_exit run = 0
     \<and> 2093056 \<in> set (hog_touched run)"
proof -
  obtain run where run: "memory_hog [''memory_hog'', int_dec 2] (\<lambda>_. True) = Some run"
      "hog_exit run = 0" "set (hog_touched run) = {4096 * k | k. k < 256 * nat 2}"
    using memory_hog_touches [of _ "''memory_hog''" 2 "\<lambda>_. True", OF refl] by auto
  have "2093056 = 4096 * (511 :: nat)" "511 < 256 * nat 2"
    by simp_all
  then have "2093056 \<in> set (hog_touched run)"
    unfolding run(3) by blast
  with run show ?thesis by blast
qed



section \<open>Further facts about the workloads\<close>

lemma cpu_hog_loop_reports:
  "unat i + n < 2 ^ 64 \<Longrightarrow> length (snd (cpu_hog_loop n i)) + unat i div 1000000000
     = (unat i + n) div 1000000000"
proof (induction n arbitrary: i)
  case 0
  then show ?case by simp
next
  case (Suc n)
  have next_i: "unat (i + 1) = unat i + 1"
    using Suc.prems by (simp add: unat_word_ariths)
  have zero: "(i + 1) mod 1000000000 = 0 \<longleftrightarrow> (unat i + 1) mod 1000000000 = 0"
    by (simp add: word_unat_eq_iff unat_mod_distrib next_i)
  have "length (snd (cpu_hog_loop n (i + 1))) + (unat i + 1) div 1000000000
      = (unat i + Suc n) div 1000000000"
    using Suc.IH [of "i + 1"] Suc.prems by (simp add: next_i)
  moreover have "length (snd (cpu_hog_loop (Suc n) i)) = length (snd (cpu_hog_loop n (i + 1)))
      + (if (unat i + 1) mod 1000000000 = 0 then 1 else 0)"
    by (simp add: Let_def case_prod_beta zero)
  ultimately show ?case
    using div_Suc [of "unat i" 1000000000] by (simp split: if_splits)
qed

lemma parse_printed_number:
  assumes "0 < n" "n < 2 ^ 32"
  shows "bp_parse_seconds (nat_dec n) d = of_nat n" "bp_parse_uint (nat_dec n) d = of_nat n"
    "bp_parse_size_mb (nat_dec n) d' = of_nat n"
proof -
  have val: "strtoul (nat_dec n) = (of_nat n, [], False)"
    using assms by (intro strtoul_nat_dec) simp
  have "(of_nat n :: u64) \<noteq> 0"
    using assms by (simp add: word_unat_eq_iff unat_of_nat)
  moreover have "ucast (of_nat n :: u64) = (of_nat n :: u32)"
    using assms by (simp add: unsigned_of_nat take_bit_nat_eq_self)
  ultimately show "bp_parse_seconds (nat_dec n) d = of_nat n" "bp_parse_uint (nat_dec n) d = of_nat n"
    "bp_parse_size_mb (nat_dec n) d' = of_nat n"
    by (simp_all add: bp_parse_seconds_def bp_parse_uint_def bp_parse_size_mb_def val)
qed

text \<open>The starter's \<^verbatim>\<open>cpu_hog\<close> ends once the clock shows that its time is over.\<close>

lemma bp_cpu_loop_returns:
  "(\<exists>t \<in> set ts. \<not> (word_of_int (fst t - start) :: u32) < duration) \<Longrightarrow>
     \<exists>r. bp_cpu_loop duration start ts last_report acc = Some r"
proof (induction ts arbitrary: last_report acc)
  case Nil
  then show ?case by simp
next
  case (Cons x ts)
  obtain t1 t2 t3 where x: "x = (t1, t2, t3)"
    by (cases x)
  show ?case
  proof (cases "(word_of_int (t1 - start) :: u32) < duration")
    case False
    then show ?thesis by (simp add: x)
  next
    case True
    then have later: "\<exists>r. bp_cpu_loop duration start ts l a = Some r" for l a
      using Cons x by auto
    show ?thesis
      using True later [of t3 "acc * 1664525 + 1013904223"]
        later [of last_report "acc * 1664525 + 1013904223"]
      by (auto simp: x Let_def)
  qed
qed

text \<open>The starter's \<^verbatim>\<open>memory_hog\<close> reports how many chunks it could fill.\<close>

lemma bp_memory_loop_count:
  assumes "0 \<le> n" "n + int k < 2 ^ 31 - 1"
  shows "\<exists>lines. bp_memory_loop mb (replicate k True @ False # ms) n = Some (lines @
      [''malloc failed after '' @ int_dec (n + int k) @ '' allocations''], n + int k)
    \<and> length lines = k"
  using assms
proof (induction k arbitrary: n)
  case (Suc k)
  have eq: "n + 1 + int k = n + int (Suc k)"
    by simp
  have pos: "0 \<le> n + 1"
    using Suc.prems(1) by simp
  obtain lines where l: "bp_memory_loop mb (replicate k True @ False # ms) (n + 1) = Some (lines @
      [''malloc failed after '' @ int_dec (n + int (Suc k)) @ '' allocations''], n + int (Suc k))"
    "length lines = k"
    using Suc.IH [of "n + 1", unfolded eq, OF pos Suc.prems(2)] by blast
  show ?case
    unfolding replicate_Suc append_Cons bp_memory_loop.simps l(1)
    using Suc.prems(2) l(2) by (auto intro: exI [of _ "x # lines" for x])
qed simp

text \<open>With complete writes the starter's \<^verbatim>\<open>io_pulse\<close> fills the file with one line per iteration.\<close>

lemma length_pulse_line: "length (bp_pulse_line k) \<le> 30"
proof -
  have "unat k < 10 ^ 10"
    by (rule order_less_le_trans [OF unsigned_less]) simp
  then have "length (nat_dec (unat k)) \<le> 10"
    by (simp only: length_nat_dec zero_less_numeral)
  then show ?thesis
    by (simp add: bp_pulse_line_def u_dec_def)
qed

lemma bp_pulse_loop_contents:
  assumes "\<And>j. wrote j = int (length (bp_pulse_line (of_nat j + 1)))"
  shows "fst (bp_pulse_loop n i wrote) = 0 \<and> fst (snd (bp_pulse_loop n i wrote))
    = concat (map (\<lambda>j. bp_pulse_line (i + of_nat j + 1)) [0..<n])"
proof (induction n arbitrary: i)
  case 0
  then show ?case by simp
next
  case (Suc n)
  have line: "snprintf_text 128 (bp_pulse_line k) = bp_pulse_line k" for k
    using length_pulse_line [of k] by (simp add: snprintf_text_def)
  have "map (\<lambda>j. bp_pulse_line (i + of_nat j + 1)) [0..<Suc n]
      = bp_pulse_line (i + 1) # map (\<lambda>j. bp_pulse_line (i + 1 + of_nat j + 1)) [0..<n]"
    by (simp add: upt_conv_Cons map_Suc_upt [symmetric] ac_simps del: upt_Suc)
  then show ?case
    using Suc.IH [of "i + 1"] assms [of "unat i"]
    by (simp add: Let_def line snprintf_ret_def case_prod_beta del: upt_Suc)
qed

end
