(* ===== verification/Starter_Engine.thy ===== *)
theory Starter_Engine
  imports C_Text Monitor
begin

text \<open>
  The user-space program of the starter kit, \<^verbatim>\<open>src/boilerplate/engine.c\<close>, which the repository keeps
  beside the finished runtime: flag parsing with validation, the buffer skeleton, the calls to
  the monitor, and the commands as far as they are filled in. Names carry the prefix \<open>bp_\<close>.
  Functions that the kit leaves as stubs are stubs here too. System calls and files are
  arguments; what a command does is a list of actions in order. A call that C leaves undefined
  (an overlong \<^verbatim>\<open>%s\<close> in \<^verbatim>\<open>fscanf\<close>, a variable read before it was set) is the result
  \<^const>\<open>None\<close>, as is a function that never returns.
\<close>


section \<open>Data\<close>

datatype bp_command_kind = CMD_SUPERVISOR | CMD_START | CMD_RUN | CMD_PS | CMD_LOGS | CMD_STOP

definition BP_ID_LEN :: nat where "BP_ID_LEN = 32"
definition BP_PATH_MAX :: nat where "BP_PATH_MAX = 4096"
definition BP_COMMAND_LEN :: nat where "BP_COMMAND_LEN = 256"
definition BP_LOG_CHUNK_SIZE :: nat where "BP_LOG_CHUNK_SIZE = 4096"
definition BP_LOG_CAPACITY :: nat where "BP_LOG_CAPACITY = 16"
definition BP_DEFAULT_SOFT_LIMIT :: u64 where "BP_DEFAULT_SOFT_LIMIT = push_bit 20 40"
definition BP_DEFAULT_HARD_LIMIT :: u64 where "BP_DEFAULT_HARD_LIMIT = push_bit 20 64"

record bp_request =
  bp_kind :: bp_command_kind
  bp_container_id :: string
  bp_rootfs :: string
  bp_command :: string
  bp_soft_limit :: u64
  bp_hard_limit :: u64
  bp_nice_value :: i32

record bp_log_item =
  bp_item_id :: string
  bp_item_length :: nat
  bp_item_data :: "char list"

record bp_buffer =
  bp_items :: "bp_log_item list"
  bp_head :: nat
  bp_tail :: nat
  bp_count :: nat
  bp_shutting_down :: bool

definition bp_zero_request :: "bp_command_kind \<Rightarrow> bp_request" where
  "bp_zero_request k = \<lparr>bp_kind = k, bp_container_id = [], bp_rootfs = [], bp_command = [],
     bp_soft_limit = 0, bp_hard_limit = 0, bp_nice_value = 0\<rparr>"

text \<open>\<^verbatim>\<open>strncpy(dst, src, n - 1)\<close> into a zeroed array of \<open>n\<close> bytes.\<close>

definition strncpy_zeroed :: "nat \<Rightarrow> string \<Rightarrow> string" where
  "strncpy_zeroed n s = take (n - 1) s"


section \<open>Flags\<close>

text \<open>The result is the value stored through \<^verbatim>\<open>target_bytes\<close>, or \<^const>\<open>None\<close> for -1.\<close>

definition bp_parse_mib_flag :: "string \<Rightarrow> u64 option" where
  "bp_parse_mib_flag v =
     (case strtoul v of (mib, end_text, erange) \<Rightarrow>
        if erange \<or> end_text = v \<or> end_text \<noteq> [] then None
        else if (- 1 :: u64) div (push_bit 20 1) < mib then None
        else Some (mib * push_bit 20 1))"

text \<open>The value of \<^verbatim>\<open>--nice\<close>, or \<^const>\<open>None\<close> if it is rejected.\<close>

definition bp_parse_nice :: "string \<Rightarrow> i32 option" where
  "bp_parse_nice v =
     (case strtol v of (n, end_text, erange) \<Rightarrow>
        if erange \<or> end_text = v \<or> end_text \<noteq> [] \<or> n < -20 \<or> 19 < n then None
        else Some (word_of_int n))"

fun bp_flag_loop :: "string list \<Rightarrow> bp_request \<Rightarrow> bp_request option" where
  "bp_flag_loop [] req = Some req"
| "bp_flag_loop [a] req = None"
| "bp_flag_loop (a # v # rest) req =
     (if a = ''--soft-mib'' then
        (case bp_parse_mib_flag v of None \<Rightarrow> None
         | Some b \<Rightarrow> bp_flag_loop rest (req\<lparr>bp_soft_limit := b\<rparr>))
      else if a = ''--hard-mib'' then
        (case bp_parse_mib_flag v of None \<Rightarrow> None
         | Some b \<Rightarrow> bp_flag_loop rest (req\<lparr>bp_hard_limit := b\<rparr>))
      else if a = ''--nice'' then
        (case bp_parse_nice v of None \<Rightarrow> None
         | Some n \<Rightarrow> bp_flag_loop rest (req\<lparr>bp_nice_value := n\<rparr>))
      else None)"

definition bp_parse_optional_flags :: "string list \<Rightarrow> bp_request \<Rightarrow> bp_request option" where
  "bp_parse_optional_flags args req =
     (case bp_flag_loop args req of
        None \<Rightarrow> None
      | Some r \<Rightarrow> if bp_hard_limit r < bp_soft_limit r then None else Some r)"

text \<open>\<^verbatim>\<open>state_to_string\<close> on the value of the enumeration type.\<close>

definition bp_state_to_string :: "i32 \<Rightarrow> string" where
  "bp_state_to_string st =
     (if st = 0 then ''starting'' else if st = 1 then ''running'' else if st = 2 then ''stopped''
      else if st = 3 then ''killed'' else if st = 4 then ''exited'' else ''unknown'')"


section \<open>Buffer and monitor calls\<close>

datatype bp_resource = Res_mutex | Res_not_empty | Res_not_full

definition bp_empty_buffer :: bp_buffer where
  "bp_empty_buffer = \<lparr>bp_items = replicate BP_LOG_CAPACITY \<lparr>bp_item_id = [], bp_item_length = 0,
       bp_item_data = replicate BP_LOG_CHUNK_SIZE NUL\<rparr>,
     bp_head = 0, bp_tail = 0, bp_count = 0, bp_shutting_down = False\<rparr>"

text \<open>The arguments are the results of the three initialisations; the last result is what is held.\<close>

definition bp_bounded_buffer_init :: "int \<Rightarrow> int \<Rightarrow> int \<Rightarrow> int \<times> bp_buffer \<times> bp_resource list" where
  "bp_bounded_buffer_init rc_mutex rc_empty rc_full =
     (if rc_mutex \<noteq> 0 then (rc_mutex, bp_empty_buffer, [])
      else let h1 = [Res_mutex]
      in if rc_empty \<noteq> 0 then (rc_empty, bp_empty_buffer, removeAll Res_mutex h1)
      else let h2 = Res_not_empty # h1
      in if rc_full \<noteq> 0
         then (rc_full, bp_empty_buffer, removeAll Res_mutex (removeAll Res_not_empty h2))
      else (0, bp_empty_buffer, Res_not_full # h2))"

definition bp_bounded_buffer_destroy :: "bp_resource list \<Rightarrow> bp_resource list" where
  "bp_bounded_buffer_destroy held =
     removeAll Res_mutex (removeAll Res_not_empty (removeAll Res_not_full held))"

definition bp_bounded_buffer_begin_shutdown :: "bp_buffer \<Rightarrow> bp_buffer" where
  "bp_bounded_buffer_begin_shutdown b = b\<lparr>bp_shutting_down := True\<rparr>"

definition bp_bounded_buffer_push :: "bp_buffer \<Rightarrow> bp_log_item \<Rightarrow> int \<times> bp_buffer" where
  "bp_bounded_buffer_push b item = (-1, b)"

definition bp_bounded_buffer_pop :: "bp_buffer \<Rightarrow> int \<times> bp_buffer" where
  "bp_bounded_buffer_pop b = (-1, b)"

definition bp_logging_thread :: "addr option" where
  "bp_logging_thread = None"

definition bp_child_fn :: int where
  "bp_child_fn = 1"

record bp_monitor_request =
  bm_pid :: pid_t
  bm_soft_limit :: u64
  bm_hard_limit :: u64
  bm_container_id :: string

definition bp_register_with_monitor ::
  "(bp_monitor_request \<Rightarrow> int) \<Rightarrow> string \<Rightarrow> pid_t \<Rightarrow> u64 \<Rightarrow> u64 \<Rightarrow> int" where
  "bp_register_with_monitor ioctl i p soft hard =
     (if ioctl \<lparr>bm_pid = p, bm_soft_limit = soft, bm_hard_limit = hard,
                bm_container_id = strncpy_zeroed BP_ID_LEN i\<rparr> < 0 then -1 else 0)"

definition bp_unregister_from_monitor :: "(bp_monitor_request \<Rightarrow> int) \<Rightarrow> string \<Rightarrow> pid_t \<Rightarrow> int" where
  "bp_unregister_from_monitor ioctl i p =
     (if ioctl \<lparr>bm_pid = p, bm_soft_limit = 0, bm_hard_limit = 0,
                bm_container_id = strncpy_zeroed BP_ID_LEN i\<rparr> < 0 then -1 else 0)"



section \<open>Commands\<close>

text \<open>
  \<^verbatim>\<open>run_supervisor\<close> returns 1 when it cannot initialise its locks and else sleeps for ever; what
  follows its endless loop is never reached.
\<close>

definition bp_run_supervisor :: "int \<Rightarrow> int \<Rightarrow> int \<Rightarrow> int \<Rightarrow> int option" where
  "bp_run_supervisor rc_lock rc_mutex rc_empty rc_full =
     (if rc_lock \<noteq> 0 then Some 1
      else if fst (bp_bounded_buffer_init rc_mutex rc_empty rc_full) \<noteq> 0 then Some 1
      else None)"

definition bp_send_control_request :: "bp_request \<Rightarrow> int" where
  "bp_send_control_request req = 0"

datatype bp_action =
    Bp_print string
  | Bp_append string string
  | Bp_sleep nat
  | Bp_kill pid_t
  | Bp_perror string
  | Bp_chroot string
  | Bp_chdir string
  | Bp_exec "string list"

text \<open>The request of \<^verbatim>\<open>start\<close> and \<^verbatim>\<open>run\<close> before the optional flags.\<close>

definition bp_start_request :: "bp_command_kind \<Rightarrow> string list \<Rightarrow> bp_request" where
  "bp_start_request k argv = (bp_zero_request k)
     \<lparr>bp_container_id := strncpy_zeroed BP_ID_LEN (argv ! 2),
      bp_rootfs := strncpy_zeroed BP_PATH_MAX (argv ! 3),
      bp_command := strncpy_zeroed BP_COMMAND_LEN (argv ! 4),
      bp_soft_limit := BP_DEFAULT_SOFT_LIMIT, bp_hard_limit := BP_DEFAULT_HARD_LIMIT\<rparr>"

text \<open>The script that the child of \<^verbatim>\<open>cmd_start\<close> hands to the shell.\<close>

definition bp_container_script :: string where
  "bp_container_script = ''while true; do echo '' @ [CHR 0x22] @ ''[container running]'' @ [CHR 0x22]
     @ '' >> /logs.txt; sleep 2; done''"

text \<open>
  \<^verbatim>\<open>cmd_start\<close>: \<open>p\<close> is the result of \<^verbatim>\<open>fork\<close>, \<open>exec_ok\<close> tells whether the child becomes the shell (and
  then has no result), the last two whether the log files open. The results of \<^verbatim>\<open>chroot\<close> and
  \<^verbatim>\<open>chdir\<close> are not looked at.
\<close>

definition bp_cmd_start ::
  "string list \<Rightarrow> pid_t \<Rightarrow> bool \<Rightarrow> bool \<Rightarrow> bool \<Rightarrow> int option \<times> bp_action list" where
  "bp_cmd_start argv p exec_ok soft_log hard_log =
     (if length argv < 5 then (Some 1, [])
      else case bp_parse_optional_flags (drop 5 argv) (bp_start_request CMD_START argv) of
             None \<Rightarrow> (Some 1, [])
           | Some req \<Rightarrow>
               if p = 0 then
                 let acts = [Bp_chroot (argv ! 3), Bp_chdir ''/'',
                             Bp_exec [''/bin/sh'', ''-c'', bp_container_script]]
                 in if exec_ok then (None, acts) else (Some 1, acts @ [Bp_perror ''exec failed''])
               else if 0 < sint p then
                 (Some 0,
                    [Bp_print (''Container '' @ argv ! 2 @ '' started with PID '' @ int_dec (sint p)),
                     Bp_print (''WARNING: Container '' @ argv ! 2 @ '' exceeded soft memory limit'')]
                    @ (if soft_log then [Bp_append ''soft_limit.log''
                         (''WARNING: '' @ argv ! 2 @ '' exceeded soft memory limit'')] else [])
                    @ [Bp_sleep 5,
                       Bp_print (''HARD LIMIT EXCEEDED: KIlling container '' @ argv ! 2 @ '' (PID ''
                         @ int_dec (sint p) @ '')''),
                       Bp_kill p]
                    @ (if hard_log then [Bp_append ''hard_limit.log'' (''container '' @ argv ! 2
                         @ '' killed after eceeding hard limit (PID '' @ int_dec (sint p) @ '')'')]
                       else []))
               else (Some 0, [Bp_perror ''fork failed'']))"

definition bp_cmd_run :: "string list \<Rightarrow> int" where
  "bp_cmd_run argv =
     (if length argv < 5 then 1
      else case bp_parse_optional_flags (drop 5 argv) (bp_start_request CMD_RUN argv) of
             None \<Rightarrow> 1
           | Some req \<Rightarrow> bp_send_control_request req)"

text \<open>\<^verbatim>\<open>%s\<close> and \<^verbatim>\<open>%d\<close> of \<^verbatim>\<open>fscanf\<close>: what was read and the input after it.\<close>

definition scan_word :: "string \<Rightarrow> string \<times> string" where
  "scan_word inp = (let t = dropWhile is_space inp
     in (takeWhile (\<lambda>c. \<not> is_space c) t, dropWhile (\<lambda>c. \<not> is_space c) t))"

definition scan_int :: "string \<Rightarrow> i32 option \<times> string" where
  "scan_int inp =
     (case number_prefix inp of (neg, ds, rest) \<Rightarrow>
        if ds = [] then (None, rest) else (Some (word_of_int (fst (strtol inp))), rest))"

lemma length_scan_word: "scan_word inp = (w, rest) \<Longrightarrow> length w + length rest \<le> length inp"
  unfolding scan_word_def Let_def
  by (metis (no_types, lifting) length_append length_dropWhile_le prod.inject takeWhile_dropWhile_id)

lemma length_scan_int: "scan_int inp = (v, rest) \<Longrightarrow> length rest \<le> length inp"
proof -
  assume "scan_int inp = (v, rest)"
  then have "rest = snd (snd (number_prefix inp))"
    by (auto simp: scan_int_def split: prod.splits if_splits)
  moreover have "length (snd (snd (number_prefix inp))) \<le> length (dropWhile is_space inp)"
    unfolding number_prefix_def Let_def
    by (auto intro: le_trans [OF length_dropWhile_le])
  ultimately show "length rest \<le> length inp"
    using length_dropWhile_le [of is_space inp] by simp
qed

text \<open>
  The lines of \<^verbatim>\<open>cmd_ps\<close>: \<open>p\<close> and \<open>st\<close> are the values left by the turn before. A word of 50 or more
  characters overruns its buffer.
\<close>

function bp_ps_lines :: "string \<Rightarrow> i32 option \<Rightarrow> string option \<Rightarrow> string list option" where
  "bp_ps_lines inp p st =
     (case scan_word inp of (i, r1) \<Rightarrow>
        if i = [] then Some []
        else if 50 \<le> length i then None
        else (case scan_int r1 of (v, r2) \<Rightarrow>
          (let (w, r3) = (if v = None then ([], r2) else scan_word r2);
               p' = (case v of None \<Rightarrow> p | Some x \<Rightarrow> Some x);
               st' = (if w = [] then st else Some w)
           in if 50 \<le> length w then None
              else (case (p', st') of
                      (Some x, Some y) \<Rightarrow>
                        map_option ((#) (i @ [CHR 0x09, CHR 0x09] @ int_dec (sint x) @ [CHR 0x09] @ y))
                          (bp_ps_lines r3 p' st')
                    | _ \<Rightarrow> None))))"
  by pat_completeness auto
termination
  by (relation "measure (\<lambda>(inp, p, st). length inp)")
    (auto dest!: length_scan_word [OF sym] length_scan_int [OF sym] split: if_splits
      simp flip: length_greater_0_conv)

declare bp_ps_lines.simps [simp del]

definition bp_cmd_ps :: "string option \<Rightarrow> (int \<times> string list) option" where
  "bp_cmd_ps file_text =
     (case file_text of
        None \<Rightarrow> Some (0, [''No containers found.''])
      | Some inp \<Rightarrow> map_option (\<lambda>ls. (0, (''CONTAINER ID'' @ [CHR 0x09] @ ''PID'' @ [CHR 0x09]
                       @ ''STATE'') # ls)) (bp_ps_lines inp None None))"

text \<open>One \<^verbatim>\<open>fgets\<close> into 256 bytes: up to 255 characters, a newline ends the line.\<close>

definition fgets_line :: "string \<Rightarrow> string" where
  "fgets_line inp =
     (let pre = takeWhile (\<lambda>c. c \<noteq> CHR 0x0A) (take 255 inp)
      in take 255 (take (length pre + 1) inp))"

lemma fgets_line_pos: "inp \<noteq> [] \<Longrightarrow> 0 < length (fgets_line inp)"
  by (cases inp) (simp_all add: fgets_line_def Let_def)

function bp_log_text :: "string \<Rightarrow> string" where
  "bp_log_text inp =
     (if inp = [] then []
      else cstr (fgets_line inp) @ bp_log_text (drop (length (fgets_line inp)) inp))"
  by pat_completeness auto
termination
  by (relation "measure length") (auto intro!: diff_less fgets_line_pos [simplified])

declare bp_log_text.simps [simp del]

definition bp_cmd_logs :: "string list \<Rightarrow> (string \<Rightarrow> string option) \<Rightarrow> int \<times> string" where
  "bp_cmd_logs argv fopen =
     (if length argv < 3 then (1, ''Usage: logs <container-id>'' @ [CHR 0x0A])
      else case fopen (snprintf_text 100 (''rootfs-'' @ argv ! 2 @ ''/logs.txt'')) of
             None \<Rightarrow> (1, ''No logs found for container '' @ argv ! 2 @ [CHR 0x0A])
           | Some content \<Rightarrow>
               (0, ''Logs for container '' @ argv ! 2 @ '':'' @ [CHR 0x0A] @ bp_log_text content))"

definition bp_cmd_stop :: "string list \<Rightarrow> int" where
  "bp_cmd_stop argv =
     (if length argv < 3 then 1
      else bp_send_control_request ((bp_zero_request CMD_STOP)
             \<lparr>bp_container_id := strncpy_zeroed BP_ID_LEN (argv ! 2)\<rparr>))"

text \<open>
  What the system calls and files answer during one run of the program: the initialisations of
  the supervisor, the child of \<^verbatim>\<open>start\<close>, the file of \<^verbatim>\<open>ps\<close> and the files of \<^verbatim>\<open>logs\<close>.
\<close>

record bp_env =
  bp_rc_lock :: int
  bp_rc_mutex :: int
  bp_rc_empty :: int
  bp_rc_full :: int
  bp_fork :: pid_t
  bp_exec_ok :: bool
  bp_soft_log :: bool
  bp_hard_log :: bool
  bp_containers_txt :: "string option"
  bp_log_file :: "string \<Rightarrow> string option"

text \<open>The exit status of the program.\<close>

definition bp_main :: "bp_env \<Rightarrow> string list \<Rightarrow> int option" where
  "bp_main env argv =
     (if length argv < 2 then Some 1
      else if argv ! 1 = ''supervisor'' then
        (if length argv < 3 then Some 1
         else bp_run_supervisor (bp_rc_lock env) (bp_rc_mutex env) (bp_rc_empty env) (bp_rc_full env))
      else if argv ! 1 = ''start'' then
        fst (bp_cmd_start argv (bp_fork env) (bp_exec_ok env) (bp_soft_log env) (bp_hard_log env))
      else if argv ! 1 = ''run'' then Some (bp_cmd_run argv)
      else if argv ! 1 = ''ps'' then map_option fst (bp_cmd_ps (bp_containers_txt env))
      else if argv ! 1 = ''logs'' then Some (fst (bp_cmd_logs argv (bp_log_file env)))
      else if argv ! 1 = ''stop'' then Some (bp_cmd_stop argv)
      else Some 1)"



section \<open>Properties of the flags\<close>

lemma mib_bound: "(- 1 :: u64) div (push_bit 20 1) = 2 ^ 44 - 1"
  by (simp add: word_unat_eq_iff unat_div_distrib push_bit_eq_mult)

lemma unat_mib:
  assumes "(mib :: u64) \<le> 2 ^ 44 - 1"
  shows "unat (mib * 1048576) = unat mib * 1048576"
proof -
  have "unat mib \<le> 2 ^ 44 - 1"
    using assms by (simp add: word_le_nat_alt)
  then show ?thesis
    by (simp add: unat_word_ariths)
qed

lemma bp_parse_mib_SomeD: "bp_parse_mib_flag v = Some b \<Longrightarrow> 2 ^ 20 dvd unat b"
  by (auto simp: bp_parse_mib_flag_def mib_bound not_less unat_mib push_bit_eq_mult
      split: prod.splits if_splits)

lemma bp_parse_mib_printed:
  "bp_parse_mib_flag (nat_dec n) = (if n < 2 ^ 44 then Some (of_nat (n * 2 ^ 20)) else None)"
proof (cases "n < 2 ^ 64")
  case True
  have "(2 ^ 44 - 1 :: u64) < of_nat n \<longleftrightarrow> \<not> n < 2 ^ 44"
    using True by (simp add: word_less_nat_alt unat_of_nat not_less) arith
  then show ?thesis
    using strtoul_nat_dec [OF True] nat_dec_neq_Nil [of n, symmetric]
    by (simp add: bp_parse_mib_flag_def mib_bound push_bit_eq_mult)
next
  case False
  have "strtoul (nat_dec n) = (- 1, [], True)"
    using False number_prefix_digits(1) [OF nat_dec_digits nat_dec_neq_Nil, of n]
    by (simp add: strtoul_def dec_val_nat_dec)
  then show ?thesis
    using False by (simp add: bp_parse_mib_flag_def)
qed

lemma strtol_out_of_range:
  assumes "i < - (2 ^ 63) \<or> 2 ^ 63 \<le> i"
  shows "\<exists>v. strtol (int_dec i) = (v, [], True)"
proof (cases "i < 0")
  case True
  with assms show ?thesis
    using number_prefix_digits(2) [OF nat_dec_digits nat_dec_neq_Nil, of "nat (- i)"]
    by (simp add: strtol_def int_dec_def dec_val_nat_dec)
next
  case False
  with assms show ?thesis
    using number_prefix_digits(1) [OF nat_dec_digits nat_dec_neq_Nil, of "nat i"]
    by (simp add: strtol_def int_dec_def dec_val_nat_dec)
qed

lemma bp_parse_nice_printed:
  "bp_parse_nice (int_dec i) = (if - 20 \<le> i \<and> i \<le> 19 then Some (word_of_int i) else None)"
proof (cases "i < - (2 ^ 63) \<or> 2 ^ 63 \<le> i")
  case True
  then obtain v where "strtol (int_dec i) = (v, [], True)"
    using strtol_out_of_range by blast
  with True show ?thesis by (auto simp: bp_parse_nice_def)
next
  case False
  then have "strtol (int_dec i) = (i, [], False)"
    by (intro strtol_int_dec) auto
  moreover have "int_dec i \<noteq> []"
    by (simp add: int_dec_def)
  ultimately show ?thesis
    by (auto simp: bp_parse_nice_def)
qed

definition nice_ok :: "i32 \<Rightarrow> bool" where
  "nice_ok w \<longleftrightarrow> - 20 \<le> sint w \<and> sint w \<le> 19"

lemma bp_parse_nice_SomeD: "bp_parse_nice v = Some w \<Longrightarrow> nice_ok w"
  by (auto simp: bp_parse_nice_def nice_ok_def signed_of_int signed_take_bit_int_eq_self
      split: prod.splits if_splits)

text \<open>What every accepted turn of the loop keeps of the request.\<close>

lemma bp_flag_loop_keeps:
  assumes "bp_flag_loop args req = Some req'" "nice_ok (bp_nice_value req)"
    "2 ^ 20 dvd unat (bp_soft_limit req)" "2 ^ 20 dvd unat (bp_hard_limit req)"
  shows "nice_ok (bp_nice_value req')" "2 ^ 20 dvd unat (bp_soft_limit req')"
    "2 ^ 20 dvd unat (bp_hard_limit req')"
    "req' = req\<lparr>bp_soft_limit := bp_soft_limit req', bp_hard_limit := bp_hard_limit req',
                bp_nice_value := bp_nice_value req'\<rparr>"
  using assms
  by (induction args req rule: bp_flag_loop.induct)
    (auto split: if_splits option.splits dest: bp_parse_mib_SomeD bp_parse_nice_SomeD)

lemma default_limits:
  "2 ^ 20 dvd unat BP_DEFAULT_SOFT_LIMIT" "2 ^ 20 dvd unat BP_DEFAULT_HARD_LIMIT"
  by (simp_all add: BP_DEFAULT_SOFT_LIMIT_def BP_DEFAULT_HARD_LIMIT_def push_bit_eq_mult)

text \<open>
  Claim C38. The starter's flag parser validates what it accepts: a request that it returns has
  a soft limit that is at most its hard limit, both whole MiB, a nice value from -20 to 19, and
  is otherwise the request it was given. A printed number of MiB is accepted exactly if its
  bytes fit in 64 bits, and then no bit of the product is lost; a printed nice value exactly if
  it is in the range.
\<close>

theorem bp_flags_sound:
  "(bp_parse_optional_flags args (bp_start_request k argv) = Some req \<longrightarrow>
      bp_soft_limit req \<le> bp_hard_limit req
      \<and> 2 ^ 20 dvd unat (bp_soft_limit req) \<and> 2 ^ 20 dvd unat (bp_hard_limit req)
      \<and> - 20 \<le> sint (bp_nice_value req) \<and> sint (bp_nice_value req) \<le> 19
      \<and> req = (bp_start_request k argv)\<lparr>bp_soft_limit := bp_soft_limit req,
                 bp_hard_limit := bp_hard_limit req, bp_nice_value := bp_nice_value req\<rparr>)
   \<and> (case bp_parse_mib_flag (nat_dec n) of
        None \<Rightarrow> 2 ^ 64 \<le> n * 2 ^ 20 | Some b \<Rightarrow> unat b = n * 2 ^ 20)
   \<and> bp_parse_nice (int_dec i) = (if - 20 \<le> i \<and> i \<le> 19 then Some (word_of_int i) else None)"
proof (intro conjI impI)
  assume "bp_parse_optional_flags args (bp_start_request k argv) = Some req"
  then have loop: "bp_flag_loop args (bp_start_request k argv) = Some req"
    and order: "bp_soft_limit req \<le> bp_hard_limit req"
    by (simp_all add: bp_parse_optional_flags_def not_less split: option.splits if_splits)
  have "nice_ok (bp_nice_value (bp_start_request k argv))"
    "2 ^ 20 dvd unat (bp_soft_limit (bp_start_request k argv))"
    "2 ^ 20 dvd unat (bp_hard_limit (bp_start_request k argv))"
    using default_limits by (simp_all add: bp_start_request_def bp_zero_request_def nice_ok_def)
  note kept = bp_flag_loop_keeps [OF loop this]
  show "bp_soft_limit req \<le> bp_hard_limit req" by (rule order)
  show "2 ^ 20 dvd unat (bp_soft_limit req)" "2 ^ 20 dvd unat (bp_hard_limit req)"
    using kept(2,3) .
  show "- 20 \<le> sint (bp_nice_value req)" "sint (bp_nice_value req) \<le> 19"
    using kept(1) by (simp_all add: nice_ok_def)
  show "req = (bp_start_request k argv)\<lparr>bp_soft_limit := bp_soft_limit req,
      bp_hard_limit := bp_hard_limit req, bp_nice_value := bp_nice_value req\<rparr>"
    by (rule kept(4))
next
  show "case bp_parse_mib_flag (nat_dec n) of
      None \<Rightarrow> 2 ^ 64 \<le> n * 2 ^ 20 | Some b \<Rightarrow> unat b = n * 2 ^ 20"
    by (simp add: bp_parse_mib_printed unat_of_nat flip: of_nat_mult)
next
  show "bp_parse_nice (int_dec i) = (if - 20 \<le> i \<and> i \<le> 19 then Some (word_of_int i) else None)"
    by (rule bp_parse_nice_printed)
qed

definition bp_example_argv :: "string list" where
  "bp_example_argv = [''engine'', ''start'', ''alpha'', ''./rootfs-alpha'', ''/cpu_hog'']"

definition bp_example_flags :: "string list" where
  "bp_example_flags = [''--soft-mib'', nat_dec 48, ''--hard-mib'', nat_dec 80, ''--nice'', int_dec (- 5)]"

lemma bp_example_accepted:
  "\<exists>req. bp_parse_optional_flags bp_example_flags (bp_start_request k argv) = Some req"
  unfolding bp_example_flags_def bp_parse_optional_flags_def
  by (simp add: bp_parse_mib_printed bp_parse_nice_printed)

theorem bp_flags_sound_witness:
  "\<exists>req. bp_parse_optional_flags bp_example_flags (bp_start_request CMD_START bp_example_argv) = Some req
     \<and> bp_soft_limit req \<le> bp_hard_limit req \<and> sint (bp_nice_value req) \<le> 19"
proof -
  obtain req where
    "bp_parse_optional_flags bp_example_flags (bp_start_request CMD_START bp_example_argv) = Some req"
    using bp_example_accepted by blast
  with bp_flags_sound [of bp_example_flags CMD_START bp_example_argv req] show ?thesis by blast
qed


section \<open>Properties of the commands\<close>



text \<open>\<^verbatim>\<open>logs\<close> prints a text file unchanged, however long its lines are.\<close>

lemma fgets_line_prefix: "fgets_line inp = take (length (fgets_line inp)) inp"
  by (simp add: fgets_line_def Let_def min_def)

lemma bp_log_text_id: "NUL \<notin> set inp \<Longrightarrow> bp_log_text inp = inp"
proof (induction inp rule: bp_log_text.induct)
  case (1 inp)
  have whole: "fgets_line inp @ drop (length (fgets_line inp)) inp = inp"
    using fgets_line_prefix [of inp] by (metis append_take_drop_id)
  have "NUL \<notin> set (fgets_line inp)"
    using "1.prems" fgets_line_prefix [of inp] by (metis in_set_takeD)
  then have "cstr (fgets_line inp) = fgets_line inp"
    by (rule cstr_id)
  moreover have "NUL \<notin> set (drop (length (fgets_line inp)) inp)"
    using "1.prems" by (meson in_set_dropD)
  ultimately show ?case
    using 1 whole by (subst bp_log_text.simps) auto
qed

text \<open>The locks are all held or all given back after an initialisation.\<close>

lemma bp_buffer_init_unwinds:
  assumes "bp_bounded_buffer_init a b c = (rc, buf, held)"
  shows "(rc = 0 \<longrightarrow> set held = {Res_mutex, Res_not_empty, Res_not_full})
    \<and> (rc \<noteq> 0 \<longrightarrow> held = []) \<and> bp_bounded_buffer_destroy held = []"
  using assms by (auto simp: bp_bounded_buffer_init_def bp_bounded_buffer_destroy_def Let_def split: if_splits)

end
