(* ===== verification/Starter_Monitor.thy ===== *)
theory Starter_Monitor
  imports Starter_Engine
begin

text \<open>
  The kernel module of the starter kit, \<^verbatim>\<open>src/boilerplate/monitor.c\<close>, with the request type of
  \<^verbatim>\<open>src/boilerplate/monitor_ioctl.h\<close> (\<open>bp_monitor_request\<close>). The kit provides loading and
  unloading, the timer, and the helpers for the resident size and the two limit events; the
  list of entries is left open there, so the \<^verbatim>\<open>ioctl\<close> handler only logs and answers. What the
  process table holds is an argument of type \<open>kview\<close>, as in the theory of the finished module.
\<close>


section \<open>Helpers\<close>

text \<open>
  \<^verbatim>\<open>get_rss_bytes\<close> returns a \<^verbatim>\<open>long\<close>; the product with \<^verbatim>\<open>PAGE_SIZE\<close>, an \<^verbatim>\<open>unsigned long\<close>, wraps.
\<close>

fun bp_get_rss_bytes :: "kview \<Rightarrow> 64 word" where
  "bp_get_rss_bytes No_pid = - 1"
| "bp_get_rss_bytes No_task = - 1"
| "bp_get_rss_bytes No_mm = 0 * PAGE_SIZE"
| "bp_get_rss_bytes (Mm_rss pages) = pages * PAGE_SIZE"

datatype bp_kevent =
    Bk_soft string pid_t u64 "64 word"
  | Bk_hard string pid_t u64 "64 word"
  | Bk_sigkill pid_t
  | Bk_registering string pid_t u64 u64
  | Bk_unregister string pid_t
  | Bk_loaded
  | Bk_unloaded

definition bp_log_soft_limit_event :: "string \<Rightarrow> pid_t \<Rightarrow> u64 \<Rightarrow> 64 word \<Rightarrow> bp_kevent list" where
  "bp_log_soft_limit_event i p limit rss = [Bk_soft i p limit rss]"

definition bp_kill_process :: "kview \<Rightarrow> string \<Rightarrow> pid_t \<Rightarrow> u64 \<Rightarrow> 64 word \<Rightarrow> bp_kevent list" where
  "bp_kill_process v i p limit rss =
     (if v = No_pid \<or> v = No_task then [] else [Bk_sigkill p]) @ [Bk_hard i p limit rss]"

text \<open>The timer, by the time at which it fires next; \<open>hz\<close> is the number of ticks in a second.\<close>

definition bp_CHECK_INTERVAL_SEC :: nat where "bp_CHECK_INTERVAL_SEC = 1"

definition bp_timer_callback :: "nat \<Rightarrow> u64 \<Rightarrow> u64" where
  "bp_timer_callback hz jiffies = jiffies + of_nat (bp_CHECK_INTERVAL_SEC * hz)"


section \<open>The ioctl handler\<close>

datatype bp_monitor_cmd = MONITOR_REGISTER | MONITOR_UNREGISTER | BP_OTHER_CMD

text \<open>The second argument is what \<^verbatim>\<open>copy_from_user\<close> delivers, \<^const>\<open>None\<close> when the copy faults.\<close>

definition bp_monitor_ioctl ::
  "bp_monitor_cmd \<Rightarrow> bp_monitor_request option \<Rightarrow> int \<times> bp_kevent list" where
  "bp_monitor_ioctl cmd arg =
     (if cmd \<noteq> MONITOR_REGISTER \<and> cmd \<noteq> MONITOR_UNREGISTER then (- EINVAL, [])
      else case arg of
             None \<Rightarrow> (- EFAULT, [])
           | Some req \<Rightarrow>
               if cmd = MONITOR_REGISTER
               then (0, [Bk_registering (bm_container_id req) (bm_pid req) (bm_soft_limit req)
                          (bm_hard_limit req)])
               else (- ENOENT, [Bk_unregister (bm_container_id req) (bm_pid req)]))"


section \<open>Loading and unloading\<close>

datatype bp_kres = Bp_region | Bp_class | Bp_device | Bp_cdev | Bp_timer

text \<open>
  The arguments are the results of \<^verbatim>\<open>alloc_chrdev_region\<close>, \<^verbatim>\<open>class_create\<close>, \<^verbatim>\<open>device_create\<close>
  (negative when \<^verbatim>\<open>IS_ERR\<close>) and \<^verbatim>\<open>cdev_add\<close>; the second result lists what the module holds.
\<close>

definition bp_monitor_init :: "int \<Rightarrow> int \<Rightarrow> int \<Rightarrow> int \<Rightarrow> int \<times> bp_kres list \<times> bp_kevent list" where
  "bp_monitor_init region_ret class_ret device_ret cdev_ret =
     (if region_ret < 0 then (- 1, [], [])
      else let r1 = [Bp_region] in
      if class_ret < 0 then (class_ret, removeAll Bp_region r1, [])
      else let r2 = Bp_class # r1 in
      if device_ret < 0 then (- 1, removeAll Bp_region (removeAll Bp_class r2), [])
      else let r3 = Bp_device # r2 in
      if cdev_ret < 0
      then (- 1, removeAll Bp_region (removeAll Bp_class (removeAll Bp_device r3)), [])
      else (0, Bp_timer # Bp_cdev # r3, [Bk_loaded]))"

definition bp_monitor_exit :: "bp_kres list \<Rightarrow> bp_kres list \<times> bp_kevent list" where
  "bp_monitor_exit held =
     (removeAll Bp_region (removeAll Bp_class (removeAll Bp_device (removeAll Bp_cdev
        (removeAll Bp_timer held)))), [Bk_unloaded])"


section \<open>Facts\<close>

text \<open>The resident size of the starter in bytes and that of the finished module in MiB agree.\<close>

lemma bp_rss_agrees:
  "get_process_rss_mib (Mm_rss pages) True
     = (0, Some (bp_get_rss_bytes (Mm_rss pages) div (1024 * 1024)))"
  by simp

text \<open>The size is never mistaken for a missing process while the pages fit in memory.\<close>

lemma bp_rss_exists_iff:
  assumes "\<And>n. v = Mm_rss n \<Longrightarrow> uint n < 2 ^ 51"
  shows "sint (bp_get_rss_bytes v) < 0 \<longleftrightarrow> process_exists v = 0"
proof (cases v)
  case (Mm_rss n)
  have "uint n * 4096 < 2 ^ 63"
    using assms Mm_rss by simp
  then have "uint (n * 4096) = uint n * 4096"
    by (simp add: uint_word_ariths)
  moreover from this have "sint (n * 4096) = uint n * 4096"
    using \<open>uint n * 4096 < 2 ^ 63\<close>
    by (simp add: sint_uint signed_take_bit_int_eq_self order_trans [of _ 0])
  ultimately show ?thesis
    using Mm_rss by (simp add: PAGE_SIZE_def)
qed (simp_all add: PAGE_SIZE_def)

text \<open>A failed load leaves nothing behind, and unloading gives back what a load acquired.\<close>

lemma bp_module_load_unload:
  assumes "bp_monitor_init a b c d = (ret, held, ev)"
  shows "(ret = 0 \<and> set held = {Bp_region, Bp_class, Bp_device, Bp_cdev, Bp_timer}
      \<or> ret < 0 \<and> held = []) \<and> fst (bp_monitor_exit held) = []"
  using assms by (auto simp: bp_monitor_init_def bp_monitor_exit_def Let_def split: if_splits)

text \<open>The user side and the kernel side together: registering works, unregistering never does.\<close>

lemma bp_register_through_device:
  "bp_register_with_monitor (\<lambda>r. fst (bp_monitor_ioctl MONITOR_REGISTER (Some r))) i p s h = 0"
  "bp_unregister_from_monitor (\<lambda>r. fst (bp_monitor_ioctl MONITOR_UNREGISTER (Some r))) i p = - 1"
  by (simp_all add: bp_register_with_monitor_def bp_unregister_from_monitor_def bp_monitor_ioctl_def
      kernel_simps)

end
