(* ===== verification/Spec2Isabelle.thy ===== *)
theory Spec2Isabelle
  imports Supervisor_Refinement Log_Delivery Cli Workloads Starter_Monitor
begin

text \<open>
  A verification library for the container runtime under \<^verbatim>\<open>src/\<close>: a supervisor that starts,
  stops and reaps containers and collects their output, a command line client that talks to it
  over a socket, a kernel module that enforces memory limits, and the workloads that are run
  inside the containers.

  \<^bold>\<open>The program.\<close> \<^verbatim>\<open>engine supervisor\<close> (\<^verbatim>\<open>run_supervisor\<close>) listens on a UNIX socket. Each
  client gets a thread (\<^verbatim>\<open>client_handler_main\<close>) that reads one request and starts, stops, lists
  or waits for a container. A start reserves a slot of the table \<^verbatim>\<open>containers\<close>, clones the
  child, publishes its pid, starts a producer thread for the child's output and registers the
  pid with the kernel module. Producer threads push chunks into a bounded buffer; one consumer
  thread appends them to the log files. The reaper thread waits for children and records how
  they ended. The module \<^verbatim>\<open>monitor.c\<close> keeps a list of pids with limits, changed by \<^verbatim>\<open>ioctl\<close> and
  scanned by a kernel thread that warns and kills. The directory \<^verbatim>\<open>src/boilerplate/\<close> holds the
  starter kit, an earlier program with its own engine, module and workloads.

  \<^bold>\<open>The theories.\<close>
  \<^item> Prelude: machine types, collections of rewrite rules, facts on lists, words, C strings.
  \<^item> C_Text: \<^verbatim>\<open>safe_strcpy\<close> of \<^verbatim>\<open>engine.c\<close>; \<^verbatim>\<open>snprintf\<close>, \<^verbatim>\<open>strtol\<close>, \<^verbatim>\<open>strtoul\<close>, \<^verbatim>\<open>atoi\<close>.
  \<^item> Container_Table: \<^verbatim>\<open>container_t\<close>, the array of slots, its lookups, and the invariant
    \<open>table_ok\<close> (unique ids, no two live containers on one root file system).
  \<^item> Wire: \<^verbatim>\<open>request_t\<close>, \<^verbatim>\<open>response_t\<close>, their memory images, \<^verbatim>\<open>send_all\<close>, \<^verbatim>\<open>recv_all\<close>; the locale
    \<open>codec\<close>.
  \<^item> Log_Buffer: \<^verbatim>\<open>log_buffer_t\<close> with its four operations; the locale \<open>bounded_queue\<close>.
  \<^item> Monitor: all of \<^verbatim>\<open>monitor.c\<close>; the locale \<open>limit_registry\<close>.
  \<^item> Lifecycle, Lifecycle_Facts, Lifecycle_Properties: start, child, stop and reaper of
    \<^verbatim>\<open>engine.c\<close>, with every failing system call as a branch.
  \<^item> Transition: runs of a transition system; the locales \<open>invariant_system\<close> and \<open>simulation\<close>.
  \<^item> Log_Pipeline, Log_Delivery: \<^verbatim>\<open>log_producer_main\<close> and \<^verbatim>\<open>log_consumer_main\<close> as a transition
    system with sleeping and waking threads, and the log files.
  \<^item> Supervisor, Supervisor_Refinement: the critical sections of starts, stops and the reaper as
    a transition system, and the abstract registry of container phases that it refines.
  \<^item> Reports: \<^verbatim>\<open>build_ps_output\<close>, \<^verbatim>\<open>build_logs_output\<close>, \<^verbatim>\<open>format_time_string\<close>.
  \<^item> Server: \<^verbatim>\<open>client_handler_main\<close>, \<^verbatim>\<open>supervisor_signal_handler\<close>, \<^verbatim>\<open>run_supervisor\<close>.
  \<^item> Cli: \<^verbatim>\<open>parse_optional_flags\<close>, \<^verbatim>\<open>connect_to_supervisor\<close>, \<^verbatim>\<open>send_request_to_supervisor\<close>, \<^verbatim>\<open>main\<close>.
  \<^item> Workloads: \<^verbatim>\<open>cpu_hog.c\<close>, \<^verbatim>\<open>memory_hog.c\<close>, \<^verbatim>\<open>io_pulse.c\<close>, in both versions.
  \<^item> Starter_Engine, Starter_Monitor: \<^verbatim>\<open>boilerplate/engine.c\<close> and \<^verbatim>\<open>boilerplate/monitor.c\<close>.

  \<^bold>\<open>State and operations.\<close> A structure is a record with the fields of the source; \<open>int\<close>,
  \<open>pid_t\<close> and \<open>unsigned long\<close> are words of 32 and 64 bits. A function returns its result with the
  state it leaves behind: \<open>world\<close> (table, descriptors, heap, children, signals, module list) for the
  life cycle, the list of entries for the module. What system calls and files answer is an
  argument, so a theorem covers every answer. A call that may wait returns \<open>Blocks\<close>; what C
  leaves undefined is \<^const>\<open>None\<close>. Threads interleave in the two transition systems, one step
  for each critical section or system call.

  \<^bold>\<open>What is shown.\<close>
  \<^item> Table: every operation and every interleaving keeps the invariant; the phases of the
    containers evolve as the registry allows; slots and ids are never recycled.
  \<^item> Start: accepted exactly under the documented conditions; a failed start gives everything
    back; after a successful one every resource has an owner.
  \<^item> Stop and reaper: which slot changes and how a wait status is recorded; three races in
    which the record is wrong (an exit before the pid is published, a reused pid, a stop during
    a start) are proved as such.
  \<^item> Logging: the ring is a bounded FIFO queue; chunks stay in order; no deadlock; a shutdown
    drains the buffer; a log file holds what was read, but for at most the last chunk.
  \<^item> Control channel: requests and responses survive any fragmentation; every request type is
    answered; \<^verbatim>\<open>engine run\<close> ends with the status of the container.
  \<^item> Module: the list is a map from pids to limits; the hard limit kills exactly above it, the
    soft limit warns once; errors change nothing; loading and unloading are balanced. The limit
    of a start request is followed from the client to the kill.
  \<^item> Starter kit and workloads: validation of flags, what \<^verbatim>\<open>start\<close> does there, which pages
    \<^verbatim>\<open>memory_hog\<close> touches.

  \<^bold>\<open>Bounds.\<close> Sizes are those of the sources: 10 containers, 128 chunks of 512 bytes, 8192
  bytes of response. No model uses fuel: loops over arrays and lists are structural recursion,
  loops that consume input recurse on what the system calls return, and the endless loops of
  the threads are runs of a transition system of any length. The drain of the buffer is bounded by two
  steps for each chunk and one more. Statements on resident sizes assume fewer than two to the
  power 52 pages, which no machine has.

  \<^bold>\<open>Not modelled.\<close> The texts of \<^verbatim>\<open>print_usage\<close> and of messages on standard error, which no
  part of the program reads; the internals of mutexes and condition variables, whose documented
  effect the steps assume; the conversion to local time; sleeping times and scheduling. The functions that the starter kit declares
  and leaves empty are modelled as the stubs they are. Build files, shell scripts
  and documents hold no program logic.
\<close>


section \<open>Limits from the command line to the kernel\<close>

lemma register_with_kernel:
  assumes ok: "monitor_ok es" and dev: "dev_open env" "dev_copy env" "dev_kmalloc env"
    and p: "0 < sint p"
  shows "monitor_ok (snd (register_container_with_kernel env p soft hard es))"
    "monitor_map (snd (register_container_with_kernel env p soft hard es)) =
       (if hard = 0 then monitor_map es
        else (monitor_map es)(p \<mapsto> (ulong_of_int soft, ulong_of_int hard, False)))"
proof -
  let ?req = "\<lparr>mr_pid = p, mr_soft_limit = ulong_of_int soft, mr_hard_limit = ulong_of_int hard\<rparr>"
  have reg: "snd (register_container_with_kernel env p soft hard es)
      = fst (snd (monitor_ioctl True (REGISTER_CONTAINER (Some ?req)) es))"
    using dev by (simp add: register_container_with_kernel_def split: prod.splits)
  show "monitor_ok (snd (register_container_with_kernel env p soft hard es))"
    unfolding reg by (rule monitor_ioctl_ok [OF ok])
  show "monitor_map (snd (register_container_with_kernel env p soft hard es)) =
       (if hard = 0 then monitor_map es
        else (monitor_map es)(p \<mapsto> (ulong_of_int soft, ulong_of_int hard, False)))"
  proof (cases "hard = 0")
    case True
    then show ?thesis
      unfolding reg using p by (simp add: monitor_ioctl_def)
  next
    case False
    then show ?thesis
      unfolding reg using register_effect [OF ok, of ?req True] p by auto
  qed
qed

lemma rss_mib_bound: "uint (rss_mib pages) < 2 ^ 44"
proof -
  have "uint (rss_mib pages) = uint (pages * PAGE_SIZE) div 2 ^ 20"
    by (simp add: rss_mib_def uint_div_distrib)
  moreover have "uint (pages * PAGE_SIZE) < 2 ^ 64"
    using uint_lt2p [of "pages * PAGE_SIZE"] by simp
  ultimately show ?thesis
    using less_div_iff_int [of "2 ^ 20" "2 ^ 44 - 1" "uint (pages * PAGE_SIZE)"] by simp
qed

text \<open>When the hard limit that a start registered is crossed.\<close>

lemma ulong_limit_crossed:
  assumes "h \<noteq> 0" "uint n < 2 ^ 52"
  shows "ulong_of_int h < rss_mib n \<longleftrightarrow> 0 < sint h \<and> (sint h + 1) * 2 ^ 20 \<le> uint n * 4096"
proof (cases "0 < sint h")
  case True
  then have "ulong_of_int h < rss_mib n \<longleftrightarrow> sint h < uint n * 4096 div 2 ^ 20"
    unfolding word_less_def using uint_ulong_of_int_nonneg [of h] uint_rss_mib [OF assms(2)] by simp
  then show ?thesis
    using True less_div_iff_int [of "2 ^ 20" "sint h" "uint n * 4096"] by simp
next
  case False
  moreover have "sint h \<noteq> 0"
    using assms(1) by (simp add: signed_eq_0_iff)
  ultimately have "sint h < 0"
    by simp
  then have "uint (ulong_of_int h) = 2 ^ 64 + sint h" "- (2 ^ 31) \<le> sint h"
    using uint_ulong_of_int_neg sint_i32_range(1) by blast+
  then show ?thesis
    unfolding word_less_def using False rss_mib_bound [of n] by simp
qed

lemma kill_by_map:
  assumes "monitor_ok es"
  shows "K_sigkill p \<in> set (snd (monitor_pass views es)) \<longleftrightarrow>
    (\<exists>s h wd n. monitor_map es p = Some (s, h, wd) \<and> process_exists (fst (views p)) \<noteq> 0
       \<and> fst (snd (views p)) = Mm_rss n \<and> h < rss_mib n \<and> snd (snd (views p)) \<noteq> No_pid)"
proof -
  obtain v1 v2 v3 where v: "views p = (v1, v2, v3)"
    by (cases "views p")
  show ?thesis
    unfolding kill_pass_iff [OF assms] v kill_visit_iff monitor_map_eq_Some [OF assms] by auto
qed

text \<open>
  Claim C8. The hard limit of a start request is enforced end to end. After a successful start
  of a process that was not registered before, a pass of the kernel's monitor thread kills the
  process if and only if the requested limit is positive and the process is found with at least
  one MiB more than it resident. In particular a request with the limit 0, which is what
  \<^verbatim>\<open>atoi\<close> makes of a text that is no number, is not registered, and one with a negative limit is
  registered with a limit near two to the power 64; neither container is ever killed.
\<close>

theorem start_limit_enforcement:
  assumes "env_fresh env w" "start_container_internal env req resp w = (0, io, resp', w')"
    "monitor_ok (monitor w)" "monitor_map (monitor w) p = None" "clone_res env = Inr p" "0 < sint p"
    "dev_open (device env)" "dev_copy (device env)" "dev_kmalloc (device env)"
    "\<And>n. fst (snd (views p)) = Mm_rss n \<Longrightarrow> uint n < 2 ^ 52"
  shows "K_sigkill p \<in> set (snd (monitor_pass views (monitor w'))) \<longleftrightarrow>
    0 < sint (req_hard_mib req) \<and> process_exists (fst (views p)) \<noteq> 0
    \<and> (\<exists>n. fst (snd (views p)) = Mm_rss n
         \<and> (sint (req_hard_mib req) + 1) * 2 ^ 20 \<le> uint n * 4096)
    \<and> snd (snd (views p)) \<noteq> No_pid"
proof -
  have mon: "monitor w' = snd (register_container_with_kernel (device env) p (req_soft_mib req)
      (req_hard_mib req) (monitor w))"
    using start_registers [OF assms(1,2,5)] .
  have ok: "monitor_ok (monitor w')"
    and entry: "monitor_map (monitor w') p = (if req_hard_mib req = 0 then None
      else Some (ulong_of_int (req_soft_mib req), ulong_of_int (req_hard_mib req), False))"
    unfolding mon using register_with_kernel [OF assms(3,7,8,9,6)] assms(4) by simp_all
  show ?thesis
  proof (cases "req_hard_mib req = 0")
    case True
    then show ?thesis
      unfolding kill_by_map [OF ok] entry by simp
  next
    case False
    then show ?thesis
      unfolding kill_by_map [OF ok] entry using ulong_limit_crossed [OF False] assms(10) by auto
  qed
qed

theorem start_limit_enforcement_witness:
  "\<exists>io resp' w'. start_container_internal example_env example_request init_response example_world
      = (0, io, resp', w')
    \<and> K_sigkill 4242 \<in> set (snd (monitor_pass (example_views 16640) (monitor w')))
    \<and> K_sigkill 4242 \<notin> set (snd (monitor_pass (example_views 16639) (monitor w')))"
proof -
  obtain io resp' w' where run: "start_container_internal example_env example_request
      init_response example_world = (0, io, resp', w')"
    by (rule example_run)
  have empty: "monitor_ok (monitor example_world)" "monitor_map (monitor example_world) 4242 = None"
    by (simp_all add: example_world_def kernel_simps)
  have env: "clone_res example_env = Inr 4242" "dev_open (device example_env)"
    "dev_copy (device example_env)" "dev_kmalloc (device example_env)"
    by (simp_all add: example_env_def)
  have rss: "\<And>n. fst (snd (example_views m 4242)) = Mm_rss n \<Longrightarrow> uint n < 2 ^ 52"
    if "uint m < 2 ^ 52" for m
    using that by (auto simp: example_views_def)
  have "0 < sint (4242 :: pid_t)" "sint (req_hard_mib example_request) = 64"
    by (simp_all add: example_request_def)
  then have "K_sigkill 4242 \<in> set (snd (monitor_pass (example_views 16640) (monitor w')))"
    "K_sigkill 4242 \<notin> set (snd (monitor_pass (example_views 16639) (monitor w')))"
    using start_limit_enforcement [OF example_env_fresh run empty env(1) _ env(2-4), of "example_views 16640"]
      start_limit_enforcement [OF example_env_fresh run empty env(1) _ env(2-4), of "example_views 16639"]
      rss [of 16640] rss [of 16639]
    by (simp_all add: example_views_def)
  with run show ?thesis by blast
qed


section \<open>Requests and responses over the stream\<close>

text \<open>
  Claim C9. A request built by the client reaches the supervisor unchanged and so does the
  response on its way back: whatever the command line (strings without NUL, as the system
  passes them), however the kernel cuts the two streams into pieces and however often the calls
  are interrupted, if sending succeeds and no failure occurs then the supervisor decodes exactly
  the request that was sent, and the client exactly the response.
\<close>

theorem control_channel_round_trip:
  assumes "main_action argv = Send req" "\<forall>a \<in> set argv. NUL \<notin> set a"
    "send_all ss (request_image req) = Some (0, tx)" "no_failure rs" "recv_bytes rs = tx"
    "response_ok resp" "send_all ss' (response_image stale resp) = Some (0, tx')"
    "no_failure (ce_recv env)" "recv_bytes (ce_recv env) = tx'"
    "0 \<le> ce_socket env" "ce_connect env" "ce_send env = ss"
  shows "(\<exists>bytes. recv_all rs sizeof_request = Some (0, bytes) \<and> request_of_image bytes = req)
    \<and> send_request_to_supervisor env req init_response = Some (0, resp)"
proof -
  have "request_ok req"
    using assms(1,2) by (rule main_action_Send(1))
  then have "\<exists>bytes. recv_all rs sizeof_request = Some (0, bytes) \<and> request_of_image bytes = req"
    using assms(3-5) by (rule req_codec.transfer)
  moreover have "\<exists>bytes. recv_all (ce_recv env) sizeof_response = Some (0, bytes)
      \<and> response_of_image bytes = resp"
    using assms(6-9) by (rule resp_codec.transfer)
  ultimately show ?thesis
    using assms(3,10-12)
    by (auto simp: send_request_to_supervisor_def connect_to_supervisor_def)
qed

lemma send_all_at_once: "bs \<noteq> [] \<Longrightarrow> send_all [Sent (length bs)] bs = Some (0, bs)"
  by (cases bs) simp_all

lemma image_not_Nil [simp]: "request_image req \<noteq> []" "response_image stale resp \<noteq> []"
  by (auto simp: request_image_def response_image_def array_image_def)

definition ps_request :: request where
  "ps_request = init_request_defaults\<lparr>req_type := request_type_code REQ_PS\<rparr>"

definition channel_env :: client_env where
  "channel_env = \<lparr>ce_socket = 4, ce_connect = True,
     ce_send = [Sent (length (request_image ps_request))],
     ce_recv = [Recv_EINTR, Recv_data (response_image (\<lambda>_. NUL) init_response)]\<rparr>"

theorem control_channel_round_trip_witness:
  "send_request_to_supervisor channel_env ps_request init_response = Some (0, init_response)"
proof -
  have act: "main_action [''engine'', ''ps''] = Send ps_request"
    by (simp add: main_action_def ps_request_def)
  have args: "\<forall>a \<in> set [''engine'', ''ps'']. NUL \<notin> set a"
    by simp
  have sent: "send_all (ce_send channel_env) (request_image ps_request)
      = Some (0, request_image ps_request)"
    "send_all [Sent (length (response_image (\<lambda>_. NUL) init_response))]
       (response_image (\<lambda>_. NUL) init_response) = Some (0, response_image (\<lambda>_. NUL) init_response)"
    by (simp_all add: channel_env_def send_all_at_once)
  have got: "no_failure [Recv_data (request_image ps_request)]"
    "recv_bytes [Recv_data (request_image ps_request)] = request_image ps_request"
    "no_failure (ce_recv channel_env)"
    "recv_bytes (ce_recv channel_env) = response_image (\<lambda>_. NUL) init_response"
    by (simp_all add: no_failure_def channel_env_def image_not_Nil [symmetric])
  have "response_ok init_response" "0 \<le> ce_socket channel_env" "ce_connect channel_env"
    by (simp_all add: response_ok_def init_response_def c_layout channel_env_def)
  then show ?thesis
    using control_channel_round_trip [OF act args sent(1) got(1,2) _ sent(2) got(3,4)] by simp
qed



section \<open>The exit status of a run\<close>

text \<open>How a process ended, as a shell reports it: its exit code, or 128 plus the signal.\<close>

inductive ends_with :: "i32 \<Rightarrow> nat \<Rightarrow> bool" where
  exited: "code < 256 \<Longrightarrow> ends_with (exited_status code) code"
| signaled: "1 \<le> sig \<Longrightarrow> sig \<le> 126 \<Longrightarrow> ends_with (signaled_status sig core) (128 + sig)"

lemma ends_with_bound: "ends_with st code \<Longrightarrow> code < 256"
  by (auto elim: ends_with.cases)

lemma reaped_exit_code: "ends_with st code \<Longrightarrow> exit_code (reaped_slot st c) = of_nat code"
  by (auto simp: reaped_slot_def exited_status_decode signaled_status_decode elim!: ends_with.cases)

lemma sint_code: "code < 256 \<Longrightarrow> sint (of_nat code :: i32) = int code"
  by (simp add: signed_of_nat signed_take_bit_int_eq_self)

lemma NUL_notin_state: "s \<in> container_states \<Longrightarrow> NUL \<notin> set s"
  by (auto simp: container_states_def)

text \<open>
  Claim C7. \<^verbatim>\<open>engine run\<close> ends with the status of the container. While the container lives its
  handler waits; once the reaper has recorded its end the wait is over, and a client that gets
  the response over the stream, cut in any way, exits with the exit code of the container's
  command, or with 128 plus the signal that killed it, and prints one line.
\<close>

theorem run_exit_status:
  assumes "main_action argv = Send req" "\<forall>a \<in> set argv. NUL \<notin> set a"
    "req_type req = request_type_code REQ_RUN"
    "table_ok (containers w)" "pid_unique (containers w) i" "live (containers w ! i)"
    "ends_with st code"
  shows "run_wait req i resp (containers w) = Blocks
    \<and> (\<exists>resp'. run_wait req i resp (containers (reap_child env (pid (containers w ! i)) st w))
           = Returns resp'
         \<and> (\<forall>cenv stale tx. 0 \<le> ce_socket cenv \<longrightarrow> ce_connect cenv \<longrightarrow>
              send_all (ce_send cenv) (request_image req) = Some (0, tx) \<longrightarrow>
              no_failure (ce_recv cenv) \<longrightarrow> recv_bytes (ce_recv cenv) = response_image stale resp' \<longrightarrow>
              main cenv supervisor argv = Some (int code, message resp' @ newline)))"
proof -
  let ?c = "(reaped_slot st (containers w ! i))\<lparr>child_stack := None\<rparr>"
  let ?cs = "containers (reap_child env (pid (containers w ! i)) st w)"
  have at: "?cs ! i = ?c"
    using assms(5) pid_unique_index [OF assms(5)] by (simp add: reap_child_containers pid_unique_def)
  have code: "exit_code ?c = of_nat code" "sint (of_nat code :: i32) = int code"
    using reaped_exit_code [OF assms(7)] sint_code [OF ends_with_bound [OF assms(7)]] by simp_all
  let ?m = "''Container '' @ req_id req @ '' finished with state=''
    @ safe_strcpy [] (Some (state ?c)) MAX_STATE_LEN @ '' exit='' @ int_dec (sint (exit_code ?c))"
  define resp' where "resp' = set_response resp 1 (exit_code ?c) ?m"
  have woken: "run_wait req i resp ?cs = Returns resp'"
    unfolding run_wait_def at resp'_def by (simp add: Let_def)
  have "NUL \<notin> set (req_id req)"
    using main_action_Send(1) [OF assms(1,2)] by (simp add: request_ok_def fits_def)
  moreover have "NUL \<notin> set (safe_strcpy [] (Some (state ?c)) MAX_STATE_LEN)"
    using NUL_notin_state [OF reaped_slot_in_states] by (auto simp: safe_strcpy_def c_layout dest: in_set_takeD)
  ultimately have "NUL \<notin> set ?m"
    by simp
  then have rok: "response_ok resp'"
    unfolding resp'_def by (rule set_response_ok)
  have fields: "ok resp' = 1" "resp_exit_code resp' = of_nat code" "message resp' \<noteq> []"
    using code(1) by (simp_all add: resp'_def c_layout)
  have client: "main cenv supervisor argv = Some (int code, message resp' @ newline)"
    if "0 \<le> ce_socket cenv" "ce_connect cenv"
      "send_all (ce_send cenv) (request_image req) = Some (0, tx)" "no_failure (ce_recv cenv)"
      "recv_bytes (ce_recv cenv) = response_image stale resp'" for cenv stale tx
  proof -
    have "recv_all (ce_recv cenv) sizeof_response = Some (0, recv_bytes (ce_recv cenv))"
      using that(4,5) resp_codec.image_width [OF rok] by (intro recv_all_complete) simp_all
    then have "send_request_to_supervisor cenv req init_response = Some (0, resp')"
      using that resp_codec.decode_image [OF rok]
      by (simp add: send_request_to_supervisor_def connect_to_supervisor_def)
    then show ?thesis
      using assms(1,3) fields code(2) by (simp add: main_def exit_status_def)
  qed
  have "run_wait req i resp (containers w) = Blocks"
    using assms(6) by (simp add: run_wait_def live_def)
  with woken client show ?thesis
    by blast
qed

definition run_argv :: "string list" where
  "run_argv = [''engine'', ''run'', ''alpha'', ''./rootfs-alpha'', ''/io_pulse'']"

theorem run_exit_status_witness:
  "run_wait (start_request run_argv) 0 init_response (containers running_world) = Blocks
   \<and> (\<exists>resp'. run_wait (start_request run_argv) 0 init_response
        (containers (reap_child example_device 4242 (signaled_status 9 False) running_world))
          = Returns resp')"
proof -
  have act: "main_action run_argv = Send (start_request run_argv)"
    by (simp add: main_action_def run_argv_def)
  have args: "\<forall>a \<in> set run_argv. NUL \<notin> set a"
    by (simp add: run_argv_def)
  have ty: "req_type (start_request run_argv) = request_type_code REQ_RUN"
    by (simp add: start_request_def run_argv_def)
  have live: "live (containers running_world ! 0)"
    by (simp only: running_world_slot)
  have "ends_with (signaled_status 9 False) (128 + 9)"
    by (rule signaled) simp_all
  from run_exit_status [OF act args ty running_world_ok running_world_pid_unique live this,
      of init_response example_device "\<lambda>_. None"]
  show ?thesis
    unfolding running_world_slot by blast
qed

end
